(* ===== verification/Xinu_Base.thy ===== *)
theory Xinu_Base
  imports Main "HOL-Library.Word" "HOL-Library.Monad_Syntax"
begin

unbundle bit_operations_syntax

text \<open>
  Shared vocabulary of the development: the machine types of the 32-bit ARM build that
  \<^verbatim>\<open>compile/Makefile\<close> selects by default, the universal constants of
  \<^verbatim>\<open>include/stddef.h\<close>, \<^verbatim>\<open>include/proc.h\<close>, \<^verbatim>\<open>include/queue.h\<close> and
  \<^verbatim>\<open>include/spinlock.h\<close>, C arrays with their bounds written out, and the generic
  lemmas on lists, options and words that the component theories use.

  An operation of the kernel is a function from a state record to an \<open>option\<close>:
  \<open>None\<close> means that the call does not come back (it spins on a lock that is held) or
  that it touches an array outside of its bounds; a C return value, error codes
  included, is an ordinary result.
\<close>

section \<open>Machine types and constants\<close>

type_synonym u8 = "8 word"
type_synonym u32 = "32 word"
type_synonym u64 = "64 word"

definition OK :: int where "OK = 1"
definition SYSERR :: int where "SYSERR = -1"
definition EOF :: int where "EOF = -2"
definition EMPTY :: int where "EMPTY = -2"

definition NPROC :: int where "NPROC = 50"
definition NQENT :: int where "NQENT = NPROC + 24 + NPROC + NPROC"
definition NLOCK :: int where "NLOCK = 150"
definition NCORES :: int where "NCORES = 4"

lemmas kernel_consts = OK_def SYSERR_def EOF_def EMPTY_def NPROC_def NQENT_def NLOCK_def NCORES_def

text \<open>A value of C type \<open>int\<close> stored in (or cast to) an unsigned word, and back.\<close>

definition u32_of :: "int \<Rightarrow> u32" where "u32_of i = word_of_int i"

definition SYSERRP :: u32 where "SYSERRP = u32_of SYSERR"

lemma SYSERRP_eq: "SYSERRP = 0xFFFFFFFF"
  by (simp add: SYSERRP_def u32_of_def SYSERR_def)

section \<open>Arrays with bounds\<close>

text \<open>Reading and writing element \<open>i\<close> of a C array; outside of the array, \<open>None\<close>.\<close>

definition aget :: "'a list \<Rightarrow> int \<Rightarrow> 'a option" where
  "aget xs i = (if 0 \<le> i \<and> i < int (length xs) then Some (xs ! nat i) else None)"

definition aset :: "'a list \<Rightarrow> int \<Rightarrow> 'a \<Rightarrow> 'a list option" where
  "aset xs i v = (if 0 \<le> i \<and> i < int (length xs) then Some (xs[nat i := v]) else None)"

definition inb :: "'a list \<Rightarrow> int \<Rightarrow> bool" where
  "inb xs i \<longleftrightarrow> 0 \<le> i \<and> i < int (length xs)"

text \<open>The total versions, for indices known to be in bounds.\<close>

abbreviation at :: "'a list \<Rightarrow> int \<Rightarrow> 'a" where
  "at xs i \<equiv> xs ! nat i"

lemma inbI [intro]: "0 \<le> i \<Longrightarrow> i < int (length xs) \<Longrightarrow> inb xs i"
  by (simp add: inb_def)

lemma aget_in [simp]: "inb xs i \<Longrightarrow> aget xs i = Some (at xs i)"
  by (simp add: aget_def inb_def)

lemma aset_in [simp]: "inb xs i \<Longrightarrow> aset xs i v = Some (xs[nat i := v])"
  by (simp add: aset_def inb_def)

lemma aget_None_iff: "aget xs i = None \<longleftrightarrow> \<not> inb xs i"
  by (simp add: aget_def inb_def)

lemma aset_None_iff: "aset xs i v = None \<longleftrightarrow> \<not> inb xs i"
  by (simp add: aset_def inb_def)

lemma aget_Some_iff: "aget xs i = Some x \<longleftrightarrow> inb xs i \<and> x = at xs i"
  by (auto simp: aget_def inb_def)

lemma aset_Some_iff: "aset xs i v = Some ys \<longleftrightarrow> inb xs i \<and> ys = xs[nat i := v]"
  by (auto simp: aset_def inb_def)

lemma inb_update [simp]: "inb (xs[k := v]) i \<longleftrightarrow> inb xs i"
  by (simp add: inb_def)

lemma at_update: "inb xs i \<Longrightarrow> 0 \<le> j \<Longrightarrow> at (xs[nat j := v]) i = (if i = j then v else at xs i)"
  by (auto simp: inb_def nth_list_update)

lemma inb_nat [simp]: "inb xs i \<Longrightarrow> nat i < length xs"
  by (auto simp: inb_def)

lemma inb_unat [simp]: "inb xs (uint w) \<Longrightarrow> unat w < length xs"
  using inb_nat by fastforce

lemma at_update_eq [simp]: "inb xs i \<Longrightarrow> at (xs[nat i := v]) i = v"
  by simp

lemma at_update_neq [simp]: "0 \<le> i \<Longrightarrow> 0 \<le> j \<Longrightarrow> i \<noteq> j \<Longrightarrow> at (xs[nat j := v]) i = at xs i"
  by simp

lemma at_in_set: "inb xs i \<Longrightarrow> at xs i \<in> set xs"
  by (simp del: length_greater_0_conv)

lemma in_set_at: "x \<in> set xs \<Longrightarrow> \<exists>i. inb xs i \<and> at xs i = x"
proof -
  assume "x \<in> set xs"
  then obtain k where "k < length xs" "xs ! k = x" by (auto simp: in_set_conv_nth)
  then have "inb xs (int k) \<and> at xs (int k) = x" by (simp add: inb_def)
  then show ?thesis by blast
qed

section \<open>Words\<close>

lemma unat_and_not_mask: "unat ((w :: 'a::len word) AND NOT (mask k)) = 2 ^ k * (unat w div 2 ^ k)"
proof -
  have "unat (w AND NOT (mask k)) = push_bit k (drop_bit k (unat w))"
    by (rule bit_eqI) (auto simp: bit_simps bit_unsigned_iff dest: bit_imp_le_length)
  then show ?thesis by (simp add: push_bit_eq_mult drop_bit_eq_div mult.commute)
qed

lemma mask_3_word: "(7 :: 'a::len word) = mask 3"
  by (simp add: mask_eq_exp_minus_1)

lemma mask_12_word: "(4095 :: 'a::len word) = mask 12"
  by (simp add: mask_eq_exp_minus_1)

lemma unat_add_nowrap:
  "unat (a :: 'a::len word) + unat b < 2 ^ LENGTH('a) \<Longrightarrow> unat (a + b) = unat a + unat b"
  using unat_add_lem by blast

section \<open>Round-robin search\<close>

text \<open>
  \<^verbatim>\<open>_atomic_increment_mod\<close> (\<^verbatim>\<open>system/atomic.S\<close>): one step of a counter that wraps
  to 0 at the limit. \<open>rr_find P m n v\<close> makes at most \<open>n\<close> such steps from \<open>v\<close> and stops
  at the first value that satisfies \<open>P\<close>: the search that the lock table and the process
  table share.
\<close>

definition atomic_increment_mod :: "int \<Rightarrow> int \<Rightarrow> int" where
  "atomic_increment_mod v m = (if v + 1 \<ge> m then 0 else v + 1)"

fun rr_find :: "(int \<Rightarrow> bool) \<Rightarrow> int \<Rightarrow> nat \<Rightarrow> int \<Rightarrow> int option" where
  "rr_find P m 0 v = None"
| "rr_find P m (Suc n) v =
     (let v' = atomic_increment_mod v m in if P v' then Some v' else rr_find P m n v')"

lemma atomic_increment_mod_range:
  "0 \<le> v \<Longrightarrow> v < m \<Longrightarrow> 0 \<le> atomic_increment_mod v m \<and> atomic_increment_mod v m < m"
  by (auto simp: atomic_increment_mod_def)

lemma atomic_increment_mod_eq:
  "0 \<le> v \<Longrightarrow> v < m \<Longrightarrow> atomic_increment_mod v m = (v + 1) mod m"
  by (cases "v + 1 = m") (auto simp: atomic_increment_mod_def)

lemma rr_find_Some:
  "rr_find P m n v = Some w \<Longrightarrow> 0 \<le> v \<Longrightarrow> v < m \<Longrightarrow> P w \<and> 0 \<le> w \<and> w < m"
  by (induction P m n v rule: rr_find.induct)
    (auto simp: Let_def atomic_increment_mod_range split: if_splits)

lemma rr_find_None:
  "rr_find P m n v = None \<Longrightarrow> 0 \<le> v \<Longrightarrow> v < m \<Longrightarrow> 1 \<le> k \<Longrightarrow> k \<le> int n \<Longrightarrow> \<not> P ((v + k) mod m)"
proof (induction P m n v arbitrary: k rule: rr_find.induct)
  case (1 P m v)
  then show ?case by simp
next
  case (2 P m n v)
  let ?v' = "atomic_increment_mod v m"
  from "2.prems" have np: "\<not> P ?v'" and rest: "rr_find P m n ?v' = None"
    by (auto simp: Let_def split: if_splits)
  from "2.prems" have v': "?v' = (v + 1) mod m" and r: "0 \<le> ?v'" "?v' < m"
    by (simp_all add: atomic_increment_mod_eq atomic_increment_mod_range)
  show ?case
  proof (cases "k = 1")
    case True
    with np v' show ?thesis by simp
  next
    case False
    with "2.prems" have k: "1 \<le> k - 1" "k - 1 \<le> int n" by auto
    have "\<not> P ((?v' + (k - 1)) mod m)"
      using "2.IH"[OF refl np rest r k] .
    then show ?thesis by (simp add: v' mod_simps)
  qed
qed

text \<open>A full round visits every index, so the search fails only when there is nothing to find.\<close>

lemma rr_find_complete:
  assumes "0 \<le> v" "v < m"
  shows "rr_find P m (nat m) v = None \<longleftrightarrow> (\<forall>i. 0 \<le> i \<and> i < m \<longrightarrow> \<not> P i)"
proof
  assume none: "rr_find P m (nat m) v = None"
  show "\<forall>i. 0 \<le> i \<and> i < m \<longrightarrow> \<not> P i"
  proof (intro allI impI)
    fix i assume i: "0 \<le> i \<and> i < m"
    define k where "k = (if v < i then i - v else i - v + m)"
    have k: "1 \<le> k" "k \<le> int (nat m)" using i assms by (auto simp: k_def)
    have "(v + k) mod m = i" using i assms by (auto simp: k_def)
    with rr_find_None[OF none assms k] show "\<not> P i" by simp
  qed
next
  assume "\<forall>i. 0 \<le> i \<and> i < m \<longrightarrow> \<not> P i"
  then show "rr_find P m (nat m) v = None"
    using rr_find_Some[of P m "nat m" v] assms by (cases "rr_find P m (nat m) v") auto
qed

lemma list_update_at [simp]: "xs[nat i := at xs i] = xs"
  by simp

end
