(* ===== verification/Spinlock.thy ===== *)
theory Spinlock
  imports Xinu_Base
begin

text \<open>
  The spinlock table of \<^verbatim>\<open>system/spinlock.c\<close>: creating, freeing, acquiring and
  releasing locks (\<^verbatim>\<open>lock_create\<close>, \<^verbatim>\<open>lock_free\<close>, \<^verbatim>\<open>lock_acquire\<close>,
  \<^verbatim>\<open>lock_release\<close>, \<^verbatim>\<open>lock_alloc\<close>), and the exclusive-load/exclusive-store
  loop of \<^verbatim>\<open>system/spinlock_util.S\<close> as a step relation of several cores.

  The state record \<open>lockst\<close> is extended by the records of the components above it, so
  every lock operation is stated for an arbitrary extension.
\<close>

section \<open>The lock table\<close>

definition SPINLOCK_FREE :: u8 where "SPINLOCK_FREE = 0x01"
definition SPINLOCK_USED :: u8 where "SPINLOCK_USED = 0x02"
definition SPINLOCK_LOCKED :: u32 where "SPINLOCK_LOCKED = 0x01"
definition SPINLOCK_UNLOCKED :: u32 where "SPINLOCK_UNLOCKED = 0x00"

lemmas spinlock_consts =
  SPINLOCK_FREE_def SPINLOCK_USED_def SPINLOCK_LOCKED_def SPINLOCK_UNLOCKED_def

record lockent =
  lk_state :: u8
  lk_lock :: u32
  lk_core :: int

record lockst =
  locktab :: "lockent list"
  nextlock :: int

text \<open>\<^verbatim>\<open>isbadlock\<close>: the bound is \<open>x > NLOCK\<close>, so \<open>x = NLOCK\<close> reads past the table.\<close>

definition isbadlock :: "u32 \<Rightarrow> 'a lockst_scheme \<Rightarrow> bool option" where
  "isbadlock x s =
     (if uint x > NLOCK then Some True
      else do { e \<leftarrow> aget (locktab s) (uint x); Some (SPINLOCK_FREE = lk_state e) })"

fun lock_alloc_loop :: "nat \<Rightarrow> 'a lockst_scheme \<Rightarrow> (u32 \<times> 'a lockst_scheme) option" where
  "lock_alloc_loop 0 s = Some (SYSERRP, s)"
| "lock_alloc_loop (Suc n) s =
     (let nl = atomic_increment_mod (nextlock s) NLOCK; s1 = s\<lparr>nextlock := nl\<rparr> in
      do {
        e \<leftarrow> aget (locktab s1) nl;
        if SPINLOCK_FREE = lk_state e
        then do {
          t \<leftarrow> aset (locktab s1) nl (e\<lparr>lk_state := SPINLOCK_USED\<rparr>);
          Some (u32_of nl, s1\<lparr>locktab := t\<rparr>)
        }
        else lock_alloc_loop n s1
      })"

definition lock_alloc :: "'a lockst_scheme \<Rightarrow> (u32 \<times> 'a lockst_scheme) option" where
  "lock_alloc s = lock_alloc_loop (nat NLOCK) s"

definition lock_create :: "'a lockst_scheme \<Rightarrow> (u32 \<times> 'a lockst_scheme) option" where
  "lock_create s =
     do {
       (lock, s1) \<leftarrow> lock_alloc s;
       if SYSERRP = lock then Some (SYSERRP, s1)
       else do {
         e \<leftarrow> aget (locktab s1) (uint lock);
         t \<leftarrow> aset (locktab s1) (uint lock) (e\<lparr>lk_lock := SPINLOCK_UNLOCKED\<rparr>);
         Some (lock, s1\<lparr>locktab := t\<rparr>)
       }
     }"

definition lock_free :: "u32 \<Rightarrow> 'a lockst_scheme \<Rightarrow> (int \<times> 'a lockst_scheme) option" where
  "lock_free lock s =
     do {
       bad \<leftarrow> isbadlock lock s;
       if bad then Some (SYSERR, s)
       else do {
         e \<leftarrow> aget (locktab s) (uint lock);
         t \<leftarrow> aset (locktab s) (uint lock) (e\<lparr>lk_state := SPINLOCK_FREE\<rparr>);
         Some (OK, s\<lparr>locktab := t\<rparr>)
       }
     }"

text \<open>
  Acquiring a lock whose word is \<open>SPINLOCK_LOCKED\<close> spins until another core releases it:
  for the core that calls it alone, \<open>None\<close>.
\<close>

definition lock_acquire :: "int \<Rightarrow> u32 \<Rightarrow> 'a lockst_scheme \<Rightarrow> (int \<times> 'a lockst_scheme) option" where
  "lock_acquire cpuid lock s =
     do {
       bad \<leftarrow> isbadlock lock s;
       if bad then Some (SYSERR, s)
       else do {
         e \<leftarrow> aget (locktab s) (uint lock);
         if lk_lock e = SPINLOCK_LOCKED then None
         else do {
           t \<leftarrow> aset (locktab s) (uint lock) (e\<lparr>lk_lock := SPINLOCK_LOCKED, lk_core := cpuid\<rparr>);
           Some (OK, s\<lparr>locktab := t\<rparr>)
         }
       }
     }"

definition lock_release :: "u32 \<Rightarrow> 'a lockst_scheme \<Rightarrow> (int \<times> 'a lockst_scheme) option" where
  "lock_release lock s =
     do {
       bad \<leftarrow> isbadlock lock s;
       if bad then Some (SYSERR, s)
       else do {
         e \<leftarrow> aget (locktab s) (uint lock);
         t \<leftarrow> aset (locktab s) (uint lock) (e\<lparr>lk_core := -1, lk_lock := SPINLOCK_UNLOCKED\<rparr>);
         Some (OK, s\<lparr>locktab := t\<rparr>)
       }
     }"

text \<open>
  The shape every critical section of the kernel has: acquire, run, release on each way out.
\<close>

definition locked ::
  "int \<Rightarrow> u32 \<Rightarrow> ('a lockst_scheme \<Rightarrow> ('r \<times> 'a lockst_scheme) option) \<Rightarrow>
   'a lockst_scheme \<Rightarrow> ('r \<times> 'a lockst_scheme) option" where
  "locked cpuid lock body s =
     do {
       (_, s1) \<leftarrow> lock_acquire cpuid lock s;
       (r, s2) \<leftarrow> body s1;
       (_, s3) \<leftarrow> lock_release lock s2;
       Some (r, s3)
     }"

section \<open>Invariants of the table\<close>

definition locks_wf :: "'a lockst_scheme \<Rightarrow> bool" where
  "locks_wf s \<longleftrightarrow> length (locktab s) = nat NLOCK \<and> 0 \<le> nextlock s \<and> nextlock s < NLOCK"

text \<open>
  \<open>lock_idle l s\<close>: acquiring \<open>l\<close> in \<open>s\<close> returns at once, and releasing it afterwards puts
  the table back. Either the table rejects \<open>l\<close>, or \<open>l\<close> is in use and nobody holds it.
\<close>

definition lock_idle :: "u32 \<Rightarrow> 'a lockst_scheme \<Rightarrow> bool" where
  "lock_idle l s \<longleftrightarrow>
     uint l > NLOCK \<or>
     (inb (locktab s) (uint l) \<and>
      (lk_state (at (locktab s) (uint l)) = SPINLOCK_FREE \<or>
       (lk_lock (at (locktab s) (uint l)) = SPINLOCK_UNLOCKED \<and>
        lk_core (at (locktab s) (uint l)) = -1)))"

definition all_unlocked :: "'a lockst_scheme \<Rightarrow> bool" where
  "all_unlocked s \<longleftrightarrow>
     length (locktab s) = nat NLOCK \<and>
     (\<forall>e \<in> set (locktab s). lk_lock e = SPINLOCK_UNLOCKED \<and> lk_core e = -1)"

lemma all_unlocked_idle:
  assumes "all_unlocked s" and "uint l \<noteq> NLOCK"
  shows "lock_idle l s"
proof (cases "uint l > NLOCK")
  case True
  then show ?thesis by (simp add: lock_idle_def)
next
  case False
  with assms have "inb (locktab s) (uint l)"
    by (auto simp: all_unlocked_def inb_def NLOCK_def)
  with assms(1) at_in_set[OF this] show ?thesis
    by (auto simp: lock_idle_def all_unlocked_def)
qed

section \<open>Acquire and release as a bracket\<close>

text \<open>
  What the code above the locks relies on: an idle lock is acquired at once, only the table
  changes, and the release after a section that leaves the table alone restores it.
\<close>

locale mutex =
  fixes acq :: "int \<Rightarrow> 'l \<Rightarrow> 's \<Rightarrow> (int \<times> 's) option"
    and rel :: "'l \<Rightarrow> 's \<Rightarrow> (int \<times> 's) option"
    and tab :: "'s \<Rightarrow> 't"
    and put :: "'t \<Rightarrow> 's \<Rightarrow> 's"
    and idle :: "'l \<Rightarrow> 's \<Rightarrow> bool"
  assumes put_tab: "put (tab s) s = s"
    and tab_put: "tab (put t s) = t"
    and put_put: "put t (put u s) = put t s"
    and acquire_idle: "idle l s \<Longrightarrow> \<exists>r t. acq c l s = Some (r, put t s)"
    and release_held:
      "idle l s \<Longrightarrow> acq c l s = Some (r, s1) \<Longrightarrow> tab s2 = tab s1 \<Longrightarrow>
       \<exists>r'. rel l s2 = Some (r', put (tab s) s2)"
begin

lemma section_runs:
  assumes idle: "idle l s" and acq: "acq c l s = Some (r0, s1)"
    and run: "body s1 = Some (r, s2)" and keep: "tab s2 = tab s1"
  shows "do { (_, s1) \<leftarrow> acq c l s; (r, s2) \<leftarrow> body s1; (_, s3) \<leftarrow> rel l s2; Some (r, s3) }
         = Some (r, put (tab s) s2)"
  using release_held[OF idle acq keep] acq run by auto

text \<open>A section that neither reads nor writes the table behaves as if there were no lock.\<close>

lemma section_transparent:
  assumes idle: "idle l s"
    and indep: "\<And>t u. body (put t u) = map_option (\<lambda>(r, v). (r, put t v)) (body u)"
  shows "do { (_, s1) \<leftarrow> acq c l s; (r, s2) \<leftarrow> body s1; (_, s3) \<leftarrow> rel l s2; Some (r, s3) } = body s"
proof -
  from acquire_idle[OF idle] obtain r0 t where acq: "acq c l s = Some (r0, put t s)" by blast
  show ?thesis
  proof (cases "body s")
    case None
    then show ?thesis by (simp add: acq indep)
  next
    case (Some rs)
    obtain r v where rv: "rs = (r, v)" by (cases rs)
    have "body (put (tab s) s) = Some (r, put (tab s) v)"
      using Some rv by (simp add: indep)
    then have v: "put (tab s) v = v" using Some rv by (simp add: put_tab)
    have run: "body (put t s) = Some (r, put t v)" using Some rv by (simp add: indep)
    from section_runs[where body = body, OF idle acq run] have
      "do { (_, s1) \<leftarrow> acq c l s; (r, s2) \<leftarrow> body s1; (_, s3) \<leftarrow> rel l s2; Some (r, s3) }
       = Some (r, put (tab s) (put t v))" by (simp add: tab_put)
    also have "put (tab s) (put t v) = v" using v by (simp add: put_put)
    finally show ?thesis using Some rv by simp
  qed
qed

end

lemma isbadlock_idle:
  "lock_idle l s \<Longrightarrow> isbadlock l s =
     Some (uint l > NLOCK \<or> lk_state (at (locktab s) (uint l)) = SPINLOCK_FREE)"
  by (auto simp: lock_idle_def isbadlock_def)

definition lt_hold :: "int \<Rightarrow> u32 \<Rightarrow> lockent list \<Rightarrow> lockent list" where
  "lt_hold c l t =
     (if uint l > NLOCK \<or> lk_state (at t (uint l)) = SPINLOCK_FREE then t
      else t[nat (uint l) := (at t (uint l))\<lparr>lk_lock := SPINLOCK_LOCKED, lk_core := c\<rparr>])"

lemma lock_acquire_idle:
  "lock_idle l s \<Longrightarrow>
   lock_acquire c l s = Some (if the (isbadlock l s) then SYSERR else OK, s\<lparr>locktab := lt_hold c l (locktab s)\<rparr>)"
  by (auto simp: lock_acquire_def isbadlock_idle lt_hold_def lock_idle_def spinlock_consts)

lemma lock_release_held:
  assumes "lock_idle l s" and "locktab s2 = lt_hold c l (locktab s)"
  shows "\<exists>r. lock_release l s2 = Some (r, s2\<lparr>locktab := locktab s\<rparr>)"
proof (cases "uint l > NLOCK \<or> lk_state (at (locktab s) (uint l)) = SPINLOCK_FREE")
  case True
  with assms have "isbadlock l s2 = Some True"
    by (auto simp: isbadlock_def lock_idle_def lt_hold_def)
  moreover from True assms have "s2\<lparr>locktab := locktab s\<rparr> = s2"
    by (auto simp: lt_hold_def)
  ultimately show ?thesis by (auto simp: lock_release_def)
next
  case False
  with assms have b: "inb (locktab s) (uint l)"
    and e: "lk_lock (at (locktab s) (uint l)) = SPINLOCK_UNLOCKED" "lk_core (at (locktab s) (uint l)) = -1"
    by (auto simp: lock_idle_def)
  let ?e = "(at (locktab s) (uint l))\<lparr>lk_lock := SPINLOCK_LOCKED, lk_core := c\<rparr>"
  from False assms(2) have t: "locktab s2 = (locktab s)[nat (uint l) := ?e]"
    by (simp add: lt_hold_def)
  have "isbadlock l s2 = Some False"
    using False b by (auto simp: isbadlock_def t)
  moreover have "?e\<lparr>lk_core := -1, lk_lock := SPINLOCK_UNLOCKED\<rparr> = at (locktab s) (uint l)"
    using e by simp
  ultimately show ?thesis
    using b by (auto simp: lock_release_def t)
qed

interpretation lk: mutex lock_acquire lock_release locktab "\<lambda>t s. s\<lparr>locktab := t\<rparr>" lock_idle
proof unfold_locales
  fix l :: u32 and s s1 s2 :: "'a lockst_scheme" and c r
  assume "lock_idle l s" and "lock_acquire c l s = Some (r, s1)" and "locktab s2 = locktab s1"
  then show "\<exists>r'. lock_release l s2 = Some (r', s2\<lparr>locktab := locktab s\<rparr>)"
    using lock_release_held[of l s s2 c] by (simp add: lock_acquire_idle) force
qed (auto simp: lock_acquire_idle)

lemmas locked_transparent = lk.section_transparent [folded locked_def]

lemma locked_runs:
  assumes "lock_idle l s" and "body (s\<lparr>locktab := lt_hold c l (locktab s)\<rparr>) = Some (r, s2)"
    and "locktab s2 = lt_hold c l (locktab s)"
  shows "locked c l body s = Some (r, s2\<lparr>locktab := locktab s\<rparr>)"
  unfolding locked_def
  by (rule lk.section_runs[where body = body, OF assms(1) lock_acquire_idle[OF assms(1)] assms(2)])
    (simp add: assms(3))

lemma lt_hold_length [simp]: "length (lt_hold c l t) = length t"
  by (simp add: lt_hold_def)

text \<open>Holding one lock leaves every other lock idle.\<close>

lemma lock_idle_hold:
  assumes "lock_idle k s" and "k \<noteq> l"
  shows "lock_idle k (s\<lparr>locktab := lt_hold c l (locktab s)\<rparr>)"
proof -
  have "unat l \<noteq> unat k" using assms(2) by (metis word_unat_eq_iff)
  then have "at (lt_hold c l (locktab s)) (uint k) = at (locktab s) (uint k)"
    by (simp add: lt_hold_def)
  with assms(1) show ?thesis by (auto simp: lock_idle_def inb_def)
qed

section \<open>Creating and freeing locks\<close>

abbreviation lock_is_free :: "'a lockst_scheme \<Rightarrow> int \<Rightarrow> bool" where
  "lock_is_free s i \<equiv> lk_state (at (locktab s) i) = SPINLOCK_FREE"

lemma locks_wf_inb: "locks_wf s \<Longrightarrow> 0 \<le> i \<Longrightarrow> i < NLOCK \<Longrightarrow> inb (locktab s) i"
  by (auto simp: locks_wf_def inb_def NLOCK_def)

lemma lock_alloc_loop_found:
  assumes "locks_wf s" and "rr_find (lock_is_free s) NLOCK n (nextlock s) = Some w"
  shows "lock_alloc_loop n s =
     Some (u32_of w, s\<lparr>nextlock := w,
       locktab := (locktab s)[nat w := (at (locktab s) w)\<lparr>lk_state := SPINLOCK_USED\<rparr>]\<rparr>)"
  using assms
proof (induction n arbitrary: s)
  case 0
  then show ?case by simp
next
  case (Suc n)
  let ?nl = "atomic_increment_mod (nextlock s) NLOCK"
  from Suc.prems(1) have r: "0 \<le> ?nl" "?nl < NLOCK"
    by (auto simp: locks_wf_def atomic_increment_mod_range)
  with Suc.prems(1) have b: "inb (locktab s) ?nl" by (simp add: locks_wf_inb)
  have wf: "locks_wf (s\<lparr>nextlock := ?nl\<rparr>)" using Suc.prems(1) r by (simp add: locks_wf_def)
  show ?case
  proof (cases "lock_is_free s ?nl")
    case True
    with Suc.prems(2) b show ?thesis by (auto simp: Let_def)
  next
    case False
    with Suc.prems(2) have "rr_find (lock_is_free s) NLOCK n ?nl = Some w" by (simp add: Let_def)
    with Suc.IH[OF wf] have
      "lock_alloc_loop n (s\<lparr>nextlock := ?nl\<rparr>) = Some (u32_of w, s\<lparr>nextlock := w,
         locktab := (locktab s)[nat w := (at (locktab s) w)\<lparr>lk_state := SPINLOCK_USED\<rparr>]\<rparr>)"
      by simp
    with False b show ?thesis by (auto simp: Let_def)
  qed
qed

lemma lock_alloc_loop_full:
  assumes "locks_wf s" and "rr_find (lock_is_free s) NLOCK n (nextlock s) = None"
  shows "\<exists>nl. 0 \<le> nl \<and> nl < NLOCK \<and> lock_alloc_loop n s = Some (SYSERRP, s\<lparr>nextlock := nl\<rparr>)"
  using assms
proof (induction n arbitrary: s)
  case 0
  then show ?case by (intro exI[of _ "nextlock s"]) (simp add: locks_wf_def)
next
  case (Suc n)
  let ?nl = "atomic_increment_mod (nextlock s) NLOCK"
  from Suc.prems(1) have r: "0 \<le> ?nl" "?nl < NLOCK"
    by (auto simp: locks_wf_def atomic_increment_mod_range)
  with Suc.prems(1) have b: "inb (locktab s) ?nl" by (simp add: locks_wf_inb)
  have wf: "locks_wf (s\<lparr>nextlock := ?nl\<rparr>)" using Suc.prems(1) r by (simp add: locks_wf_def)
  from Suc.prems(2) have nf: "\<not> lock_is_free s ?nl"
    and "rr_find (lock_is_free s) NLOCK n ?nl = None" by (auto simp: Let_def split: if_splits)
  with Suc.IH[OF wf] obtain nl where "0 \<le> nl" "nl < NLOCK"
    "lock_alloc_loop n (s\<lparr>nextlock := ?nl\<rparr>) = Some (SYSERRP, s\<lparr>nextlock := nl\<rparr>)" by auto
  with nf b show ?case by (auto simp: Let_def)
qed

lemma uint_u32_of_lock [simp]: "0 \<le> w \<Longrightarrow> w < NLOCK \<Longrightarrow> uint (u32_of w) = w"
  by (simp add: u32_of_def NLOCK_def uint_word_of_int)

lemma u32_of_lock_neq: "0 \<le> w \<Longrightarrow> w < NLOCK \<Longrightarrow> u32_of w \<noteq> SYSERRP"
proof
  assume "0 \<le> w" "w < NLOCK" and eq: "u32_of w = SYSERRP"
  then have "uint SYSERRP < NLOCK" using uint_u32_of_lock[of w] by simp
  then show False by (simp add: SYSERRP_eq NLOCK_def)
qed

lemma lock_create_found:
  assumes wf: "locks_wf s" and free: "0 \<le> i" "i < NLOCK" "lock_is_free s i"
  obtains w where "0 \<le> w" "w < NLOCK" "lock_is_free s w"
    "lock_create s = Some (u32_of w, s\<lparr>nextlock := w, locktab := (locktab s)[nat w :=
       (at (locktab s) w)\<lparr>lk_state := SPINLOCK_USED, lk_lock := SPINLOCK_UNLOCKED\<rparr>]\<rparr>)"
proof -
  have nl: "0 \<le> nextlock s" "nextlock s < NLOCK" using wf by (auto simp: locks_wf_def)
  obtain w where w: "rr_find (lock_is_free s) NLOCK (nat NLOCK) (nextlock s) = Some w"
    using rr_find_complete[OF nl, of "lock_is_free s"] free by (metis not_None_eq)
  from rr_find_Some[OF this nl] have rw: "lock_is_free s w" "0 \<le> w" "w < NLOCK" by auto
  have b: "inb (locktab s) w" using wf rw by (simp add: locks_wf_inb)
  have "lock_create s = Some (u32_of w, s\<lparr>nextlock := w, locktab := (locktab s)[nat w :=
       (at (locktab s) w)\<lparr>lk_state := SPINLOCK_USED, lk_lock := SPINLOCK_UNLOCKED\<rparr>]\<rparr>)"
    using b rw u32_of_lock_neq[of w] lock_alloc_loop_found[OF wf w]
    by (auto simp: lock_create_def lock_alloc_def)
  with rw show thesis using that by blast
qed

lemma lock_create_full:
  assumes wf: "locks_wf s" and full: "\<And>i. 0 \<le> i \<Longrightarrow> i < NLOCK \<Longrightarrow> \<not> lock_is_free s i"
  shows "\<exists>nl. 0 \<le> nl \<and> nl < NLOCK \<and> lock_create s = Some (SYSERRP, s\<lparr>nextlock := nl\<rparr>)"
proof -
  have nl: "0 \<le> nextlock s" "nextlock s < NLOCK" using wf by (auto simp: locks_wf_def)
  have "rr_find (lock_is_free s) NLOCK (nat NLOCK) (nextlock s) = None"
    using rr_find_complete[OF nl] full by blast
  from lock_alloc_loop_full[OF wf this] show ?thesis
    by (auto simp: lock_create_def lock_alloc_def)
qed

section \<open>The acquire loop under interleaving\<close>

text \<open>
  \<^verbatim>\<open>_lock_acquire\<close> and \<^verbatim>\<open>_lock_release\<close> of \<^verbatim>\<open>system/spinlock_util.S\<close>, one
  instruction per step, on any number of cores. \<open>sl_mon c\<close> is the exclusive monitor that
  \<^verbatim>\<open>ldrex\<close> sets: a store to the lock word by any core clears it, the hardware may clear
  it at any time, and \<^verbatim>\<open>strex\<close> stores only when it is still set.
\<close>

datatype lock_pc =
    Outside
  | At_ldrex
  | At_cmp u32
  | At_strex
  | Inside

record lock_sys =
  sl_word :: u32
  sl_pc :: "nat \<Rightarrow> lock_pc"
  sl_mon :: "nat \<Rightarrow> bool"

definition lock_sys_init :: lock_sys where
  "lock_sys_init = \<lparr>sl_word = SPINLOCK_UNLOCKED, sl_pc = (\<lambda>_. Outside), sl_mon = (\<lambda>_. False)\<rparr>"

inductive lock_step :: "lock_sys \<Rightarrow> lock_sys \<Rightarrow> bool" where
  call: "sl_pc s c = Outside \<Longrightarrow> lock_step s (s\<lparr>sl_pc := (sl_pc s)(c := At_ldrex)\<rparr>)"
| ldrex: "sl_pc s c = At_ldrex \<Longrightarrow>
    lock_step s (s\<lparr>sl_pc := (sl_pc s)(c := At_cmp (sl_word s)), sl_mon := (sl_mon s)(c := True)\<rparr>)"
| beq_retry: "sl_pc s c = At_cmp v \<Longrightarrow> v = SPINLOCK_LOCKED \<Longrightarrow>
    lock_step s (s\<lparr>sl_pc := (sl_pc s)(c := At_ldrex)\<rparr>)"
| beq_pass: "sl_pc s c = At_cmp v \<Longrightarrow> v \<noteq> SPINLOCK_LOCKED \<Longrightarrow>
    lock_step s (s\<lparr>sl_pc := (sl_pc s)(c := At_strex)\<rparr>)"
| strex_ok: "sl_pc s c = At_strex \<Longrightarrow> sl_mon s c \<Longrightarrow>
    lock_step s (s\<lparr>sl_word := SPINLOCK_LOCKED, sl_pc := (sl_pc s)(c := Inside), sl_mon := (\<lambda>_. False)\<rparr>)"
| strex_fail: "sl_pc s c = At_strex \<Longrightarrow> \<not> sl_mon s c \<Longrightarrow>
    lock_step s (s\<lparr>sl_pc := (sl_pc s)(c := At_ldrex)\<rparr>)"
| release: "sl_pc s c = Inside \<Longrightarrow>
    lock_step s (s\<lparr>sl_word := SPINLOCK_UNLOCKED, sl_pc := (sl_pc s)(c := Outside), sl_mon := (\<lambda>_. False)\<rparr>)"
| mon_lost: "lock_step s (s\<lparr>sl_mon := (sl_mon s)(c := False)\<rparr>)"

inductive lock_reach :: "lock_sys \<Rightarrow> bool" where
  init: "lock_reach lock_sys_init"
| step: "lock_reach s \<Longrightarrow> lock_step s t \<Longrightarrow> lock_reach t"

text \<open>
  What makes mutual exclusion inductive: the word is locked exactly while somebody is inside,
  and a core whose monitor survives since its load still sees the value it loaded.
\<close>

definition lock_holder :: "lock_sys \<Rightarrow> nat option \<Rightarrow> bool" where
  "lock_holder s h \<longleftrightarrow>
     (\<forall>c. sl_pc s c = Inside \<longleftrightarrow> h = Some c) \<and>
     sl_word s = (if h = None then SPINLOCK_UNLOCKED else SPINLOCK_LOCKED)"

definition lock_mon_ok :: "lock_sys \<Rightarrow> bool" where
  "lock_mon_ok s \<longleftrightarrow>
     (\<forall>c v. sl_pc s c = At_cmp v \<and> sl_mon s c \<longrightarrow> sl_word s = v) \<and>
     (\<forall>c. sl_pc s c = At_strex \<and> sl_mon s c \<longrightarrow> sl_word s \<noteq> SPINLOCK_LOCKED)"

definition lock_sys_inv :: "lock_sys \<Rightarrow> bool" where
  "lock_sys_inv s \<longleftrightarrow> (\<exists>h. lock_holder s h) \<and> lock_mon_ok s"

lemma lock_sys_inv_init: "lock_sys_inv lock_sys_init"
  unfolding lock_sys_inv_def
  by (intro conjI exI[of _ None]) (simp_all add: lock_holder_def lock_mon_ok_def lock_sys_init_def)

lemma lock_holder_unlocked:
  "lock_holder s h \<Longrightarrow> sl_word s \<noteq> SPINLOCK_LOCKED \<Longrightarrow> h = None"
  by (simp add: lock_holder_def split: if_splits)

text \<open>A step that moves one core between points outside of the critical section.\<close>

lemma lock_holder_move:
  "lock_holder s h \<Longrightarrow> sl_pc s c \<noteq> Inside \<Longrightarrow> p \<noteq> Inside \<Longrightarrow>
   lock_holder (s\<lparr>sl_pc := (sl_pc s)(c := p), sl_mon := m\<rparr>) h"
  by (simp add: lock_holder_def)

lemma lock_sys_inv_move:
  assumes "lock_sys_inv s" and "sl_pc s c \<noteq> Inside" and "p \<noteq> Inside"
    and "lock_mon_ok (s\<lparr>sl_pc := (sl_pc s)(c := p), sl_mon := m\<rparr>)"
  shows "lock_sys_inv (s\<lparr>sl_pc := (sl_pc s)(c := p), sl_mon := m\<rparr>)"
  using assms lock_holder_move unfolding lock_sys_inv_def by metis

lemma lock_step_inv: "lock_step s t \<Longrightarrow> lock_sys_inv s \<Longrightarrow> lock_sys_inv t"
proof (induction rule: lock_step.induct)
  case (call s c)
  then have "lock_mon_ok (s\<lparr>sl_pc := (sl_pc s)(c := At_ldrex), sl_mon := sl_mon s\<rparr>)"
    by (auto simp: lock_sys_inv_def lock_mon_ok_def)
  with call show ?case using lock_sys_inv_move[of s c At_ldrex "sl_mon s"] by simp
next
  case (ldrex s c)
  then have "lock_mon_ok (s\<lparr>sl_pc := (sl_pc s)(c := At_cmp (sl_word s)), sl_mon := (sl_mon s)(c := True)\<rparr>)"
    by (auto simp: lock_sys_inv_def lock_mon_ok_def)
  with ldrex show ?case
    using lock_sys_inv_move[of s c "At_cmp (sl_word s)" "(sl_mon s)(c := True)"] by simp
next
  case (beq_retry s c v)
  then have "lock_mon_ok (s\<lparr>sl_pc := (sl_pc s)(c := At_ldrex), sl_mon := sl_mon s\<rparr>)"
    by (auto simp: lock_sys_inv_def lock_mon_ok_def)
  with beq_retry show ?case using lock_sys_inv_move[of s c At_ldrex "sl_mon s"] by simp
next
  case (beq_pass s c v)
  then have "lock_mon_ok (s\<lparr>sl_pc := (sl_pc s)(c := At_strex), sl_mon := sl_mon s\<rparr>)"
    by (auto simp: lock_sys_inv_def lock_mon_ok_def)
  with beq_pass show ?case using lock_sys_inv_move[of s c At_strex "sl_mon s"] by simp
next
  case (strex_ok s c)
  then obtain h where h: "lock_holder s h" and "sl_word s \<noteq> SPINLOCK_LOCKED"
    by (auto simp: lock_sys_inv_def lock_mon_ok_def)
  then have "h = None" using lock_holder_unlocked by blast
  with h have "\<forall>d. sl_pc s d \<noteq> Inside" by (simp add: lock_holder_def)
  then show ?case unfolding lock_sys_inv_def
    by (intro conjI exI[of _ "Some c"]) (auto simp: lock_holder_def lock_mon_ok_def)
next
  case (strex_fail s c)
  then have "lock_mon_ok (s\<lparr>sl_pc := (sl_pc s)(c := At_ldrex), sl_mon := sl_mon s\<rparr>)"
    by (auto simp: lock_sys_inv_def lock_mon_ok_def)
  with strex_fail show ?case using lock_sys_inv_move[of s c At_ldrex "sl_mon s"] by simp
next
  case (release s c)
  then have "\<forall>d. sl_pc s d = Inside \<longrightarrow> d = c"
    by (auto simp: lock_sys_inv_def lock_holder_def)
  then show ?case unfolding lock_sys_inv_def
    by (intro conjI exI[of _ None]) (auto simp: lock_holder_def lock_mon_ok_def)
next
  case (mon_lost s c)
  then show ?case
    by (auto simp: lock_sys_inv_def lock_holder_def lock_mon_ok_def)
qed

lemma lock_reach_inv: "lock_reach s \<Longrightarrow> lock_sys_inv s"
  by (induction rule: lock_reach.induct) (auto intro: lock_sys_inv_init lock_step_inv)

section \<open>Properties of the spinlocks\<close>

text \<open>
  C12. Mutual exclusion of the spinlock loop: in every state that any number of cores can reach
  by interleaving the instructions of \<^verbatim>\<open>_lock_acquire\<close> and \<^verbatim>\<open>_lock_release\<close>, at most
  one core is between the two, and the lock word is locked exactly while one is.
\<close>

theorem lock_mutual_exclusion:
  assumes "lock_reach s"
  shows "(sl_pc s c = Inside \<and> sl_pc s d = Inside \<longrightarrow> c = d) \<and>
    (sl_word s = SPINLOCK_LOCKED \<longleftrightarrow> (\<exists>c. sl_pc s c = Inside))"
  using lock_reach_inv[OF assms]
  by (auto simp: lock_sys_inv_def lock_holder_def spinlock_consts split: if_splits)

text \<open>A run of one core into its critical section.\<close>

lemma lock_enter_alone:
  assumes "sl_pc s c = At_ldrex" and "sl_word s \<noteq> SPINLOCK_LOCKED"
  shows "lock_step\<^sup>*\<^sup>* s (s\<lparr>sl_word := SPINLOCK_LOCKED, sl_pc := (sl_pc s)(c := Inside), sl_mon := (\<lambda>_. False)\<rparr>)"
proof -
  let ?s1 = "s\<lparr>sl_pc := (sl_pc s)(c := At_cmp (sl_word s)), sl_mon := (sl_mon s)(c := True)\<rparr>"
  let ?s2 = "?s1\<lparr>sl_pc := (sl_pc ?s1)(c := At_strex)\<rparr>"
  have "lock_step s ?s1" by (rule lock_step.ldrex[OF assms(1)])
  moreover have "lock_step ?s1 ?s2" using assms(2) by (intro lock_step.beq_pass) auto
  moreover have "lock_step ?s2 (?s2\<lparr>sl_word := SPINLOCK_LOCKED, sl_pc := (sl_pc ?s2)(c := Inside), sl_mon := (\<lambda>_. False)\<rparr>)"
    by (rule lock_step.strex_ok) simp_all
  ultimately have "lock_step\<^sup>*\<^sup>* s (?s2\<lparr>sl_word := SPINLOCK_LOCKED, sl_pc := (sl_pc ?s2)(c := Inside), sl_mon := (\<lambda>_. False)\<rparr>)"
    by (meson converse_rtranclp_into_rtranclp rtranclp.rtrancl_refl)
  then show ?thesis by simp
qed

lemma lock_reach_steps: "lock_step\<^sup>*\<^sup>* s t \<Longrightarrow> lock_reach s \<Longrightarrow> lock_reach t"
  by (induction rule: rtranclp_induct) (auto intro: lock_reach.step)

lemma lock_enter_strex:
  assumes "sl_pc s c = At_strex" and "sl_word s \<noteq> SPINLOCK_LOCKED"
  shows "\<exists>t. lock_step\<^sup>*\<^sup>* s t \<and> sl_pc t c = Inside"
proof (cases "sl_mon s c")
  case True
  from lock_step.strex_ok[OF assms(1) this] show ?thesis by (intro exI conjI r_into_rtranclp) auto
next
  case False
  let ?t = "s\<lparr>sl_pc := (sl_pc s)(c := At_ldrex)\<rparr>"
  have "lock_step s ?t" using lock_step.strex_fail[OF assms(1) False] .
  moreover have "\<exists>u. lock_step\<^sup>*\<^sup>* ?t u \<and> sl_pc u c = Inside"
    using lock_enter_alone[of ?t c] assms(2) by fastforce
  ultimately show ?thesis by (meson converse_rtranclp_into_rtranclp)
qed

lemma lock_enter_cmp:
  assumes "sl_pc s c = At_cmp v" and "sl_word s \<noteq> SPINLOCK_LOCKED"
  shows "\<exists>t. lock_step\<^sup>*\<^sup>* s t \<and> sl_pc t c = Inside"
proof (cases "v = SPINLOCK_LOCKED")
  case True
  let ?t = "s\<lparr>sl_pc := (sl_pc s)(c := At_ldrex)\<rparr>"
  have "lock_step s ?t" using lock_step.beq_retry[OF assms(1) True] .
  moreover have "\<exists>u. lock_step\<^sup>*\<^sup>* ?t u \<and> sl_pc u c = Inside"
    using lock_enter_alone[of ?t c] assms(2) by fastforce
  ultimately show ?thesis by (meson converse_rtranclp_into_rtranclp)
next
  case False
  let ?t = "s\<lparr>sl_pc := (sl_pc s)(c := At_strex)\<rparr>"
  have "lock_step s ?t" using lock_step.beq_pass[OF assms(1) False] .
  moreover have "\<exists>u. lock_step\<^sup>*\<^sup>* ?t u \<and> sl_pc u c = Inside"
    using assms(2) by (intro lock_enter_strex) simp_all
  ultimately show ?thesis by (meson converse_rtranclp_into_rtranclp)
qed

text \<open>
  C18. Nobody is locked out: in every reachable state in which no core is inside, a core that
  has called \<^verbatim>\<open>_lock_acquire\<close> can enter, wherever it stands in the retry loop.
\<close>

theorem lock_can_enter:
  assumes "lock_reach s" and "\<forall>d. sl_pc s d \<noteq> Inside" and "sl_pc s c \<noteq> Outside"
  shows "\<exists>t. lock_step\<^sup>*\<^sup>* s t \<and> sl_pc t c = Inside"
proof -
  have w: "sl_word s \<noteq> SPINLOCK_LOCKED"
    using lock_reach_inv[OF assms(1)] assms(2) by (auto simp: lock_sys_inv_def lock_holder_def spinlock_consts)
  show ?thesis
  proof (cases "sl_pc s c")
    case At_ldrex
    from lock_enter_alone[OF this w] show ?thesis by fastforce
  next
    case (At_cmp v)
    then show ?thesis using w by (rule lock_enter_cmp)
  next
    case At_strex
    then show ?thesis using w by (rule lock_enter_strex)
  qed (use assms in auto)
qed

text \<open>A run of the step relation for the witnesses: core 0 enters, core 1 waits at its load.\<close>

definition lock_sys_ex :: lock_sys where
  "lock_sys_ex = \<lparr>sl_word = SPINLOCK_LOCKED, sl_pc = (\<lambda>_. Outside)(0 := Inside, 1 := At_ldrex), sl_mon = (\<lambda>_. False)\<rparr>"

lemma lock_reach_waiting:
  "lock_reach (lock_sys_init\<lparr>sl_pc := (\<lambda>_. Outside)(0 := At_ldrex, 1 := At_ldrex)\<rparr>)"
proof -
  have "lock_reach (lock_sys_init\<lparr>sl_pc := (sl_pc lock_sys_init)(0 := At_ldrex)\<rparr>)"
    by (intro lock_reach.step[OF lock_reach.init] lock_step.call) (simp add: lock_sys_init_def)
  then have "lock_reach (lock_sys_init\<lparr>sl_pc := ((sl_pc lock_sys_init)(0 := At_ldrex))(1 := At_ldrex)\<rparr>)"
    by (rule lock_reach.step) (use lock_step.call[of "lock_sys_init\<lparr>sl_pc := (sl_pc lock_sys_init)(0 := At_ldrex)\<rparr>" 1]
        in \<open>simp add: lock_sys_init_def\<close>)
  then show ?thesis by (simp add: lock_sys_init_def)
qed

lemma lock_reach_ex: "lock_reach lock_sys_ex"
proof -
  let ?s = "lock_sys_init\<lparr>sl_pc := (\<lambda>_. Outside)(0 := At_ldrex, 1 := At_ldrex)\<rparr>"
  have "lock_step\<^sup>*\<^sup>* ?s (?s\<lparr>sl_word := SPINLOCK_LOCKED, sl_pc := (sl_pc ?s)(0 := Inside), sl_mon := (\<lambda>_. False)\<rparr>)"
    by (rule lock_enter_alone) (simp_all add: lock_sys_init_def spinlock_consts)
  from lock_reach_steps[OF this lock_reach_waiting] show ?thesis
    by (simp add: lock_sys_ex_def lock_sys_init_def fun_upd_twist)
qed

theorem lock_mutual_exclusion_witness:
  "lock_reach lock_sys_ex \<and> sl_pc lock_sys_ex 0 = Inside \<and> sl_word lock_sys_ex = SPINLOCK_LOCKED \<and> sl_pc lock_sys_ex 1 \<noteq> Inside"
  using lock_mutual_exclusion[OF lock_reach_ex, of 0 1] lock_reach_ex by (auto simp: lock_sys_ex_def)

theorem lock_can_enter_witness:
  "\<exists>t. lock_step\<^sup>*\<^sup>* (lock_sys_init\<lparr>sl_pc := (\<lambda>_. Outside)(0 := At_ldrex, 1 := At_ldrex)\<rparr>) t \<and> sl_pc t 1 = Inside"
  by (rule lock_can_enter[OF lock_reach_waiting]) simp_all

text \<open>
  C17. \<^verbatim>\<open>lock_create\<close>: on a table with a free entry it returns the index of one, marked used
  and unlocked, every other entry unchanged; on a full table it returns \<open>SYSERR\<close> and leaves
  the table as it was.
\<close>

theorem lock_create_spec:
  assumes "locks_wf s"
  shows "(\<exists>w t. lock_create s = Some (u32_of w, t) \<and> 0 \<le> w \<and> w < NLOCK \<and> lock_is_free s w \<and> locks_wf t \<and>
       locktab t = (locktab s)[nat w := (at (locktab s) w)\<lparr>lk_state := SPINLOCK_USED, lk_lock := SPINLOCK_UNLOCKED\<rparr>]) \<or>
     (\<forall>i. 0 \<le> i \<and> i < NLOCK \<longrightarrow> \<not> lock_is_free s i) \<and>
       (\<exists>t. lock_create s = Some (SYSERRP, t) \<and> locks_wf t \<and> locktab t = locktab s)"
proof (cases "\<exists>i. 0 \<le> i \<and> i < NLOCK \<and> lock_is_free s i")
  case True
  then obtain i where "0 \<le> i" "i < NLOCK" "lock_is_free s i" by blast
  from lock_create_found[OF assms this] obtain w where "0 \<le> w" "w < NLOCK" "lock_is_free s w"
    "lock_create s = Some (u32_of w, s\<lparr>nextlock := w, locktab := (locktab s)[nat w :=
       (at (locktab s) w)\<lparr>lk_state := SPINLOCK_USED, lk_lock := SPINLOCK_UNLOCKED\<rparr>]\<rparr>)" by blast
  with assms show ?thesis by (intro disjI1) (auto simp: locks_wf_def)
next
  case False
  then have full: "\<And>i. 0 \<le> i \<Longrightarrow> i < NLOCK \<Longrightarrow> \<not> lock_is_free s i" by blast
  from lock_create_full[OF assms this] obtain nl where "0 \<le> nl" "nl < NLOCK"
    "lock_create s = Some (SYSERRP, s\<lparr>nextlock := nl\<rparr>)" by auto
  with assms full show ?thesis by (intro disjI2) (auto simp: locks_wf_def)
qed

definition lockst_ex :: lockst where
  "lockst_ex = \<lparr>locktab = replicate 150 \<lparr>lk_state = SPINLOCK_FREE, lk_lock = SPINLOCK_UNLOCKED, lk_core = -1\<rparr>, nextlock = 0\<rparr>"

lemma lockst_ex_wf: "locks_wf lockst_ex" "length (locktab lockst_ex) = 150"
  by (simp_all add: lockst_ex_def locks_wf_def NLOCK_def)

theorem lock_create_spec_witness:
  "locks_wf lockst_ex \<and> (\<exists>w t. lock_create lockst_ex = Some (u32_of w, t) \<and> 0 \<le> w \<and> w < NLOCK)"
proof -
  have "lock_is_free lockst_ex 5" by (simp add: lockst_ex_def)
  moreover have "0 \<le> (5::int) \<and> 5 < NLOCK" by (simp add: NLOCK_def)
  ultimately show ?thesis using lock_create_spec[OF lockst_ex_wf(1)] lockst_ex_wf(1) by blast
qed

end
