(* ===== verification/Heap_Memory.thy ===== *)
theory Heap_Memory
  imports Spinlock
begin

text \<open>
  The kernel heap: \<^verbatim>\<open>getmem\<close> (\<^verbatim>\<open>system/getmem.c\<close>), \<^verbatim>\<open>freemem\<close>
  (\<^verbatim>\<open>system/freemem.c\<close>), \<^verbatim>\<open>malloc\<close> and \<^verbatim>\<open>free\<close>
  (\<^verbatim>\<open>system/malloc.c\<close>, \<^verbatim>\<open>system/free.c\<close>) over the structures of
  \<^verbatim>\<open>include/memory.h\<close>. Memory is a function from word addresses to words, so the free
  list is a real linked list inside the memory it describes. The link from a list head is
  the field \<open>mh_head\<close>, because the code treats \<^verbatim>\<open>&freelist[n]\<close> as a
  \<^verbatim>\<open>memblk\<close> whose first field is \<open>next\<close>.

  \<open>flist_ok s c bs\<close> relates the state to the list \<open>bs\<close> of free blocks of core \<open>c\<close>:
  sorted, 8-aligned, inside the core's region and never adjacent (always coalesced).
\<close>

section \<open>Memory blocks and list heads\<close>

record memhead =
  mh_head :: u32
  mh_length :: u32
  mh_base :: u32
  mh_bound :: u32
  mh_lock :: u32

record memst = lockst +
  mem :: "u32 \<Rightarrow> u32"
  freelist :: "memhead list"
  memheap :: u32
  maxaddr :: u32

text \<open>A block at address \<open>a\<close> has its fields \<open>next\<close> at \<open>a\<close>, \<open>length\<close> at \<open>a + 4\<close> and the
  byte \<open>marked\<close> at \<open>a + 8\<close>; \<^verbatim>\<open>sizeof(struct memblock)\<close> is 12.\<close>

definition sizeof_memblock :: u32 where "sizeof_memblock = 12"

definition roundmb :: "u32 \<Rightarrow> u32" where
  "roundmb x = (7 + x) AND NOT 0x07"

definition truncmb :: "u32 \<Rightarrow> u32" where
  "truncmb x = x AND NOT 0x07"

datatype link = Link_head int | Link_blk u32

fun set_next :: "link \<Rightarrow> u32 \<Rightarrow> 'a memst_scheme \<Rightarrow> 'a memst_scheme option" where
  "set_next (Link_head n) v s =
     do { h \<leftarrow> aget (freelist s) n;
          t \<leftarrow> aset (freelist s) n (h\<lparr>mh_head := v\<rparr>);
          Some (s\<lparr>freelist := t\<rparr>) }"
| "set_next (Link_blk a) v s = Some (s\<lparr>mem := (mem s)(a := v)\<rparr>)"

definition add_length :: "int \<Rightarrow> u32 \<Rightarrow> 'a memst_scheme \<Rightarrow> 'a memst_scheme option" where
  "add_length n k s =
     do { h \<leftarrow> aget (freelist s) n;
          t \<leftarrow> aset (freelist s) n (h\<lparr>mh_length := mh_length h + k\<rparr>);
          Some (s\<lparr>freelist := t\<rparr>) }"

section \<open>getmem\<close>

partial_function (option) getmem_loop ::
  "int \<Rightarrow> u32 \<Rightarrow> link \<Rightarrow> u32 \<Rightarrow> 'a memst_scheme \<Rightarrow> (u32 \<times> 'a memst_scheme) option" where
  "getmem_loop cpuid nbytes prev cur s =
     (if cur = 0 then Some (SYSERRP, s)
      else if mem s (cur + 4) = nbytes
      then do {
        s1 \<leftarrow> set_next prev (mem s cur) s;
        s2 \<leftarrow> add_length cpuid (- nbytes) s1;
        Some (cur, s2)
      }
      else if mem s (cur + 4) > nbytes
      then do {
        s1 \<leftarrow> set_next prev (cur + nbytes) s;
        let s2 = s1\<lparr>mem := (mem s1)(cur + nbytes := mem s1 cur)\<rparr>;
        let s3 = s2\<lparr>mem := (mem s2)(cur + nbytes + 4 := mem s2 (cur + 4) - nbytes)\<rparr>;
        s4 \<leftarrow> add_length cpuid (- nbytes) s3;
        Some (cur, s4)
      }
      else getmem_loop cpuid nbytes (Link_blk cur) (mem s cur) s)"

definition getmem :: "int \<Rightarrow> u32 \<Rightarrow> 'a memst_scheme \<Rightarrow> (u32 \<times> 'a memst_scheme) option" where
  "getmem cpuid nbytes s =
     (if nbytes = 0 then Some (SYSERRP, s)
      else do {
        h \<leftarrow> aget (freelist s) cpuid;
        locked cpuid (mh_lock h)
          (\<lambda>s. do { h \<leftarrow> aget (freelist s) cpuid;
                    getmem_loop cpuid (roundmb nbytes) (Link_head cpuid) (mh_head h) s }) s
      })"

section \<open>freemem\<close>

text \<open>The scan for the list whose region holds the pointer; \<open>NCORES\<close> when none does.\<close>

fun which_freelist :: "nat \<Rightarrow> int \<Rightarrow> u32 \<Rightarrow> 'a memst_scheme \<Rightarrow> int option" where
  "which_freelist 0 n memptr s = Some n"
| "which_freelist (Suc k) n memptr s =
     do { h \<leftarrow> aget (freelist s) n;
          if memptr \<ge> mh_base h \<and> memptr < mh_base h + mh_bound h then Some n
          else which_freelist k (n + 1) memptr s }"

partial_function (option) freemem_seek ::
  "u32 \<Rightarrow> link \<Rightarrow> u32 \<Rightarrow> (u32 \<Rightarrow> u32) \<Rightarrow> (link \<times> u32) option" where
  "freemem_seek block prev next m =
     (if next \<noteq> 0 \<and> next < block then freemem_seek block (Link_blk next) (m next) m
      else Some (prev, next))"

text \<open>
  The critical section of \<^verbatim>\<open>freemem\<close>. \<open>ptop = block\<close> with \<open>prev\<close> the list head would mean
  that the block is the null pointer, which the caller has excluded: no value is given.
\<close>

definition freemem_coalesce_prev ::
  "u32 \<Rightarrow> u32 \<Rightarrow> link \<Rightarrow> u32 \<Rightarrow> u32 \<Rightarrow> 'a memst_scheme \<Rightarrow> (u32 \<times> 'a memst_scheme) option" where
  "freemem_coalesce_prev block nbytes prev next ptop s =
     (if ptop = block
      then (case prev of
              Link_head n \<Rightarrow> None
            | Link_blk p \<Rightarrow> Some (p, s\<lparr>mem := (mem s)(p + 4 := mem s (p + 4) + nbytes)\<rparr>))
      else do {
        let s1 = s\<lparr>mem := (mem s)(block := next)\<rparr>;
        let s2 = s1\<lparr>mem := (mem s1)(block + 4 := nbytes)\<rparr>;
        s3 \<leftarrow> set_next prev block s2;
        Some (block, s3)
      })"

definition freemem_coalesce_next :: "u32 \<Rightarrow> u32 \<Rightarrow> 'a memst_scheme \<Rightarrow> 'a memst_scheme" where
  "freemem_coalesce_next block next s =
     (if block + mem s (block + 4) = next
      then (let s1 = s\<lparr>mem := (mem s)(block + 4 := mem s (block + 4) + mem s (next + 4))\<rparr>
            in s1\<lparr>mem := (mem s1)(block := mem s1 next)\<rparr>)
      else s)"

definition freemem_section ::
  "int \<Rightarrow> u32 \<Rightarrow> u32 \<Rightarrow> 'a memst_scheme \<Rightarrow> (int \<times> 'a memst_scheme) option" where
  "freemem_section n block nbytes s =
     do {
       h \<leftarrow> aget (freelist s) n;
       (prev, next) \<leftarrow> freemem_seek block (Link_head n) (mh_head h) (mem s);
       let ptop = (case prev of Link_head _ \<Rightarrow> 0 | Link_blk p \<Rightarrow> p + mem s (p + 4));
       if ptop > block \<or> (next \<noteq> 0 \<and> block + nbytes > next) then Some (SYSERR, s)
       else do {
         s1 \<leftarrow> add_length n nbytes s;
         (block', s2) \<leftarrow> freemem_coalesce_prev block nbytes prev next ptop s1;
         Some (OK, freemem_coalesce_next block' next s2)
       }
     }"

definition freemem :: "int \<Rightarrow> u32 \<Rightarrow> u32 \<Rightarrow> 'a memst_scheme \<Rightarrow> (int \<times> 'a memst_scheme) option" where
  "freemem cpuid memptr nbytes s =
     (if nbytes = 0 \<or> memptr < memheap s \<or> memptr > maxaddr s then Some (SYSERR, s)
      else do {
        n \<leftarrow> which_freelist (nat NCORES) 0 memptr s;
        h \<leftarrow> aget (freelist s) n;
        locked cpuid (mh_lock h) (freemem_section n memptr (roundmb nbytes)) s
      })"

section \<open>malloc and free\<close>

definition malloc :: "int \<Rightarrow> u32 \<Rightarrow> 'a memst_scheme \<Rightarrow> (u32 \<times> 'a memst_scheme) option" where
  "malloc cpuid sz s =
     (if sz = 0 then Some (0, s)
      else let sz1 = sz + sizeof_memblock in
      do {
        (pmem, s1) \<leftarrow> getmem cpuid sz1 s;
        if pmem = SYSERRP then Some (0, s1)
        else do {
          let s2 = s1\<lparr>mem := (mem s1)(pmem := pmem)\<rparr>;
          let s3 = s2\<lparr>mem := (mem s2)(pmem + 8 := mem s2 (pmem + 8) AND NOT 0xFF)\<rparr>;
          let s4 = s3\<lparr>mem := (mem s3)(pmem + 4 := sz1)\<rparr>;
          Some (pmem + sizeof_memblock, s4)
        }
      })"

definition free :: "int \<Rightarrow> u32 \<Rightarrow> 'a memst_scheme \<Rightarrow> (int \<times> 'a memst_scheme) option" where
  "free cpuid ptr s =
     (let block = ptr - sizeof_memblock in
      if mem s block \<noteq> block then Some (SYSERR, s)
      else do {
        (_, s1) \<leftarrow> freemem cpuid block (mem s (block + 4)) s;
        Some (OK, s1)
      })"

section \<open>Word arithmetic of block addresses\<close>

lemma roundmb_unat:
  assumes "unat x \<le> 2 ^ 32 - 8"
  shows "unat (roundmb x) = 8 * ((unat x + 7) div 8)"
proof -
  have "unat (7 + x) = unat x + 7" using assms by (simp add: unat_word_ariths)
  then show ?thesis
    using unat_and_not_mask[of "7 + x" 3] by (simp add: roundmb_def mask_3_word[symmetric])
qed

section \<open>Free lists as lists of blocks\<close>

type_synonym blk = "u32 \<times> u32"

fun seg :: "(u32 \<Rightarrow> u32) \<Rightarrow> u32 \<Rightarrow> blk list \<Rightarrow> u32 \<Rightarrow> bool" where
  "seg m p [] q \<longleftrightarrow> p = q"
| "seg m p ((a, l) # bs) q \<longleftrightarrow> p = a \<and> a \<noteq> 0 \<and> m (a + 4) = l \<and> seg m (m a) bs q"

fun blocks_ok :: "nat \<Rightarrow> nat \<Rightarrow> blk list \<Rightarrow> bool" where
  "blocks_ok lo hi [] \<longleftrightarrow> True"
| "blocks_ok lo hi ((a, l) # bs) \<longleftrightarrow>
     lo \<le> unat a \<and> 8 dvd unat a \<and> 8 dvd unat l \<and> 0 < unat l \<and> unat a + unat l \<le> hi \<and>
     blocks_ok (Suc (unat a + unat l)) hi bs"

definition bytes_of :: "blk \<Rightarrow> nat set" where
  "bytes_of b = {unat (fst b) ..< unat (fst b) + unat (snd b)}"

definition bytes :: "blk list \<Rightarrow> nat set" where
  "bytes bs = (\<Union>b \<in> set bs. bytes_of b)"

definition fields :: "blk list \<Rightarrow> u32 set" where
  "fields bs = (\<Union>b \<in> set bs. {fst b, fst b + 4})"

fun blocks_end :: "nat \<Rightarrow> blk list \<Rightarrow> nat" where
  "blocks_end lo [] = lo"
| "blocks_end lo ((a, l) # bs) = blocks_end (Suc (unat a + unat l)) bs"

definition total_len :: "blk list \<Rightarrow> nat" where
  "total_len bs = sum_list (map (unat \<circ> snd) bs)"

lemma bytes_simps [simp]:
  "bytes [] = {}"
  "bytes (b # bs) = bytes_of b \<union> bytes bs"
  "bytes (xs @ ys) = bytes xs \<union> bytes ys"
  by (auto simp: bytes_def)

lemma fields_simps [simp]:
  "fields [] = {}"
  "fields (b # bs) = {fst b, fst b + 4} \<union> fields bs"
  "fields (xs @ ys) = fields xs \<union> fields ys"
  by (auto simp: fields_def)

lemma total_len_simps [simp]:
  "total_len [] = 0"
  "total_len (b # bs) = unat (snd b) + total_len bs"
  "total_len (xs @ ys) = total_len xs + total_len ys"
  by (auto simp: total_len_def)

lemma seg_append: "seg m p (xs @ ys) q \<longleftrightarrow> (\<exists>r. seg m p xs r \<and> seg m r ys q)"
  by (induction m p xs q rule: seg.induct) auto

lemma seg_update: "x \<notin> fields bs \<Longrightarrow> seg (m(x := v)) p bs q = seg m p bs q"
  by (induction m p bs q rule: seg.induct) auto

lemma blocks_end_append [simp]: "blocks_end lo (xs @ ys) = blocks_end (blocks_end lo xs) ys"
  by (induction lo xs rule: blocks_end.induct) auto

lemma blocks_ok_append:
  "blocks_ok lo hi (xs @ ys) \<longleftrightarrow> blocks_ok lo hi xs \<and> blocks_ok (blocks_end lo xs) hi ys"
  by (induction lo hi xs rule: blocks_ok.induct) auto

lemma blocks_ok_lo: "blocks_ok lo hi bs \<Longrightarrow> lo' \<le> lo \<Longrightarrow> blocks_ok lo' hi bs"
  by (cases "(lo, hi, bs)" rule: blocks_ok.cases) auto

lemma blocks_end_ge: "blocks_ok lo hi bs \<Longrightarrow> lo \<le> blocks_end lo bs"
  by (induction lo hi bs rule: blocks_ok.induct) auto

lemma blocks_ok_bytes: "blocks_ok lo hi bs \<Longrightarrow> bytes bs \<subseteq> {lo ..< hi}"
  by (induction lo hi bs rule: blocks_ok.induct) (auto simp: bytes_of_def)

lemma blocks_ok_bytes_end: "blocks_ok lo hi bs \<Longrightarrow> bytes bs \<subseteq> {..< blocks_end lo bs}"
  by (induction lo hi bs rule: blocks_ok.induct)
    (auto simp: bytes_of_def dest!: blocks_end_ge intro: less_le_trans)

lemma unat_plus4: "8 dvd unat (a::u32) \<Longrightarrow> unat (a + 4) = unat a + 4"
proof -
  assume "8 dvd unat a"
  moreover have "unat a < 2 ^ 32" using unsigned_less[of a] by simp
  ultimately have "unat a + 4 < 2 ^ 32" by (auto elim!: dvdE)
  then show ?thesis by (simp add: unat_word_ariths)
qed

lemma blocks_ok_fields: "blocks_ok lo hi bs \<Longrightarrow> x \<in> fields bs \<Longrightarrow> unat x \<in> bytes bs"
proof (induction lo hi bs rule: blocks_ok.induct)
  case (1 lo hi)
  then show ?case by simp
next
  case (2 lo hi a l bs)
  then have "8 \<le> unat l" by (auto dest: dvd_imp_le)
  with 2 show ?case by (auto simp: bytes_of_def unat_plus4)
qed


lemma blocks_ok_not_field: "blocks_ok lo hi bs \<Longrightarrow> unat x \<notin> bytes bs \<Longrightarrow> x \<notin> fields bs"
  using blocks_ok_fields by blast

fun alloc_list :: "u32 \<Rightarrow> blk list \<Rightarrow> (u32 \<times> blk list) option" where
  "alloc_list n [] = None"
| "alloc_list n ((a, l) # bs) =
     (if l = n then Some (a, bs)
      else if l > n then Some (a, (a + n, l - n) # bs)
      else map_option (\<lambda>(p, bs'). (p, (a, l) # bs')) (alloc_list n bs))"

lemma alloc_list_None: "alloc_list n bs = None \<longleftrightarrow> (\<forall>b \<in> set bs. snd b < n)"
  by (induction n bs rule: alloc_list.induct) auto

lemma alloc_list_Some:
  assumes "alloc_list n bs = Some (p, bs')" and "blocks_ok lo hi bs" and "hi \<le> 2 ^ 32"
    and "8 dvd unat n" and "0 < unat n"
  shows "blocks_ok lo hi bs' \<and> bytes bs = {unat p ..< unat p + unat n} \<union> bytes bs' \<and>
    {unat p ..< unat p + unat n} \<inter> bytes bs' = {} \<and> total_len bs = unat n + total_len bs' \<and> 8 dvd unat p \<and> lo \<le> unat p"
  using assms
proof (induction n bs arbitrary: lo p bs' rule: alloc_list.induct)
  case (1 n)
  then show ?case by simp
next
  case (2 n a l bs)
  from "2.prems"(2) have ok: "lo \<le> unat a" "8 dvd unat a" "8 dvd unat l" "0 < unat l"
    "unat a + unat l \<le> hi" "blocks_ok (Suc (unat a + unat l)) hi bs" by auto
  have above: "bytes bs \<subseteq> {Suc (unat a + unat l) ..< hi}" using blocks_ok_bytes[OF ok(6)] .
  consider (exact) "l = n" | (split) "l > n" | (skip) "l < n" by fastforce
  then show ?case
  proof cases
    case exact
    with "2.prems"(1) have "p = a" "bs' = bs" by auto
    with exact ok above show ?thesis
      by (auto simp: bytes_of_def intro: blocks_ok_lo)
  next
    case split
    then have nl: "unat n < unat l" by (simp add: word_less_nat_alt)
    then have "l \<noteq> n" by auto
    with split "2.prems"(1) have p: "p = a" "bs' = (a + n, l - n) # bs" by auto
    have an: "unat (a + n) = unat a + unat n"
      using nl ok(5) "2.prems"(3) by (intro unat_add_nowrap) simp
    have ln: "unat (l - n) = unat l - unat n"
      using split by (simp add: unat_sub)
    have "8 dvd unat l - unat n" using ok(3) "2.prems"(4) by (rule dvd_diff_nat)
    with p an ln nl ok "2.prems"(4,5) have "blocks_ok lo hi bs'"
      by (auto intro: dvd_add)
    with p an ln nl ok above "2.prems"(4,5) show ?thesis
      by (auto simp: bytes_of_def)
  next
    case skip
    then have ne: "l \<noteq> n" "\<not> l > n" by auto
    with "2.prems"(1) obtain bs2 where r: "alloc_list n bs = Some (p, bs2)" and bs': "bs' = (a, l) # bs2"
      by auto
    from "2.IH"[OF ne r ok(6) "2.prems"(3-5)] have IH: "blocks_ok (Suc (unat a + unat l)) hi bs2"
      "bytes bs = {unat p ..< unat p + unat n} \<union> bytes bs2"
      "{unat p ..< unat p + unat n} \<inter> bytes bs2 = {}"
      "total_len bs = unat n + total_len bs2" "8 dvd unat p" by auto
    have "{unat p ..< unat p + unat n} \<subseteq> bytes bs" using IH(2) by blast
    with above have pr: "{unat p ..< unat p + unat n} \<subseteq> {Suc (unat a + unat l) ..< hi}" by blast
    then have "unat p \<in> {Suc (unat a + unat l) ..< hi}" using "2.prems"(5) by auto
    moreover have "{unat p ..< unat p + unat n} \<inter> bytes_of (a, l) = {}"
      using pr by (auto simp: bytes_of_def)
    ultimately show ?thesis using IH ok bs' by auto
  qed
qed

definition prev_of :: "int \<Rightarrow> blk list \<Rightarrow> link" where
  "prev_of c pre = (if pre = [] then Link_head c else Link_blk (fst (last pre)))"

abbreviation fl_head :: "'a memst_scheme \<Rightarrow> int \<Rightarrow> u32" where
  "fl_head s c \<equiv> mh_head (at (freelist s) c)"

definition relink_mem :: "blk list \<Rightarrow> u32 \<Rightarrow> (u32 \<Rightarrow> u32) \<Rightarrow> u32 \<Rightarrow> u32" where
  "relink_mem pre v m = (if pre = [] then m else m(fst (last pre) := v))"

definition relink_head :: "blk list \<Rightarrow> u32 \<Rightarrow> u32 \<Rightarrow> u32" where
  "relink_head pre v h = (if pre = [] then v else h)"

lemma set_next_relink:
  "inb (freelist s) c \<Longrightarrow> set_next (prev_of c pre) v s =
     Some (s\<lparr>mem := relink_mem pre v (mem s),
              freelist := (freelist s)[nat c := (at (freelist s) c)\<lparr>mh_head := relink_head pre v (fl_head s c)\<rparr>]\<rparr>)"
  by (auto simp: prev_of_def relink_mem_def relink_head_def)

lemma seg_relink:
  assumes "seg m h pre q" and "blocks_ok lo hi pre"
  shows "seg (relink_mem pre v m) (relink_head pre v h) pre v"
proof (cases pre rule: rev_cases)
  case Nil
  then show ?thesis by (simp add: relink_mem_def relink_head_def)
next
  case (snoc xs b)
  obtain a l where b: "b = (a, l)" by (cases b)
  from assms snoc b have s: "seg m h xs a" "a \<noteq> 0" "m (a + 4) = l"
    and ok: "blocks_ok lo hi xs" "blocks_end lo xs \<le> unat a" "8 dvd unat a"
    by (auto simp: seg_append blocks_ok_append)
  have "a \<notin> fields xs"
    using blocks_ok_fields[OF ok(1), of a] blocks_ok_bytes_end[OF ok(1)] ok(2) by auto
  moreover have "a + 4 \<noteq> a" by (simp)
  ultimately show ?thesis
    using s snoc b by (auto simp: relink_mem_def relink_head_def seg_append seg_update)
qed

lemma relink_mem_other:
  "pre = [] \<or> x \<noteq> fst (last pre) \<Longrightarrow> relink_mem pre v m x = m x"
  by (auto simp: relink_mem_def)

lemma seg_relink_other:
  "fields pre \<inter> fields ys = {} \<Longrightarrow> seg (relink_mem pre v m) p ys q = seg m p ys q"
proof (cases pre rule: rev_cases)
  case Nil
  then show ?thesis by (simp add: relink_mem_def)
next
  case (snoc xs b)
  assume "fields pre \<inter> fields ys = {}"
  with snoc have "fst b \<notin> fields ys" by auto
  with snoc show ?thesis by (simp add: relink_mem_def seg_update)
qed

lemma blocks_ok_disjoint:
  assumes "blocks_ok lo hi (xs @ ys)"
  shows "bytes xs \<inter> bytes ys = {}" and "fields xs \<inter> fields ys = {}"
proof -
  from assms have x: "blocks_ok lo hi xs" and y: "blocks_ok (blocks_end lo xs) hi ys"
    by (auto simp: blocks_ok_append)
  show d: "bytes xs \<inter> bytes ys = {}"
    using blocks_ok_bytes_end[OF x] blocks_ok_bytes[OF y] by fastforce
  show "fields xs \<inter> fields ys = {}"
    using blocks_ok_fields[OF x] blocks_ok_fields[OF y] d by blast
qed


lemma prev_of_snoc [simp]: "prev_of c (pre @ [(a, l)]) = Link_blk a"
  by (simp add: prev_of_def)

abbreviation fl_update :: "int \<Rightarrow> u32 \<Rightarrow> u32 \<Rightarrow> memhead list \<Rightarrow> memhead list" where
  "fl_update c h len fl \<equiv> fl[nat c := (at fl c)\<lparr>mh_head := h, mh_length := len\<rparr>]"

abbreviation fl_len :: "'a memst_scheme \<Rightarrow> int \<Rightarrow> u32" where
  "fl_len s c \<equiv> mh_length (at (freelist s) c)"

lemma relink_mem_frame:
  "blocks_ok lo hi pre \<Longrightarrow> unat x \<notin> bytes pre \<Longrightarrow> relink_mem pre v m x = m x"
  using blocks_ok_fields[of lo hi pre] by (cases pre rule: rev_cases) (auto simp: relink_mem_def)

lemma relink_mem_next:
  assumes "blocks_ok lo hi (pre @ (a, l) # bs)"
  shows "relink_mem pre v m a = m a" and "relink_mem pre v m (a + 4) = m (a + 4)"
  using blocks_ok_disjoint(2)[OF assms]
  by (cases pre rule: rev_cases, auto simp: relink_mem_def)+

lemma getmem_loop_exact:
  assumes "inb (freelist s) c" and "seg (mem s) (fl_head s c) pre a" and "seg (mem s) a ((a, n) # bs) 0"
    and ok: "blocks_ok lo hi (pre @ (a, n) # bs)"
  shows "\<exists>m h. getmem_loop c n (prev_of c pre) a s =
      Some (a, s\<lparr>mem := m, freelist := fl_update c h (fl_len s c - n) (freelist s)\<rparr>) \<and>
      seg m h (pre @ bs) 0 \<and> (\<forall>x. unat x \<notin> bytes (pre @ (a, n) # bs) \<longrightarrow> m x = mem s x)"
proof -
  let ?m = "relink_mem pre (mem s a) (mem s)" and ?h = "relink_head pre (mem s a) (fl_head s c)"
  have okp: "blocks_ok lo hi pre" using ok by (simp add: blocks_ok_append)
  have "fields pre \<inter> fields bs = {}" using blocks_ok_disjoint(2)[OF ok] by auto
  then have "seg ?m ?h (pre @ bs) 0"
    using assms(3) seg_relink[OF assms(2) okp] by (auto simp: seg_append seg_relink_other)
  moreover have "getmem_loop c n (prev_of c pre) a s =
      Some (a, s\<lparr>mem := ?m, freelist := fl_update c ?h (fl_len s c - n) (freelist s)\<rparr>)"
    using assms(1,3)
    by (auto simp: getmem_loop.simps[of c n "prev_of c pre"] set_next_relink add_length_def)
  moreover have "unat x \<notin> bytes (pre @ (a, n) # bs) \<Longrightarrow> ?m x = mem s x" for x
    using relink_mem_frame[OF okp] by auto
  ultimately show ?thesis by blast
qed

lemma split_addresses:
  fixes a n l :: u32
  assumes "unat n < unat l" and "unat a + unat l \<le> 2 ^ 32"
    and "8 dvd unat a" "8 dvd unat n" "8 dvd unat l" "0 < unat n"
  shows "unat (a + n) = unat a + unat n" and "unat (a + n + 4) = unat a + unat n + 4"
    and "unat n + 8 \<le> unat l"
    and "a + n \<noteq> 0" "a + n \<noteq> a" "a + n \<noteq> a + 4" "a + n + 4 \<noteq> a" "a + n + 4 \<noteq> a + 4"
proof -
  show an: "unat (a + n) = unat a + unat n" using assms(1,2) by (intro unat_add_nowrap) simp
  have "8 dvd unat (a + n)" using an assms(3,4) by (simp add: dvd_add)
  then show an4: "unat (a + n + 4) = unat a + unat n + 4" using an by (simp add: unat_plus4)
  show "unat n + 8 \<le> unat l" using assms(1,4,5) by (auto elim!: dvdE)
  have n8: "8 \<le> unat n" using assms(4,6) by (auto dest: dvd_imp_le)
  show "a + n \<noteq> 0" "a + n \<noteq> a" "a + n \<noteq> a + 4" "a + n + 4 \<noteq> a" "a + n + 4 \<noteq> a + 4"
    using an an4 n8 unat_plus4[OF assms(3)] by (auto simp: word_unat_eq_iff)
qed

lemma getmem_loop_split:
  assumes "inb (freelist s) c" and "seg (mem s) (fl_head s c) pre a" and cur: "seg (mem s) a ((a, l) # bs) 0"
    and ok: "blocks_ok lo hi (pre @ (a, l) # bs)" and "hi \<le> 2 ^ 32" and "8 dvd unat n" "0 < unat n" and nl: "n < l"
  shows "\<exists>m h. getmem_loop c n (prev_of c pre) a s =
      Some (a, s\<lparr>mem := m, freelist := fl_update c h (fl_len s c - n) (freelist s)\<rparr>) \<and>
      seg m h (pre @ (a + n, l - n) # bs) 0 \<and>
      (\<forall>x. unat x \<notin> bytes (pre @ (a, l) # bs) \<longrightarrow> m x = mem s x)"
proof -
  define m1 where "m1 = relink_mem pre (a + n) (mem s)"
  define m3 where "m3 = m1(a + n := mem s a, a + n + 4 := l - n)"
  let ?h = "relink_head pre (a + n) (fl_head s c)"
  from ok have okp: "blocks_ok lo hi pre" and oka: "8 dvd unat a" "8 dvd unat l" "unat a + unat l \<le> hi"
    and okb: "blocks_ok (Suc (unat a + unat l)) hi bs" by (auto simp: blocks_ok_append)
  note ad = split_addresses[of n l a, OF _ _ oka(1) assms(6) oka(2) assms(7)]
  have nl': "unat n < unat l" "unat a + unat l \<le> 2 ^ 32"
    using nl oka(3) assms(5) by (auto simp: word_less_nat_alt)
  note ad = ad[OF nl']
  have inb: "unat (a + n) \<in> bytes_of (a, l)" "unat (a + n + 4) \<in> bytes_of (a, l)"
    using ad(1-3) by (auto simp: bytes_of_def)
  have nfp: "x \<notin> fields pre" if "unat x \<in> bytes_of (a, l)" for x
    using that blocks_ok_disjoint(1)[OF ok] by (intro blocks_ok_not_field[OF okp]) auto
  have nfb: "x \<notin> fields bs" if "unat x \<in> bytes_of (a, l)" for x
    using that blocks_ok_bytes[OF okb] by (intro blocks_ok_not_field[OF okb]) (auto simp: bytes_of_def)
  have "seg m3 ?h pre (a + n)"
    using seg_relink[OF assms(2) okp] nfp inb by (simp add: m3_def m1_def seg_update)
  moreover have "fields pre \<inter> fields bs = {}" using blocks_ok_disjoint(2)[OF ok] by auto
  then have "seg m3 (mem s a) bs 0"
    using cur nfb inb by (simp add: m3_def m1_def seg_update seg_relink_other)
  ultimately have "seg m3 ?h (pre @ (a + n, l - n) # bs) 0"
    using ad by (auto simp: seg_append m3_def)
  moreover have "getmem_loop c n (prev_of c pre) a s =
      Some (a, s\<lparr>mem := m3, freelist := fl_update c ?h (fl_len s c - n) (freelist s)\<rparr>)"
    using nl cur assms(1) ad relink_mem_next[OF ok, of "a + n" "mem s"]
    by (auto simp: getmem_loop.simps[of c n "prev_of c pre"] set_next_relink add_length_def
        m1_def[symmetric] m3_def)
  moreover have "unat x \<notin> bytes (pre @ (a, l) # bs) \<Longrightarrow> m3 x = mem s x" for x
    using relink_mem_frame[OF okp, of x] inb by (auto simp: m3_def m1_def)
  ultimately show ?thesis by blast
qed

lemma getmem_loop_spec:
  assumes "inb (freelist s) c" and "seg (mem s) (fl_head s c) pre cur" and "seg (mem s) cur rest 0"
    and "blocks_ok lo hi (pre @ rest)" and "hi \<le> 2 ^ 32" and "8 dvd unat n" and "0 < unat n"
  shows "case alloc_list n rest of
      None \<Rightarrow> getmem_loop c n (prev_of c pre) cur s = Some (SYSERRP, s)
    | Some (p, rest') \<Rightarrow> \<exists>m h. getmem_loop c n (prev_of c pre) cur s =
        Some (p, s\<lparr>mem := m, freelist := fl_update c h (fl_len s c - n) (freelist s)\<rparr>) \<and>
        seg m h (pre @ rest') 0 \<and> (\<forall>x. unat x \<notin> bytes (pre @ rest) \<longrightarrow> m x = mem s x)"
  using assms
proof (induction rest arbitrary: pre cur)
  case Nil
  then show ?case by (simp add: getmem_loop.simps)
next
  case (Cons b bs)
  obtain a l where b: "b = (a, l)" by (cases b)
  from Cons.prems(3) b have cur: "cur = a" "a \<noteq> 0" "mem s (a + 4) = l" and tl: "seg (mem s) (mem s a) bs 0"
    by auto
  consider (exact) "l = n" | (split) "l > n" | (skip) "l < n" by fastforce
  then show ?case
  proof cases
    case exact
    then show ?thesis
      using getmem_loop_exact[OF Cons.prems(1), of pre a n bs lo hi] Cons.prems b cur by auto
  next
    case split
    then have "alloc_list n (b # bs) = Some (a, (a + n, l - n) # bs)" using b by auto
    then show ?thesis
      using getmem_loop_split[OF Cons.prems(1), of pre a l bs lo hi n] Cons.prems b cur split by auto
  next
    case skip
    have pre': "seg (mem s) (fl_head s c) (pre @ [(a, l)]) (mem s a)"
      using Cons.prems(2) cur by (auto simp: seg_append)
    have ok': "blocks_ok lo hi ((pre @ [(a, l)]) @ bs)" using Cons.prems(4) b by simp
    have "getmem_loop c n (prev_of c pre) cur s = getmem_loop c n (prev_of c (pre @ [(a, l)])) (mem s a) s"
      using skip cur by (auto simp: getmem_loop.simps[of c n "prev_of c pre"])
    with Cons.IH[OF Cons.prems(1) pre' tl ok' Cons.prems(5-7)] skip b show ?thesis
      by (auto split: option.splits)
  qed
qed

lemma seg_cong: "(\<And>x. x \<in> fields bs \<Longrightarrow> m x = m' x) \<Longrightarrow> seg m p bs q = seg m' p bs q"
  by (induction m p bs q rule: seg.induct) auto

definition flist_ok :: "'a memst_scheme \<Rightarrow> int \<Rightarrow> blk list \<Rightarrow> bool" where
  "flist_ok s c bs \<longleftrightarrow>
     inb (freelist s) c \<and>
     seg (mem s) (fl_head s c) bs 0 \<and>
     0 < unat (mh_base (at (freelist s) c)) \<and>
     unat (mh_base (at (freelist s) c)) + unat (mh_bound (at (freelist s) c)) < 2 ^ 32 \<and>
     blocks_ok (unat (mh_base (at (freelist s) c)))
       (unat (mh_base (at (freelist s) c)) + unat (mh_bound (at (freelist s) c))) bs \<and>
     unat (fl_len s c) = total_len bs"

lemma flist_ok_lock_indep [simp]: "flist_ok (s\<lparr>locktab := t\<rparr>) c bs = flist_ok s c bs"
  by (simp add: flist_ok_def)

lemma roundmb_pos:
  assumes "x \<noteq> 0" and "unat x \<le> 2 ^ 32 - 8"
  shows "8 dvd unat (roundmb x)" and "0 < unat (roundmb x)" and "unat x \<le> unat (roundmb x)"
proof -
  have "0 < unat x" using assms(1) by (simp add: unat_gt_0)
  then show "8 dvd unat (roundmb x)" "0 < unat (roundmb x)" "unat x \<le> unat (roundmb x)"
    using roundmb_unat[OF assms(2)] by auto
qed

lemma flist_ok_alloc:
  assumes ok: "flist_ok s c bs" and al: "alloc_list n bs = Some (p, bs')"
    and n: "8 dvd unat n" "0 < unat n" and sg: "seg m h bs' 0"
  shows "flist_ok (s\<lparr>mem := m, freelist := fl_update c h (fl_len s c - n) (freelist s)\<rparr>) c bs'"
proof -
  let ?lo = "unat (mh_base (at (freelist s) c))" and ?b = "unat (mh_bound (at (freelist s) c))"
  from ok have o: "inb (freelist s) c" "0 < ?lo" "?lo + ?b < 2 ^ 32" "blocks_ok ?lo (?lo + ?b) bs"
    "unat (fl_len s c) = total_len bs" by (auto simp: flist_ok_def)
  from alloc_list_Some[OF al o(4) _ n] o(3) have r: "blocks_ok ?lo (?lo + ?b) bs'"
    "total_len bs = unat n + total_len bs'" by auto
  have "unat (fl_len s c - n) = total_len bs'"
    using o(5) r(2) by (subst unat_sub) (auto simp: word_le_nat_alt)
  with o r sg show ?thesis by (simp add: flist_ok_def)
qed

lemma getmem_spec:
  assumes ok: "flist_ok s c bs" and idle: "lock_idle (mh_lock (at (freelist s) c)) s"
    and nb: "nbytes \<noteq> 0" "unat nbytes \<le> 2 ^ 32 - 8" and n: "n = roundmb nbytes"
  shows "case alloc_list n bs of
      None \<Rightarrow> getmem c nbytes s = Some (SYSERRP, s)
    | Some (p, bs') \<Rightarrow> \<exists>m h. getmem c nbytes s =
        Some (p, s\<lparr>mem := m, freelist := fl_update c h (fl_len s c - n) (freelist s)\<rparr>) \<and>
        flist_ok (s\<lparr>mem := m, freelist := fl_update c h (fl_len s c - n) (freelist s)\<rparr>) c bs' \<and>
        (\<forall>x. unat x \<notin> bytes bs \<longrightarrow> m x = mem s x)"
proof -
  let ?lo = "unat (mh_base (at (freelist s) c))" and ?b = "unat (mh_bound (at (freelist s) c))"
  let ?L = "mh_lock (at (freelist s) c)"
  let ?s1 = "s\<lparr>locktab := lt_hold c ?L (locktab s)\<rparr>"
  let ?body = "\<lambda>s. do { h \<leftarrow> aget (freelist s) c; getmem_loop c n (Link_head c) (mh_head h) s }"
  note n8 = roundmb_pos[OF nb, folded n]
  from ok have o: "inb (freelist s) c" "?lo + ?b < 2 ^ 32" "blocks_ok ?lo (?lo + ?b) bs"
    "seg (mem s) (fl_head s c) bs 0" by (auto simp: flist_ok_def)
  have gm: "getmem c nbytes s = locked c ?L ?body s"
    using nb(1) o(1) n by (simp add: getmem_def)
  have sp: "case alloc_list n bs of
      None \<Rightarrow> getmem_loop c n (prev_of c []) (fl_head s c) ?s1 = Some (SYSERRP, ?s1)
    | Some (p, rest') \<Rightarrow> \<exists>m h. getmem_loop c n (prev_of c []) (fl_head s c) ?s1 =
        Some (p, ?s1\<lparr>mem := m, freelist := fl_update c h (fl_len s c - n) (freelist s)\<rparr>) \<and>
        seg m h rest' 0 \<and> (\<forall>x. unat x \<notin> bytes bs \<longrightarrow> m x = mem s x)"
    using getmem_loop_spec[of ?s1 c "[]" "fl_head s c" bs ?lo "?lo + ?b" n] o n8
    by (cases "alloc_list n bs") auto
  show ?thesis
  proof (cases "alloc_list n bs")
    case None
    with sp have "?body ?s1 = Some (SYSERRP, ?s1)" using o(1) by (simp add: prev_of_def)
    from locked_runs[OF idle, where body = ?body, OF this] gm None show ?thesis by simp
  next
    case (Some pr)
    obtain p bs' where pr: "pr = (p, bs')" by (cases pr)
    with sp Some obtain m h where
      r: "?body ?s1 = Some (p, ?s1\<lparr>mem := m, freelist := fl_update c h (fl_len s c - n) (freelist s)\<rparr>)"
      and sg: "seg m h bs' 0" and fr: "\<forall>x. unat x \<notin> bytes bs \<longrightarrow> m x = mem s x"
      using o(1) by (auto simp: prev_of_def)
    from locked_runs[OF idle, where body = ?body, OF r] gm
    have "getmem c nbytes s = Some (p, s\<lparr>mem := m, freelist := fl_update c h (fl_len s c - n) (freelist s)\<rparr>)"
      by simp
    with fr flist_ok_alloc[OF ok _ n8(1,2) sg] Some pr show ?thesis by auto
  qed
qed

section \<open>Inserting a block in the list\<close>

fun hd_addr :: "blk list \<Rightarrow> u32" where
  "hd_addr [] = 0"
| "hd_addr (b # bs) = fst b"

lemma seg_hd_addr: "seg m p bs 0 \<Longrightarrow> hd_addr bs = p"
  by (cases bs) auto

lemma freemem_seek_spec:
  "seg m cur rest 0 \<Longrightarrow> freemem_seek block (prev_of c pre) cur m =
     Some (prev_of c (pre @ takeWhile (\<lambda>b. fst b < block) rest), hd_addr (dropWhile (\<lambda>b. fst b < block) rest))"
proof (induction rest arbitrary: pre cur)
  case Nil
  then show ?case by (simp add: freemem_seek.simps)
next
  case (Cons b bs)
  obtain a l where b: "b = (a, l)" by (cases b)
  with Cons.prems have cur: "cur = a" "a \<noteq> 0" and tl: "seg m (m a) bs 0" by auto
  show ?case
  proof (cases "a < block")
    case True
    then have "freemem_seek block (prev_of c pre) cur m = freemem_seek block (prev_of c (pre @ [(a, l)])) (m a) m"
      using cur by (simp add: freemem_seek.simps[of block "prev_of c pre"])
    with Cons.IH[OF tl, of "pre @ [(a, l)]"] True b show ?thesis by simp
  next
    case False
    with cur b show ?thesis by (simp add: freemem_seek.simps[of block "prev_of c pre"])
  qed
qed

fun join_next :: "blk \<Rightarrow> blk list \<Rightarrow> blk list" where
  "join_next (b, n) [] = [(b, n)]"
| "join_next (b, n) ((a, l) # bs) = (if b + n = a then (b, n + l) # bs else (b, n) # (a, l) # bs)"

definition join_prev :: "blk list \<Rightarrow> blk \<Rightarrow> blk list \<Rightarrow> blk list" where
  "join_prev pre b post =
     (if pre \<noteq> [] \<and> fst (last pre) + snd (last pre) = fst b
      then butlast pre @ join_next (fst (last pre), snd (last pre) + snd b) post
      else pre @ join_next b post)"

definition free_list :: "u32 \<Rightarrow> u32 \<Rightarrow> blk list \<Rightarrow> blk list" where
  "free_list b n bs = join_prev (takeWhile (\<lambda>x. fst x < b) bs) (b, n) (dropWhile (\<lambda>x. fst x < b) bs)"

lemma coalesce_next_spec:
  assumes sg: "seg (mem s) h (pre @ (x, k) # post) 0"
    and nf: "x \<notin> fields pre" "x + 4 \<notin> fields pre" "x \<notin> fields post" "x + 4 \<notin> fields post"
    and nz: "x + k \<noteq> 0"
  shows "\<exists>m. freemem_coalesce_next x (hd_addr post) s = s\<lparr>mem := m\<rparr> \<and>
     seg m h (pre @ join_next (x, k) post) 0 \<and> (\<forall>y. y \<noteq> x \<and> y \<noteq> x + 4 \<longrightarrow> m y = mem s y)"
proof (cases post)
  case Nil
  with sg nz have "freemem_coalesce_next x (hd_addr post) s = s"
    by (auto simp: freemem_coalesce_next_def seg_append)
  with sg Nil show ?thesis by (intro exI[of _ "mem s"]) simp
next
  case (Cons p ps)
  obtain a l where p: "p = (a, l)" by (cases p)
  from sg Cons p have x: "x \<noteq> 0" "mem s (x + 4) = k" "mem s x = a" "mem s (a + 4) = l"
    and pr: "seg (mem s) h pre x" and ps: "seg (mem s) (mem s a) ps 0" by (auto simp: seg_append)
  show ?thesis
  proof (cases "x + k = a")
    case True
    let ?m = "(mem s)(x + 4 := k + l, x := mem s a)"
    have "a \<noteq> x" "a \<noteq> x + 4" using nf(3,4) Cons p by auto
    then have "freemem_coalesce_next x (hd_addr post) s = s\<lparr>mem := ?m\<rparr>"
      using x True Cons p by (simp add: freemem_coalesce_next_def Let_def)
    moreover have "seg ?m h (pre @ join_next (x, k) post) 0"
      using True x pr ps nf Cons p by (auto simp: seg_append seg_update)
    ultimately show ?thesis by (intro exI[of _ ?m]) simp
  next
    case False
    then have "freemem_coalesce_next x (hd_addr post) s = s"
      using x Cons p by (simp add: freemem_coalesce_next_def)
    with sg False Cons p show ?thesis by (intro exI[of _ "mem s"]) simp
  qed
qed

section \<open>What freemem does to the list\<close>

lemma join_next_ok:
  assumes "lo \<le> unat b" "8 dvd unat b" "8 dvd unat n" "0 < unat n" "unat b + unat n \<le> hi" "hi < 2 ^ 32"
    and post: "blocks_ok (unat b + unat n) hi post"
  shows "blocks_ok lo hi (join_next (b, n) post) \<and>
    bytes (join_next (b, n) post) = {unat b ..< unat b + unat n} \<union> bytes post \<and>
    total_len (join_next (b, n) post) = unat n + total_len post"
proof (cases post)
  case Nil
  with assms show ?thesis by (auto simp: bytes_of_def)
next
  case (Cons p ps)
  obtain a l where p: "p = (a, l)" by (cases p)
  have bn: "unat (b + n) = unat b + unat n" using assms(5,6) by (intro unat_add_nowrap) simp
  from post Cons p have al: "unat b + unat n \<le> unat a" "8 dvd unat a" "8 dvd unat l" "0 < unat l"
    "unat a + unat l \<le> hi" "blocks_ok (Suc (unat a + unat l)) hi ps" by auto
  show ?thesis
  proof (cases "b + n = a")
    case True
    then have a: "unat a = unat b + unat n" using bn by simp
    then have "unat (n + l) = unat n + unat l"
      using al(5) assms(6) by (intro unat_add_nowrap) simp
    with True a al assms(1-5) Cons p show ?thesis
      by (auto simp: bytes_of_def dvd_add add.assoc)
  next
    case False
    then have "unat b + unat n < unat a" using bn al(1) by (metis le_neq_implies_less word_unat_eq_iff)
    with False al assms(1-5) Cons p show ?thesis by (auto simp: bytes_of_def)
  qed
qed

lemma takeWhile_below:
  assumes ok: "blocks_ok lo hi bs" and "lo \<le> unat b" and "unat b \<notin> bytes bs"
  shows "blocks_end lo (takeWhile (\<lambda>x. fst x < b) bs) \<le> Suc (unat b)"
proof (cases "takeWhile (\<lambda>x. fst x < b) bs" rule: rev_cases)
  case Nil
  with assms(2) show ?thesis by simp
next
  case (snoc xs x)
  obtain a l where x: "x = (a, l)" by (cases x)
  have "x \<in> set (takeWhile (\<lambda>x. fst x < b) bs)" using snoc by simp
  then have "x \<in> set bs" "fst x < b" by (auto dest: set_takeWhileD)
  then have "bytes_of x \<subseteq> bytes bs" "unat a < unat b" using x by (auto simp: bytes_def word_less_nat_alt)
  then have "unat b \<notin> bytes_of x" "unat a < unat b" using assms(3) by auto
  with x have "unat a + unat l \<le> unat b" by (simp add: bytes_of_def)
  with snoc x show ?thesis by simp
qed

lemma dropWhile_above:
  assumes ok: "blocks_ok lo hi bs" and dis: "{unat b ..< unat b + unat n} \<inter> bytes bs = {}"
  shows "blocks_ok (unat b + unat n) hi (dropWhile (\<lambda>x. fst x < b) bs)"
proof (cases "dropWhile (\<lambda>x. fst x < b) bs")
  case Nil
  show ?thesis unfolding Nil by simp
next
  case (Cons x xs)
  obtain a l where x: "x = (a, l)" by (cases x)
  have "hd (dropWhile (\<lambda>x. fst x < b) bs) = x" and ne: "dropWhile (\<lambda>x. fst x < b) bs \<noteq> []"
    using Cons by simp_all
  with hd_dropWhile[OF ne] x have ba: "unat b \<le> unat a" by (auto simp: word_le_nat_alt[symmetric])
  from ok have "blocks_ok lo hi (takeWhile (\<lambda>x. fst x < b) bs @ dropWhile (\<lambda>x. fst x < b) bs)" by simp
  then obtain lo' where ok': "blocks_ok lo' hi (x # xs)" unfolding blocks_ok_append Cons by blast
  have "x \<in> set bs" using Cons by (metis list.set_intros(1) set_dropWhileD)
  moreover have "0 < unat l" using ok' x by simp
  ultimately have "unat a \<in> bytes bs" using x by (force simp: bytes_def bytes_of_def)
  with dis ba have "unat b + unat n \<le> unat a" by (meson atLeastLessThan_iff disjoint_iff not_le)
  with ok' Cons x show ?thesis by simp
qed

lemma free_list_ok:
  assumes ok: "blocks_ok lo hi bs" and "8 dvd unat b" "8 dvd unat n" "0 < unat n" "lo \<le> unat b"
    "unat b + unat n \<le> hi" "hi < 2 ^ 32" and dis: "{unat b ..< unat b + unat n} \<inter> bytes bs = {}"
  shows "blocks_ok lo hi (free_list b n bs) \<and> bytes (free_list b n bs) = bytes bs \<union> {unat b ..< unat b + unat n} \<and>
    total_len (free_list b n bs) = total_len bs + unat n"
proof -
  define pre post where "pre = takeWhile (\<lambda>x. fst x < b) bs" and "post = dropWhile (\<lambda>x. fst x < b) bs"
  have bs: "bs = pre @ post" by (simp add: pre_def post_def)
  have okp: "blocks_ok lo hi pre" using ok bs by (simp add: blocks_ok_append)
  have "unat b \<notin> bytes bs" using dis assms(4) by (auto simp: disjoint_iff)
  from takeWhile_below[OF ok assms(5) this] have e: "blocks_end lo pre \<le> Suc (unat b)" by (simp add: pre_def)
  have okq: "blocks_ok (unat b + unat n) hi post"
    using dropWhile_above[OF ok dis] by (simp add: post_def)
  show ?thesis
  proof (cases "pre \<noteq> [] \<and> fst (last pre) + snd (last pre) = b")
    case True
    then obtain xs a l where pre: "pre = xs @ [(a, l)]" and al: "a + l = b" 
      by (cases pre rule: rev_cases) auto
    from okp pre have o: "blocks_ok lo hi xs" "blocks_end lo xs \<le> unat a" "8 dvd unat a" "8 dvd unat l"
      "0 < unat l" "unat a + unat l \<le> hi" by (auto simp: blocks_ok_append)
    have ub: "unat b = unat a + unat l" using al o(6) assms(7) unat_add_nowrap[of a l] by simp
    have ln: "unat (l + n) = unat l + unat n"
      using ub assms(6,7) by (intro unat_add_nowrap) simp
    have "blocks_ok (unat a + unat (l + n)) hi post" using okq ub ln by (simp add: add.assoc)
    moreover have "8 dvd unat (l + n)" "0 < unat (l + n)" "unat a + unat (l + n) \<le> hi"
      using ln ub o(4,5) assms(3,6) by (simp_all add: dvd_add)
    ultimately have j: "blocks_ok (blocks_end lo xs) hi (join_next (a, l + n) post)"
      "bytes (join_next (a, l + n) post) = {unat a ..< unat a + unat (l + n)} \<union> bytes post"
      "total_len (join_next (a, l + n) post) = unat (l + n) + total_len post"
      using join_next_ok[OF o(2,3) _ _ _ assms(7)] by blast+
    have sp: "{unat a ..< unat a + unat (l + n)} = {unat a ..< unat a + unat l} \<union> {unat b ..< unat b + unat n}"
      unfolding ln ub by auto
    have "free_list b n bs = xs @ join_next (a, l + n) post"
      unfolding free_list_def pre_def[symmetric] post_def[symmetric]
      using True pre by (simp add: join_prev_def)
    with j(1,3) j(2)[unfolded sp] o(1) ln show ?thesis unfolding bs pre
      by (auto simp: blocks_ok_append bytes_of_def)
  next
    case False
    have "blocks_end lo pre \<le> unat b"
    proof (cases pre rule: rev_cases)
      case Nil
      then show ?thesis using assms(5) by simp
    next
      case (snoc xs x)
      obtain a l where x: "x = (a, l)" by (cases x)
      with snoc okp have "unat a + unat l \<le> hi" by (simp add: blocks_ok_append)
      with assms(7) have "unat (a + l) = unat a + unat l" by (intro unat_add_nowrap) simp
      moreover have "a + l \<noteq> b" using False snoc x by simp
      then have "unat (a + l) \<noteq> unat b" by (simp only: word_unat_eq_iff) simp
      ultimately show ?thesis using snoc x e by simp
    qed
    note j = join_next_ok[OF this assms(2,3,4,6,7) okq]
    have "free_list b n bs = pre @ join_next (b, n) post"
      unfolding free_list_def pre_def[symmetric] post_def[symmetric]
      using False by (auto simp: join_prev_def)
    with j okp show ?thesis unfolding bs by (auto simp: blocks_ok_append)
  qed
qed


definition block_top :: "blk list \<Rightarrow> u32" where
  "block_top pre = (if pre = [] then 0 else fst (last pre) + snd (last pre))"

lemma coalesce_prev_merge:
  assumes "seg (mem s) h (xs @ (a, l) # post) 0" and ok: "blocks_ok lo hi (xs @ (a, l) # post)"
  shows "seg ((mem s)(a + 4 := l + n)) h (xs @ (a, l + n) # post) 0"
proof -
  from ok have o: "blocks_ok lo hi ((xs @ [(a, l)]) @ post)" "blocks_ok lo hi (xs @ [(a, l)])"
    by (auto simp: blocks_ok_append)
  have "a + 4 \<notin> fields xs" "a + 4 \<notin> fields post"
    using blocks_ok_disjoint(2)[OF o(1)] blocks_ok_disjoint(2)[OF o(2)] by auto
  with assms(1) show ?thesis by (auto simp: seg_append seg_update)
qed

lemma coalesce_prev_new:
  assumes sg: "seg m h (pre @ post) 0" and ok: "blocks_ok lo hi (pre @ post)"
    and b: "b \<noteq> 0" "b \<notin> fields (pre @ post)" "b + 4 \<notin> fields (pre @ post)"
  shows "seg (relink_mem pre b (m(b := hd_addr post, b + 4 := n))) (relink_head pre b h) (pre @ (b, n) # post) 0"
proof -
  let ?m = "m(b := hd_addr post, b + 4 := n)"
  have okp: "blocks_ok lo hi pre" using ok by (simp add: blocks_ok_append)
  from sg obtain r where r: "seg m h pre r" "seg m r post 0" by (auto simp: seg_append)
  then have "r = hd_addr post" using seg_hd_addr by metis
  with r b have "seg ?m h pre (hd_addr post)" "seg ?m (hd_addr post) post 0"
    by (auto simp: seg_update)
  moreover have "pre = [] \<or> x \<noteq> fst (last pre)" if "x \<notin> fields pre" for x
    using that by (cases pre rule: rev_cases) auto
  then have "relink_mem pre b ?m b = hd_addr post" "relink_mem pre b ?m (b + 4) = n"
    using b by (simp_all add: relink_mem_other)
  ultimately show ?thesis
    using seg_relink[OF _ okp] seg_relink_other[OF blocks_ok_disjoint(2)[OF ok]] b(1)
    by (auto simp: seg_append)
qed

lemma coalesce_prev_spec:
  assumes inb: "inb (freelist s) c" and sg: "seg (mem s) (fl_head s c) (pre @ post) 0"
    and ok: "blocks_ok lo hi (pre @ post)"
    and b: "b \<noteq> 0" "b \<notin> fields (pre @ post)" "b + 4 \<notin> fields (pre @ post)"
  shows "\<exists>x k xs m h. freemem_coalesce_prev b n (prev_of c pre) (hd_addr post) (block_top pre) s =
      Some (x, s\<lparr>mem := m, freelist := (freelist s)[nat c := (at (freelist s) c)\<lparr>mh_head := h\<rparr>]\<rparr>) \<and>
    seg m h (xs @ (x, k) # post) 0 \<and> join_prev pre (b, n) post = xs @ join_next (x, k) post \<and>
    x + k = b + n \<and> {x, x + 4} \<inter> fields (xs @ post) = {} \<and> {x, x + 4} \<subseteq> {b, b + 4} \<union> fields pre \<and>
    (\<forall>y. y \<notin> {b, b + 4} \<union> fields pre \<longrightarrow> m y = mem s y)"
proof (cases "block_top pre = b")
  case True
  with b(1) obtain xs a l where pre: "pre = xs @ [(a, l)]"
    by (cases pre rule: rev_cases) (auto simp: block_top_def)
  with True have al: "a + l = b" by (simp add: block_top_def)
  have "{a, a + 4} \<inter> fields (xs @ post) = {}"
    using blocks_ok_disjoint(2)[of lo hi pre post] blocks_ok_disjoint(2)[of lo hi xs "[(a, l)]"] ok pre
    by (auto simp: blocks_ok_append)
  moreover have "mem s (a + 4) = l" using sg pre by (auto simp: seg_append)
  then have "freemem_coalesce_prev b n (prev_of c pre) (hd_addr post) (block_top pre) s =
      Some (a, s\<lparr>mem := (mem s)(a + 4 := l + n), freelist := (freelist s)[nat c := (at (freelist s) c)\<lparr>mh_head := fl_head s c\<rparr>]\<rparr>)"
    using True pre inb by (simp add: freemem_coalesce_prev_def list_update_at)
  moreover have "seg ((mem s)(a + 4 := l + n)) (fl_head s c) (xs @ (a, l + n) # post) 0"
    using coalesce_prev_merge[of s "fl_head s c" xs a l post lo hi n] sg ok pre by simp
  moreover have "join_prev pre (b, n) post = xs @ join_next (a, l + n) post"
    using pre al by (simp add: join_prev_def)
  ultimately show ?thesis using pre al
    by (intro exI[of _ a] exI[of _ "l + n"] exI[of _ xs] exI[of _ "(mem s)(a + 4 := l + n)"] exI[of _ "fl_head s c"]) auto
next
  case False
  let ?m = "relink_mem pre b ((mem s)(b := hd_addr post, b + 4 := n))" and ?h = "relink_head pre b (fl_head s c)"
  have "pre \<noteq> [] \<Longrightarrow> fst (last pre) \<in> fields pre" by (cases pre rule: rev_cases) auto
  then have "\<forall>y. y \<notin> {b, b + 4} \<union> fields pre \<longrightarrow> ?m y = mem s y" by (auto simp: relink_mem_def)
  moreover have "freemem_coalesce_prev b n (prev_of c pre) (hd_addr post) (block_top pre) s =
      Some (b, s\<lparr>mem := ?m, freelist := (freelist s)[nat c := (at (freelist s) c)\<lparr>mh_head := ?h\<rparr>]\<rparr>)"
    using False inb by (simp add: freemem_coalesce_prev_def set_next_relink)
  moreover have "join_prev pre (b, n) post = pre @ join_next (b, n) post"
    using False by (auto simp: join_prev_def block_top_def)
  moreover have "{b, b + 4} \<inter> fields (pre @ post) = {}" using b by simp
  ultimately show ?thesis using coalesce_prev_new[OF sg ok b, of n]
    by (intro exI[of _ b] exI[of _ n] exI[of _ pre] exI[of _ ?m] exI[of _ ?h] conjI) (assumption | rule refl Un_upper1)+
qed

lemma overlap_pre:
  assumes ok: "blocks_ok lo hi pre" and "hi < 2 ^ 32" and "\<forall>x \<in> set pre. fst x < b" and "0 < k"
  shows "b < block_top pre \<longleftrightarrow> {unat b ..< unat b + k} \<inter> bytes pre \<noteq> {}"
proof (cases pre rule: rev_cases)
  case Nil
  then show ?thesis by (simp add: block_top_def)
next
  case (snoc xs x)
  obtain a l where x: "x = (a, l)" by (cases x)
  from ok snoc x have o: "blocks_ok lo hi xs" "blocks_end lo xs \<le> unat a" "unat a + unat l \<le> hi"
    by (auto simp: blocks_ok_append)
  have "unat (a + l) = unat a + unat l" using o(3) assms(2) by (intro unat_add_nowrap) simp
  then have t: "b < block_top pre \<longleftrightarrow> unat b < unat a + unat l"
    using snoc x by (simp add: block_top_def word_less_nat_alt)
  have ab: "unat a < unat b" using assms(3) snoc x by (simp add: word_less_nat_alt)
  have "bytes xs \<inter> {unat b ..} = {}" using blocks_ok_bytes_end[OF o(1)] o(2) ab by fastforce
  then have "{unat b ..< unat b + k} \<inter> bytes pre = {unat b ..< unat b + k} \<inter> {unat a ..< unat a + unat l}"
    using snoc x by (auto simp: bytes_of_def)
  then show ?thesis using t ab assms(4) by auto
qed

lemma overlap_post:
  assumes ok: "blocks_ok lo hi post" and "0 < lo" and "post \<noteq> [] \<Longrightarrow> b \<le> fst (hd post)"
    and n: "unat (b + n) = unat b + unat n"
  shows "hd_addr post \<noteq> 0 \<and> hd_addr post < b + n \<longleftrightarrow> {unat b ..< unat b + unat n} \<inter> bytes post \<noteq> {}"
proof (cases post)
  case Nil
  then show ?thesis by simp
next
  case (Cons x xs)
  obtain a l where x: "x = (a, l)" by (cases x)
  from ok Cons x have o: "lo \<le> unat a" "0 < unat l" "blocks_ok (Suc (unat a + unat l)) hi xs" by auto
  have ba: "unat b \<le> unat a" using assms(3) Cons x by (simp add: word_le_nat_alt)
  have "a \<noteq> 0" using o(1) assms(2) by auto
  then have "hd_addr post \<noteq> 0 \<and> hd_addr post < b + n \<longleftrightarrow> unat a < unat b + unat n"
    using Cons x n by (simp add: word_less_nat_alt)
  moreover have "bytes post \<subseteq> {unat a ..}" "unat a \<in> bytes post"
    using blocks_ok_bytes[OF o(3)] o(2) Cons x by (auto simp: bytes_of_def)
  ultimately show ?thesis using ba by (fastforce simp: disjoint_iff)
qed

lemma overlap_check:
  assumes ok: "blocks_ok lo hi bs" and "0 < lo" "hi < 2 ^ 32" "unat b + unat n \<le> hi" "0 < unat n"
    and pre: "pre = takeWhile (\<lambda>x. fst x < b) bs" and post: "post = dropWhile (\<lambda>x. fst x < b) bs"
  shows "b < block_top pre \<or> (hd_addr post \<noteq> 0 \<and> hd_addr post < b + n) \<longleftrightarrow>
    {unat b ..< unat b + unat n} \<inter> bytes bs \<noteq> {}"
proof -
  have bs: "bs = pre @ post" by (simp add: pre post)
  from ok have o: "blocks_ok lo hi pre" "blocks_ok (blocks_end lo pre) hi post"
    unfolding bs by (auto simp: blocks_ok_append)
  have "\<forall>x \<in> set pre. fst x < b" unfolding pre by (auto dest: set_takeWhileD)
  note p = overlap_pre[OF o(1) assms(3) this assms(5)]
  have "0 < blocks_end lo pre" using blocks_end_ge[OF o(1)] assms(2) by simp
  moreover have "b \<le> fst (hd post)" if "post \<noteq> []"
    using hd_dropWhile[of "\<lambda>x. fst x < b" bs] that unfolding post by (simp add: not_less)
  moreover have "unat (b + n) = unat b + unat n" using assms(3,4) by (intro unat_add_nowrap) simp
  ultimately have "hd_addr post \<noteq> 0 \<and> hd_addr post < b + n \<longleftrightarrow> {unat b ..< unat b + unat n} \<inter> bytes post \<noteq> {}"
    by (intro overlap_post[OF o(2)])
  with p show ?thesis unfolding bs by auto
qed

lemma freemem_section_seek:
  assumes "flist_ok s c bs" and pre: "pre = takeWhile (\<lambda>x. fst x < b) bs" and post: "post = dropWhile (\<lambda>x. fst x < b) bs"
  shows "freemem_section c b n s =
    (if b < block_top pre \<or> (hd_addr post \<noteq> 0 \<and> hd_addr post < b + n) then Some (SYSERR, s)
     else do { s1 \<leftarrow> add_length c n s;
               (b', s2) \<leftarrow> freemem_coalesce_prev b n (prev_of c pre) (hd_addr post) (block_top pre) s1;
               Some (OK, freemem_coalesce_next b' (hd_addr post) s2) })"
proof -
  have bs: "bs = pre @ post" by (simp add: pre post)
  from assms(1) have inb: "inb (freelist s) c" and sg: "seg (mem s) (fl_head s c) bs 0"
    by (auto simp: flist_ok_def)
  have "freemem_seek b (Link_head c) (fl_head s c) (mem s) = Some (prev_of c pre, hd_addr post)"
    using freemem_seek_spec[OF sg, of b c "[]"] pre post by (simp add: prev_of_def[of c "[]"])
  moreover have "(case prev_of c pre of Link_head _ \<Rightarrow> 0 | Link_blk p \<Rightarrow> p + mem s (p + 4)) = block_top pre"
    using sg unfolding bs by (cases pre rule: rev_cases) (auto simp: prev_of_def block_top_def seg_append)
  ultimately show ?thesis using inb by (simp add: freemem_section_def)
qed

lemma free_fields:
  assumes ok: "blocks_ok lo hi bs" and "8 dvd unat b" "8 dvd unat n" "0 < unat n" "0 < unat b"
    and dis: "{unat b ..< unat b + unat n} \<inter> bytes bs = {}"
  shows "b \<noteq> 0" and "b \<notin> fields bs" and "b + 4 \<notin> fields bs"
    and "unat b + 4 < unat b + unat n" and "unat (b + 4) = unat b + 4"
proof -
  have "8 \<le> unat n" using assms(3,4) by (auto dest: dvd_imp_le)
  then show n: "unat b + 4 < unat b + unat n" by simp
  show b4: "unat (b + 4) = unat b + 4" using unat_plus4[OF assms(2)] .
  show "b \<noteq> 0" using assms(5) by auto
  show "b \<notin> fields bs" "b + 4 \<notin> fields bs"
    using dis n b4 assms(4) by (auto intro!: blocks_ok_not_field[OF ok] simp: disjoint_iff)
qed

lemma total_len_le:
  "blocks_ok lo hi bs \<Longrightarrow> lo \<le> hi \<Longrightarrow> lo + total_len bs \<le> hi"
proof (induction lo hi bs rule: blocks_ok.induct)
  case (2 lo hi a l bs)
  then show ?case by (cases bs) auto
qed simp

lemma flist_ok_free:
  assumes ok: "flist_ok s c bs" and b: "8 dvd unat b" "8 dvd unat n" "0 < unat n"
    and lo: "unat (mh_base (at (freelist s) c)) \<le> unat b"
    and hi: "unat b + unat n \<le> unat (mh_base (at (freelist s) c)) + unat (mh_bound (at (freelist s) c))"
    and dis: "{unat b ..< unat b + unat n} \<inter> bytes bs = {}" and sg: "seg m h (free_list b n bs) 0"
  shows "flist_ok (s\<lparr>mem := m, freelist := fl_update c h (fl_len s c + n) (freelist s)\<rparr>) c (free_list b n bs)"
proof -
  let ?lo = "unat (mh_base (at (freelist s) c))" and ?b = "unat (mh_bound (at (freelist s) c))"
  from ok have o: "inb (freelist s) c" "0 < ?lo" "?lo + ?b < 2 ^ 32" "blocks_ok ?lo (?lo + ?b) bs"
    "unat (fl_len s c) = total_len bs" by (auto simp: flist_ok_def)
  from free_list_ok[OF o(4) b lo hi o(3) dis] have r: "blocks_ok ?lo (?lo + ?b) (free_list b n bs)"
    "total_len (free_list b n bs) = total_len bs + unat n" by auto
  have "total_len (free_list b n bs) \<le> ?lo + ?b" using total_len_le[OF r(1)] by simp
  then have "unat (fl_len s c + n) = total_len (free_list b n bs)"
    using o(3,5) r(2) by (subst unat_add_nowrap) auto
  with o r sg show ?thesis by (simp add: flist_ok_def)
qed

lemma mh_head_length_commute [simp]: "h\<lparr>mh_length := x, mh_head := y\<rparr> = h\<lparr>mh_head := y, mh_length := x\<rparr>"
  by simp

lemma mem_freelist_commute [simp]: "s\<lparr>freelist := x, mem := y\<rparr> = s\<lparr>mem := y, freelist := x\<rparr>"
  by simp

lemma coalesce_spec:
  assumes inb: "inb (freelist s) c" and sg: "seg (mem s) (fl_head s c) (pre @ post) 0"
    and ok: "blocks_ok lo hi (pre @ post)" and bn: "b + n \<noteq> 0"
    and b: "b \<noteq> 0" "b \<notin> fields (pre @ post)" "b + 4 \<notin> fields (pre @ post)"
  shows "\<exists>m h. do { s1 \<leftarrow> add_length c n s;
        (b', s2) \<leftarrow> freemem_coalesce_prev b n (prev_of c pre) (hd_addr post) (block_top pre) s1;
        Some (OK, freemem_coalesce_next b' (hd_addr post) s2) } =
      Some (OK, s\<lparr>mem := m, freelist := fl_update c h (fl_len s c + n) (freelist s)\<rparr>) \<and>
    seg m h (join_prev pre (b, n) post) 0 \<and>
    (\<forall>y. y \<notin> {b, b + 4} \<union> fields (pre @ post) \<longrightarrow> m y = mem s y)"
proof -
  let ?s1 = "s\<lparr>freelist := (freelist s)[nat c := (at (freelist s) c)\<lparr>mh_length := fl_len s c + n\<rparr>]\<rparr>"
  let ?s2 = "\<lambda>m h. s\<lparr>mem := m, freelist := fl_update c h (fl_len s c + n) (freelist s)\<rparr>"
  have "\<exists>x k xs m h. freemem_coalesce_prev b n (prev_of c pre) (hd_addr post) (block_top pre) ?s1 = Some (x, ?s2 m h) \<and>
    seg m h (xs @ (x, k) # post) 0 \<and> join_prev pre (b, n) post = xs @ join_next (x, k) post \<and>
    x + k = b + n \<and> {x, x + 4} \<inter> fields (xs @ post) = {} \<and> {x, x + 4} \<subseteq> {b, b + 4} \<union> fields pre \<and>
    (\<forall>y. y \<notin> {b, b + 4} \<union> fields pre \<longrightarrow> m y = mem s y)"
    using coalesce_prev_spec[of ?s1 c pre post lo hi b n] inb sg ok b by simp
  then obtain x k xs m h where
    cp: "freemem_coalesce_prev b n (prev_of c pre) (hd_addr post) (block_top pre) ?s1 = Some (x, ?s2 m h)"
    and sx: "seg m h (xs @ (x, k) # post) 0" and j: "join_prev pre (b, n) post = xs @ join_next (x, k) post"
    and xk: "x + k = b + n" and nf: "{x, x + 4} \<inter> fields (xs @ post) = {}"
    and sub: "{x, x + 4} \<subseteq> {b, b + 4} \<union> fields pre"
    and fr: "\<forall>y. y \<notin> {b, b + 4} \<union> fields pre \<longrightarrow> m y = mem s y" by (elim exE conjE) (rule that)
  have "\<exists>m'. freemem_coalesce_next x (hd_addr post) (?s2 m h) = (?s2 m h)\<lparr>mem := m'\<rparr> \<and>
     seg m' h (xs @ join_next (x, k) post) 0 \<and> (\<forall>y. y \<noteq> x \<and> y \<noteq> x + 4 \<longrightarrow> m' y = mem (?s2 m h) y)"
    by (rule coalesce_next_spec) (use sx nf xk bn in auto)
  then obtain m' where cn: "freemem_coalesce_next x (hd_addr post) (?s2 m h) = ?s2 m' h"
    and sx': "seg m' h (xs @ join_next (x, k) post) 0" and fr': "\<forall>y. y \<noteq> x \<and> y \<noteq> x + 4 \<longrightarrow> m' y = m y" by auto
  have "m' y = mem s y" if "y \<notin> {b, b + 4} \<union> fields (pre @ post)" for y
  proof -
    have "y \<notin> {b, b + 4} \<union> fields pre" using that by simp
    then have "m y = mem s y" "y \<noteq> x" "y \<noteq> x + 4" using fr sub by auto
    with fr' show ?thesis by simp
  qed
  with cp cn sx' j inb show ?thesis
    by (intro exI[of _ m'] exI[of _ h]) (simp add: add_length_def)
qed

lemma freemem_section_spec:
  assumes ok: "flist_ok s c bs" and b: "8 dvd unat b" "8 dvd unat n" "0 < unat n"
    and lo: "unat (mh_base (at (freelist s) c)) \<le> unat b"
    and hi: "unat b + unat n \<le> unat (mh_base (at (freelist s) c)) + unat (mh_bound (at (freelist s) c))"
  shows "if {unat b ..< unat b + unat n} \<inter> bytes bs \<noteq> {} then freemem_section c b n s = Some (SYSERR, s)
    else \<exists>m h. freemem_section c b n s =
        Some (OK, s\<lparr>mem := m, freelist := fl_update c h (fl_len s c + n) (freelist s)\<rparr>) \<and>
      flist_ok (s\<lparr>mem := m, freelist := fl_update c h (fl_len s c + n) (freelist s)\<rparr>) c (free_list b n bs) \<and>
      (\<forall>x. unat x \<notin> bytes bs \<union> {unat b ..< unat b + unat n} \<longrightarrow> m x = mem s x)"
proof -
  let ?lo = "unat (mh_base (at (freelist s) c))" and ?hi = "unat (mh_base (at (freelist s) c)) + unat (mh_bound (at (freelist s) c))"
  define pre post where p: "pre = takeWhile (\<lambda>x. fst x < b) bs" "post = dropWhile (\<lambda>x. fst x < b) bs"
  have bs: "pre @ post = bs" by (simp add: p)
  from ok have o: "inb (freelist s) c" "0 < ?lo" "?hi < 2 ^ 32" "blocks_ok ?lo ?hi bs"
    "seg (mem s) (fl_head s c) bs 0" by (auto simp: flist_ok_def)
  note sec = freemem_section_seek[OF ok p, of n, unfolded overlap_check[OF o(4,2,3) hi b(3) p]]
  show ?thesis
  proof (cases "{unat b ..< unat b + unat n} \<inter> bytes bs \<noteq> {}")
    case True
    then show ?thesis using sec by simp
  next
    case False
    then have dis: "{unat b ..< unat b + unat n} \<inter> bytes bs = {}" by simp
    have b0: "0 < unat b" using lo o(2) by simp
    note ff = free_fields[OF o(4) b b0 dis]
    have "unat (b + n) = unat b + unat n" using hi o(3) by (intro unat_add_nowrap) simp
    then have "b + n \<noteq> 0" using b0 by (metis add_is_0 less_numeral_extra(3) unat_0)
    from coalesce_spec[of s c pre post ?lo ?hi b n, unfolded bs, OF o(1,5,4) this ff(1-3)]
    obtain m h where r: "freemem_section c b n s =
          Some (OK, s\<lparr>mem := m, freelist := fl_update c h (fl_len s c + n) (freelist s)\<rparr>)"
      and sg: "seg m h (free_list b n bs) 0" and fr: "\<forall>y. y \<notin> {b, b + 4} \<union> fields bs \<longrightarrow> m y = mem s y"
      using sec dis unfolding free_list_def p[symmetric] by auto
    have "m y = mem s y" if "unat y \<notin> bytes bs \<union> {unat b ..< unat b + unat n}" for y
    proof -
      have "y \<notin> fields bs" using that by (intro blocks_ok_not_field[OF o(4)]) simp
      moreover have "y \<noteq> b" "y \<noteq> b + 4" using that ff(4,5) b(3) by auto
      ultimately show ?thesis using fr by simp
    qed
    with r flist_ok_free[OF ok b lo hi dis sg] dis show ?thesis by auto
  qed
qed

end
