(* ===== verification/Heap_Contract.thy ===== *)
theory Heap_Contract
  imports Heap_Memory
begin

text \<open>
  The heap as its users see it. \<open>heap_rep s Fs\<close> says that the per-core free lists of \<open>s\<close>
  represent the block lists \<open>Fs\<close>; the locale \<open>heap_alloc\<close> states the contract of an allocator
  and derives what clients need, and \<open>getmem\<close> and \<open>freemem\<close> are shown to meet it. \<open>heap_run\<close>
  is an arbitrary history of allocations, frees and writes by the owners of live blocks.
\<close>

section \<open>The lists of all cores\<close>

definition region :: "memhead \<Rightarrow> nat set" where
  "region h = {unat (mh_base h) ..< unat (mh_base h) + unat (mh_bound h)}"

definition heap_rep :: "'a memst_scheme \<Rightarrow> blk list list \<Rightarrow> bool" where
  "heap_rep s Fs \<longleftrightarrow>
     length (freelist s) = nat NCORES \<and> length Fs = nat NCORES \<and>
     (\<forall>c \<in> {0 ..< NCORES}. flist_ok s c (at Fs c) \<and> lock_idle (mh_lock (at (freelist s) c)) s \<and>
        unat (memheap s) \<le> unat (mh_base (at (freelist s) c)) \<and> region (at (freelist s) c) \<subseteq> {..unat (maxaddr s)}) \<and>
     (\<forall>c \<in> {0 ..< NCORES}. \<forall>d \<in> {0 ..< NCORES}. c \<noteq> d \<longrightarrow>
        region (at (freelist s) c) \<inter> region (at (freelist s) d) = {})"

definition avail :: "blk list list \<Rightarrow> nat set" where
  "avail Fs = (\<Union>c \<in> {0 ..< NCORES}. bytes (at Fs c))"

definition layout :: "'a memst_scheme \<Rightarrow> (u32 \<times> u32 \<times> u32) list" where
  "layout s = map (\<lambda>h. (mh_base h, mh_bound h, mh_lock h)) (freelist s)"

lemma heap_repD:
  assumes "heap_rep s Fs" and "0 \<le> c" and "c < NCORES"
  shows "flist_ok s c (at Fs c)" and "lock_idle (mh_lock (at (freelist s) c)) s"
    and "unat (memheap s) \<le> unat (mh_base (at (freelist s) c))"
    and "region (at (freelist s) c) \<subseteq> {..unat (maxaddr s)}" and "inb (freelist s) c" and "inb Fs c"
  using assms by (auto simp: heap_rep_def inb_def NCORES_def)

lemma flist_ok_bytes: "flist_ok s c bs \<Longrightarrow> bytes bs \<subseteq> region (at (freelist s) c)"
  using blocks_ok_bytes by (fastforce simp: flist_ok_def region_def)

lemma flist_ok_frame:
  assumes ok: "flist_ok s d bs" and "at (freelist t) d = at (freelist s) d" and "inb (freelist t) d"
    and "\<And>x. unat x \<in> region (at (freelist s) d) \<Longrightarrow> mem t x = mem s x"
  shows "flist_ok t d bs"
proof -
  have "mem t x = mem s x" if "x \<in> fields bs" for x
    using blocks_ok_fields[OF _ that] flist_ok_bytes[OF ok] ok assms(4) by (force simp: flist_ok_def)
  then have "seg (mem t) p bs 0 = seg (mem s) p bs 0" for p by (intro seg_cong)
  with ok assms(2,3) show ?thesis by (simp add: flist_ok_def)
qed

lemma lock_idle_mem [simp]:
  "lock_idle l (s\<lparr>mem := m\<rparr>) = lock_idle l s" "lock_idle l (s\<lparr>freelist := f\<rparr>) = lock_idle l s"
  by (simp_all add: lock_idle_def)

lemma layout_upd [simp]: "layout (s\<lparr>mem := m, freelist := fl_update c h len (freelist s)\<rparr>) = layout s"
  by (cases "nat c < length (freelist s)") (simp_all add: layout_def map_update list_update_same_conv list_update_beyond)

text \<open>One core's list changes, in memory of its own region only.\<close>

lemma heap_rep_upd:
  assumes rep: "heap_rep s Fs" and c: "0 \<le> c" "c < NCORES"
    and t: "t = s\<lparr>mem := m, freelist := fl_update c h len (freelist s)\<rparr>" and ok: "flist_ok t c bs"
    and fr: "\<And>x. unat x \<notin> region (at (freelist s) c) \<Longrightarrow> m x = mem s x"
  shows "heap_rep t (Fs[nat c := bs])"
proof -
  note C = heap_repD[OF rep c]
  have reg: "region (at (freelist t) d) = region (at (freelist s) d)"
    and lk: "mh_lock (at (freelist t) d) = mh_lock (at (freelist s) d)"
    and bs: "mh_base (at (freelist t) d) = mh_base (at (freelist s) d)"
    if "0 \<le> d" for d
    using C(5) that c by (cases "d = c"; simp add: t region_def)+
  have "flist_ok t d (at (Fs[nat c := bs]) d)" if d: "0 \<le> d" "d < NCORES" for d
  proof (cases "d = c")
    case True
    then show ?thesis using ok C(6) by simp
  next
    case False
    note D = heap_repD[OF rep d]
    have "flist_ok t d (at Fs d)"
    proof (rule flist_ok_frame[OF D(1)])
      show "at (freelist t) d = at (freelist s) d" using False d c by (simp add: t)
      show "inb (freelist t) d" using D(5) by (simp add: t)
      fix x :: u32
      assume "unat x \<in> region (at (freelist s) d)"
      moreover have "region (at (freelist s) c) \<inter> region (at (freelist s) d) = {}"
        using rep c d False by (simp add: heap_rep_def)
      ultimately show "mem t x = mem s x" using fr by (auto simp: t)
    qed
    then show ?thesis using False d c by simp
  qed
  then show ?thesis using rep reg lk bs
    by (auto simp: heap_rep_def t)
qed


lemma which_freelist_region:
  assumes "\<And>d. 0 \<le> d \<Longrightarrow> d < int (length (freelist s)) \<Longrightarrow>
      unat (mh_base (at (freelist s) d)) + unat (mh_bound (at (freelist s) d)) < 2 ^ 32 \<and>
      (unat p \<in> region (at (freelist s) d) \<longleftrightarrow> d = c)"
  shows "0 \<le> n \<Longrightarrow> n + int k = int (length (freelist s)) \<Longrightarrow>
    which_freelist k n p s = Some (if n \<le> c \<and> c < int (length (freelist s)) then c else int (length (freelist s)))"
proof (induction k arbitrary: n)
  case 0
  then show ?case by simp
next
  case (Suc k)
  then have b: "inb (freelist s) n" by auto
  have a: "unat (mh_base (at (freelist s) n)) + unat (mh_bound (at (freelist s) n)) < 2 ^ 32"
    "unat p \<in> region (at (freelist s) n) \<longleftrightarrow> n = c" using assms[of n] Suc.prems by auto
  then have "mh_base (at (freelist s) n) \<le> p \<and> p < mh_base (at (freelist s) n) + mh_bound (at (freelist s) n) \<longleftrightarrow> n = c"
    by (simp add: word_le_nat_alt word_less_nat_alt region_def unat_add_nowrap)
  with Suc b show ?case by auto
qed

lemma which_freelist_rep:
  assumes rep: "heap_rep s Fs" and c: "0 \<le> c" "c < NCORES" and p: "unat p \<in> region (at (freelist s) c)"
  shows "which_freelist (nat NCORES) 0 p s = Some c"
proof -
  have l: "int (length (freelist s)) = NCORES" using rep by (simp add: heap_rep_def NCORES_def)
  have "unat p \<in> region (at (freelist s) d) \<longleftrightarrow> d = c" if "0 \<le> d" "d < NCORES" for d
    using rep c that p unfolding heap_rep_def by (metis (no_types, lifting) atLeastLessThan_iff disjoint_iff)
  then show ?thesis
    using which_freelist_region[of s p c 0 "nat NCORES"] heap_repD(1)[OF rep] l c
    by (simp add: flist_ok_def NCORES_def)
qed

text \<open>A pointer that passes the range check but lies in no region indexes past the array.\<close>

lemma which_freelist_outside:
  assumes rep: "heap_rep s Fs" and p: "\<And>c. 0 \<le> c \<Longrightarrow> c < NCORES \<Longrightarrow> unat p \<notin> region (at (freelist s) c)"
  shows "which_freelist (nat NCORES) 0 p s = Some NCORES"
proof -
  have l: "int (length (freelist s)) = NCORES" using rep by (simp add: heap_rep_def NCORES_def)
  show ?thesis
    using which_freelist_region[of s p "-1" 0 "nat NCORES"] heap_repD(1)[OF rep] l p
    by (simp add: flist_ok_def NCORES_def)
qed

lemma getmem_rep:
  assumes rep: "heap_rep s Fs" and c: "0 \<le> c" "c < NCORES" and nb: "nbytes \<noteq> 0" "unat nbytes \<le> 2 ^ 32 - 8"
    and n: "n = roundmb nbytes"
  shows "case alloc_list n (at Fs c) of
      None \<Rightarrow> getmem c nbytes s = Some (SYSERRP, s)
    | Some (p, bs) \<Rightarrow> \<exists>t. getmem c nbytes s = Some (p, t) \<and> heap_rep t (Fs[nat c := bs]) \<and>
        layout t = layout s \<and> (\<exists>m fl. t = s\<lparr>mem := m, freelist := fl\<rparr>) \<and>
        (\<forall>x. unat x \<notin> bytes (at Fs c) \<longrightarrow> mem t x = mem s x)"
proof (cases "alloc_list n (at Fs c)")
  case None
  then show ?thesis using getmem_spec[OF heap_repD(1,2)[OF rep c] nb n] by simp
next
  case (Some pr)
  obtain p bs where pr: "pr = (p, bs)" by (cases pr)
  note C = heap_repD[OF rep c]
  from getmem_spec[OF C(1,2) nb n] Some pr obtain m h where
    g: "getmem c nbytes s = Some (p, s\<lparr>mem := m, freelist := fl_update c h (fl_len s c - n) (freelist s)\<rparr>)"
    and ok: "flist_ok (s\<lparr>mem := m, freelist := fl_update c h (fl_len s c - n) (freelist s)\<rparr>) c bs"
    and fr: "\<forall>x. unat x \<notin> bytes (at Fs c) \<longrightarrow> m x = mem s x" by auto
  have "\<And>x. unat x \<notin> region (at (freelist s) c) \<Longrightarrow> m x = mem s x"
    using fr flist_ok_bytes[OF C(1)] by blast
  from heap_rep_upd[OF rep c refl ok this] g fr Some pr show ?thesis by auto
qed


lemma freemem_rep:
  assumes rep: "heap_rep s Fs" and c: "0 \<le> c" "c < NCORES" and nb: "nbytes \<noteq> 0" "unat nbytes \<le> 2 ^ 32 - 8"
    and n: "n = roundmb nbytes" and b: "8 dvd unat b" and reg: "{unat b ..< unat b + unat n} \<subseteq> region (at (freelist s) c)"
  shows "if {unat b ..< unat b + unat n} \<inter> bytes (at Fs c) \<noteq> {} then freemem cpuid b nbytes s = Some (SYSERR, s)
    else \<exists>t. freemem cpuid b nbytes s = Some (OK, t) \<and> heap_rep t (Fs[nat c := free_list b n (at Fs c)]) \<and>
        layout t = layout s \<and> (\<exists>m fl. t = s\<lparr>mem := m, freelist := fl\<rparr>) \<and>
        (\<forall>x. unat x \<notin> bytes (at Fs c) \<union> {unat b ..< unat b + unat n} \<longrightarrow> mem t x = mem s x)"
proof -
  let ?L = "mh_lock (at (freelist s) c)"
  let ?s1 = "s\<lparr>locktab := lt_hold cpuid ?L (locktab s)\<rparr>"
  let ?t = "\<lambda>m h. s\<lparr>mem := m, freelist := fl_update c h (fl_len s c + n) (freelist s)\<rparr>"
  note C = heap_repD[OF rep c] and n8 = roundmb_pos[OF nb, folded n]
  have inr: "unat b \<in> region (at (freelist s) c)" using reg n8(2) by auto
  have hi: "unat b + unat n \<le> unat (mh_base (at (freelist s) c)) + unat (mh_bound (at (freelist s) c))"
    and lo: "unat (mh_base (at (freelist s) c)) \<le> unat b"
    using reg n8(2) by (auto simp: region_def dest: spec[of _ "unat b + unat n - 1"] elim!: subsetD[THEN atLeastLessThan_iff[THEN iffD1]])
  have "\<not> (b < memheap s \<or> b > maxaddr s)"
    using inr C(3,4) lo by (auto simp: word_less_nat_alt)
  then have fm: "freemem cpuid b nbytes s = locked cpuid ?L (freemem_section c b n) s"
    using nb(1) C(5) which_freelist_rep[OF rep c inr] n by (simp add: freemem_def)
  have ok1: "flist_ok ?s1 c (at Fs c)" using C(1) by simp
  note sec = freemem_section_spec[OF ok1 b n8(1,2), simplified, OF lo hi]
  show ?thesis
  proof (cases "{unat b ..< unat b + unat n} \<inter> bytes (at Fs c) = {}")
    case False
    with sec have "freemem_section c b n ?s1 = Some (SYSERR, ?s1)" by auto
    from locked_runs[OF C(2), where body = "freemem_section c b n", OF this] fm False show ?thesis by simp
  next
    case True
    with sec obtain m h where r: "freemem_section c b n ?s1 = Some (OK, ?s1\<lparr>mem := m, freelist := fl_update c h (fl_len s c + n) (freelist s)\<rparr>)"
      and ok: "flist_ok (?t m h) c (free_list b n (at Fs c))"
      and fr: "\<forall>x. unat x \<notin> bytes (at Fs c) \<union> {unat b ..< unat b + unat n} \<longrightarrow> m x = mem s x"
      by (auto simp: flist_ok_def)
    from locked_runs[OF C(2), where body = "freemem_section c b n", OF r] fm
    have f: "freemem cpuid b nbytes s = Some (OK, ?t m h)" by simp
    have "\<And>x. unat x \<notin> region (at (freelist s) c) \<Longrightarrow> m x = mem s x"
      using fr flist_ok_bytes[OF C(1)] reg by blast
    from heap_rep_upd[OF rep c refl ok this] f fr True show ?thesis by auto
  qed
qed

section \<open>Canonical lists\<close>

lemma first_block:
  assumes "blocks_ok lo hi ((a, l) # bs)"
  shows "\<And>x. x \<in> bytes ((a, l) # bs) \<Longrightarrow> unat a \<le> x" and "{unat a ..< unat a + unat l} \<subseteq> bytes ((a, l) # bs)"
    and "unat a \<in> bytes ((a, l) # bs)" and "unat a + unat l \<notin> bytes ((a, l) # bs)"
    and "bytes bs = bytes ((a, l) # bs) - {unat a ..< unat a + unat l}"
proof -
  have b: "bytes bs \<subseteq> {Suc (unat a + unat l) ..< hi}" using assms blocks_ok_bytes[of _ hi bs] by simp
  show "\<And>x. x \<in> bytes ((a, l) # bs) \<Longrightarrow> unat a \<le> x" using b by (auto simp: bytes_of_def)
  show "{unat a ..< unat a + unat l} \<subseteq> bytes ((a, l) # bs)" by (auto simp: bytes_of_def)
  show "unat a \<in> bytes ((a, l) # bs)" using assms by (auto simp: bytes_of_def)
  show "unat a + unat l \<notin> bytes ((a, l) # bs)" using b by (auto simp: bytes_of_def)
  show "bytes bs = bytes ((a, l) # bs) - {unat a ..< unat a + unat l}" using b by (auto simp: bytes_of_def)
qed

text \<open>The representation is canonical: a coalesced list is determined by the bytes it covers.\<close>

lemma blocks_canonical:
  "blocks_ok lo hi bs \<Longrightarrow> blocks_ok lo hi cs \<Longrightarrow> bytes bs = bytes cs \<Longrightarrow> bs = cs"
proof (induction bs arbitrary: lo cs)
  case Nil
  show ?case
  proof (cases cs)
    case (Cons c cs')
    then have "unat (fst c) \<in> bytes cs" using first_block(3)[of lo hi "fst c" "snd c" cs'] Nil.prems(2) by simp
    with Nil.prems(3) show ?thesis by simp
  qed simp
next
  case (Cons b bs)
  obtain a l where b: "b = (a, l)" by (cases b)
  have "cs \<noteq> []" using first_block(3)[of lo hi a l bs] Cons.prems b by auto
  then obtain c k cs' where cs: "cs = (c, k) # cs'" by (cases cs) auto
  note B = first_block[OF Cons.prems(1)[unfolded b]] and C = first_block[OF Cons.prems(2)[unfolded cs]]
  have eq: "bytes ((a, l) # bs) = bytes ((c, k) # cs')" using Cons.prems(3) b cs by simp
  have "unat a \<le> unat c" "unat c \<le> unat a" using B(1) C(1) B(3) C(3) unfolding eq by blast+
  then have ac: "a = c" by (simp add: word_unat_eq_iff)
  have "unat a + unat l \<notin> {unat c ..< unat c + unat k}" using B(4) C(2) unfolding eq by blast
  moreover have "unat c + unat k \<notin> {unat a ..< unat a + unat l}" using C(4) B(2) unfolding eq by blast
  ultimately have "unat l = unat k" using ac by simp
  then have lk: "l = k" by (simp add: word_unat_eq_iff)
  have "bytes bs = bytes cs'" using B(5) C(5) eq ac lk by simp
  with Cons.IH[of "Suc (unat a + unat l)" cs'] Cons.prems b cs ac lk show ?case by simp
qed

lemma avail_update:
  assumes "inb Fs c" and "c < NCORES" and "bytes (at Fs c) \<union> bytes bs \<subseteq> X"
    and "\<And>d. 0 \<le> d \<Longrightarrow> d < NCORES \<Longrightarrow> d \<noteq> c \<Longrightarrow> bytes (at Fs d) \<inter> X = {}"
  shows "avail (Fs[nat c := bs]) = avail Fs - bytes (at Fs c) \<union> bytes bs"
proof -
  let ?R = "\<lambda>x. \<exists>d. 0 \<le> d \<and> d < NCORES \<and> d \<noteq> c \<and> x \<in> bytes (at Fs d)"
  have c: "0 \<le> c" using assms(1) by (simp add: inb_def)
  have at: "at (Fs[nat c := bs]) d = (if d = c then bs else at Fs d)" if "0 \<le> d" for d
    using that c assms(1) by simp
  have "x \<in> avail (Fs[nat c := bs]) \<longleftrightarrow> x \<in> bytes bs \<or> ?R x" for x
  proof -
    have "x \<in> avail (Fs[nat c := bs]) \<longleftrightarrow> (\<exists>d. 0 \<le> d \<and> d < NCORES \<and> x \<in> bytes (if d = c then bs else at Fs d))"
      unfolding avail_def UN_iff bex_simps Bex_def atLeastLessThan_iff by (simp add: at cong: conj_cong)
    then show ?thesis using c assms(2) by (auto split: if_splits)
  qed
  moreover have "x \<in> avail Fs - bytes (at Fs c) \<longleftrightarrow> ?R x" for x
  proof -
    have "x \<in> avail Fs \<longleftrightarrow> x \<in> bytes (at Fs c) \<or> ?R x"
      unfolding avail_def using c assms(2) by auto
    moreover have "?R x \<Longrightarrow> x \<notin> bytes (at Fs c)" using assms(3,4) by (metis UnCI disjoint_iff subsetD)
    ultimately show ?thesis by blast
  qed
  ultimately show ?thesis by blast
qed


section \<open>The contract of an allocator\<close>

text \<open>
  What users of a heap rely on. \<open>F\<close> stands for the free memory a state represents, \<open>avail\<close>
  for its addresses, \<open>owned\<close> for the blocks that lie within the heap's layout.
\<close>

locale heap_alloc =
  fixes alloc :: "int \<Rightarrow> 'n \<Rightarrow> 's \<Rightarrow> ('p \<times> 's) option"
    and release :: "int \<Rightarrow> 'p \<Rightarrow> 'n \<Rightarrow> 's \<Rightarrow> (int \<times> 's) option"
    and poke :: "'a \<Rightarrow> 'v \<Rightarrow> 's \<Rightarrow> 's"
    and addr :: "'a \<Rightarrow> nat"
    and rep :: "'s \<Rightarrow> 'f \<Rightarrow> bool"
    and lay :: "'s \<Rightarrow> 'l"
    and free_addrs :: "'f \<Rightarrow> nat set"
    and block :: "'p \<times> 'n \<Rightarrow> nat set"
    and owned :: "'l \<Rightarrow> 'p \<times> 'n \<Rightarrow> bool"
    and good :: "int \<Rightarrow> 'n \<Rightarrow> bool"
    and fail :: 'p
  assumes alloc_returns: "rep s F \<Longrightarrow> good c n \<Longrightarrow> \<exists>p t. alloc c n s = Some (p, t)"
    and alloc_fail: "rep s F \<Longrightarrow> good c n \<Longrightarrow> alloc c n s = Some (fail, t) \<Longrightarrow> t = s"
    and alloc_block: "rep s F \<Longrightarrow> good c n \<Longrightarrow> alloc c n s = Some (p, t) \<Longrightarrow> p \<noteq> fail \<Longrightarrow>
      owned (lay s) (p, n) \<and> block (p, n) \<subseteq> free_addrs F \<and> lay t = lay s \<and>
      (\<exists>G. rep t G \<and> free_addrs G = free_addrs F - block (p, n))"
    and release_block: "rep s F \<Longrightarrow> owned (lay s) (p, n) \<Longrightarrow> block (p, n) \<inter> free_addrs F = {} \<Longrightarrow>
      \<exists>t G. release c p n s = Some (OK, t) \<and> rep t G \<and> lay t = lay s \<and> free_addrs G = free_addrs F \<union> block (p, n)"
    and release_overlap: "rep s F \<Longrightarrow> owned (lay s) (p, n) \<Longrightarrow> block (p, n) \<inter> free_addrs F \<noteq> {} \<Longrightarrow>
      release c p n s = Some (SYSERR, s)"
    and poke_rep: "rep s F \<Longrightarrow> addr x \<notin> free_addrs F \<Longrightarrow> rep (poke x v s) F \<and> lay (poke x v s) = lay s"
    and canonical: "rep s F \<Longrightarrow> rep t G \<Longrightarrow> lay s = lay t \<Longrightarrow> free_addrs F = free_addrs G \<Longrightarrow> F = G"
    and block_nonempty: "owned l (p, n) \<Longrightarrow> block (p, n) \<noteq> {}"
begin

lemma alloc_then_release:
  assumes "rep s F" "good c n" "alloc c n s = Some (p, t)" "p \<noteq> fail"
  shows "\<exists>u. release d p n t = Some (OK, u) \<and> rep u F \<and> lay u = lay s"
proof -
  from alloc_block[OF assms] obtain G where G: "owned (lay s) (p, n)" "block (p, n) \<subseteq> free_addrs F" "lay t = lay s"
    "rep t G" "free_addrs G = free_addrs F - block (p, n)" by blast
  then have "block (p, n) \<inter> free_addrs G = {}" by blast
  from release_block[OF G(4) _ this, of d] G obtain u H where u: "release d p n t = Some (OK, u)" "rep u H"
    "lay u = lay s" "free_addrs H = free_addrs G \<union> block (p, n)" by auto
  then have "free_addrs F = free_addrs H" using G(2,5) by blast
  with canonical[OF assms(1) u(2)] u show ?thesis by auto
qed

lemma release_twice:
  assumes "rep s F" "owned (lay s) (p, n)" "release c p n s = Some (OK, t)" "block (p, n) \<inter> free_addrs F = {}"
  shows "release d p n t = Some (SYSERR, t)"
proof -
  from release_block[OF assms(1,2,4), of c] assms(3) obtain G where "rep t G" "lay t = lay s"
    "free_addrs G = free_addrs F \<union> block (p, n)" by auto
  with block_nonempty[OF assms(2)] show ?thesis by (intro release_overlap) (auto simp: assms(2))
qed

text \<open>The blocks handed out and not yet returned, against the memory the heap started with.\<close>

definition live_ok :: "'l \<Rightarrow> 'f \<Rightarrow> 'f \<Rightarrow> ('p \<times> 'n) list \<Rightarrow> bool" where
  "live_ok l F0 F L \<longleftrightarrow>
     sorted_wrt (\<lambda>x y. block x \<inter> block y = {}) L \<and>
     (\<forall>x \<in> set L. owned l x \<and> block x \<inter> free_addrs F = {}) \<and>
     free_addrs F0 = free_addrs F \<union> (\<Union>x \<in> set L. block x)"

lemma live_alloc:
  assumes "rep s F" "live_ok (lay s) F0 F L" "good c n" "alloc c n s = Some (p, t)" "p \<noteq> fail"
  shows "\<exists>G. rep t G \<and> lay t = lay s \<and> live_ok (lay s) F0 G ((p, n) # L)"
proof -
  from alloc_block[OF assms(1,3-5)] obtain G where G: "owned (lay s) (p, n)" "block (p, n) \<subseteq> free_addrs F" "lay t = lay s"
    "rep t G" "free_addrs G = free_addrs F - block (p, n)" by blast
  have "block (p, n) \<inter> block y = {}" if "y \<in> set L" for y
    using assms(2) that G(2) unfolding live_ok_def by blast
  then have "sorted_wrt (\<lambda>x y. block x \<inter> block y = {}) ((p, n) # L)"
    using assms(2) by (simp add: live_ok_def)
  moreover have "\<forall>x \<in> set ((p, n) # L). owned (lay s) x \<and> block x \<inter> free_addrs G = {}"
    using assms(2) G(1,5) unfolding live_ok_def by auto
  moreover have "free_addrs F0 = free_addrs G \<union> (\<Union>x \<in> set ((p, n) # L). block x)"
    using assms(2) G(2,5) unfolding live_ok_def by auto
  ultimately have "live_ok (lay s) F0 G ((p, n) # L)" unfolding live_ok_def by blast
  with G show ?thesis by blast
qed

lemma live_release:
  assumes "rep s F" "live_ok (lay s) F0 F (xs @ (p, n) # ys)"
  shows "\<exists>t G. release c p n s = Some (OK, t) \<and> rep t G \<and> lay t = lay s \<and> live_ok (lay s) F0 G (xs @ ys)"
proof -
  from assms(2) have o: "owned (lay s) (p, n)" "block (p, n) \<inter> free_addrs F = {}" by (auto simp: live_ok_def)
  from release_block[OF assms(1) this] obtain t G where t: "release c p n s = Some (OK, t)" "rep t G"
    "lay t = lay s" "free_addrs G = free_addrs F \<union> block (p, n)" by blast
  moreover have "\<forall>y \<in> set (xs @ ys). block y \<inter> block (p, n) = {}"
    using assms(2) by (auto simp: live_ok_def sorted_wrt_append)
  then have "\<forall>y \<in> set (xs @ ys). owned (lay s) y \<and> block y \<inter> free_addrs G = {}"
    using assms(2) t(4) unfolding live_ok_def by auto
  moreover have "free_addrs F0 = free_addrs G \<union> (\<Union>x \<in> set (xs @ ys). block x)"
    using assms(2) t(4) unfolding live_ok_def by auto
  moreover have "sorted_wrt (\<lambda>x y. block x \<inter> block y = {}) (xs @ ys)"
    using assms(2) by (auto simp: live_ok_def sorted_wrt_append)
  ultimately show ?thesis unfolding live_ok_def by blast
qed

lemma live_poke:
  assumes "rep s F" "live_ok (lay s) F0 F L" "(p, n) \<in> set L" "addr x \<in> block (p, n)"
  shows "rep (poke x v s) F \<and> lay (poke x v s) = lay s"
  using assms by (intro poke_rep) (auto simp: live_ok_def)

end

section \<open>getmem and freemem meet the contract\<close>

definition poke :: "u32 \<Rightarrow> u32 \<Rightarrow> 'a memst_scheme \<Rightarrow> 'a memst_scheme" where
  "poke x v s = s\<lparr>mem := (mem s)(x := v)\<rparr>"

definition req_ok :: "u32 \<Rightarrow> bool" where
  "req_ok n \<longleftrightarrow> n \<noteq> 0 \<and> unat n \<le> 2 ^ 32 - 8"

definition blk_bytes :: "u32 \<times> u32 \<Rightarrow> nat set" where
  "blk_bytes x = {unat (fst x) ..< unat (fst x) + unat (roundmb (snd x))}"

definition in_layout :: "(u32 \<times> u32 \<times> u32) list \<Rightarrow> u32 \<times> u32 \<Rightarrow> bool" where
  "in_layout l x \<longleftrightarrow> req_ok (snd x) \<and> 8 dvd unat (fst x) \<and>
     (\<exists>(base, bnd, lk) \<in> set l. blk_bytes x \<subseteq> {unat base ..< unat base + unat bnd})"

lemma in_layoutE:
  assumes "in_layout (layout s) x" and "heap_rep s Fs"
  obtains c where "0 \<le> c" "c < NCORES" "blk_bytes x \<subseteq> region (at (freelist s) c)"
    "snd x \<noteq> 0" "unat (snd x) \<le> 2 ^ 32 - 8" "8 dvd unat (fst x)"
proof -
  from assms(1) obtain h where h: "h \<in> set (freelist s)" "blk_bytes x \<subseteq> region h"
    by (auto simp: in_layout_def layout_def region_def)
  from in_set_at[OF h(1)] obtain c where "inb (freelist s) c" "at (freelist s) c = h" by blast
  moreover have "int (length (freelist s)) = NCORES" using assms(2) by (simp add: heap_rep_def NCORES_def)
  ultimately show thesis using that[of c] h(2) assms(1) by (auto simp: inb_def in_layout_def req_ok_def)
qed

lemma region_in_layout:
  "inb (freelist s) c \<Longrightarrow> req_ok (snd x) \<Longrightarrow> 8 dvd unat (fst x) \<Longrightarrow> blk_bytes x \<subseteq> region (at (freelist s) c) \<Longrightarrow>
   in_layout (layout s) x"
  using at_in_set[of "freelist s" c] by (fastforce simp: in_layout_def layout_def region_def)

lemma avail_region:
  assumes rep: "heap_rep s Fs" and c: "0 \<le> c" "c < NCORES"
  shows "avail Fs \<inter> region (at (freelist s) c) = bytes (at Fs c)"
proof -
  have "bytes (at Fs d) \<inter> region (at (freelist s) c) = {}" if "0 \<le> d" "d < NCORES" "d \<noteq> c" for d
    using flist_ok_bytes[OF heap_repD(1)[OF rep that(1,2)]] rep c that by (fastforce simp: heap_rep_def)
  then show ?thesis using flist_ok_bytes[OF heap_repD(1)[OF rep c]] c by (fastforce simp: avail_def)
qed

lemma avail_set:
  assumes rep: "heap_rep s Fs" and c: "0 \<le> c" "c < NCORES" and bs: "bytes bs \<subseteq> region (at (freelist s) c)"
  shows "avail (Fs[nat c := bs]) = avail Fs - bytes (at Fs c) \<union> bytes bs"
proof (rule avail_update)
  show "inb Fs c" "c < NCORES" using heap_repD(6)[OF rep c] c by auto
  show "bytes (at Fs c) \<union> bytes bs \<subseteq> region (at (freelist s) c)"
    using bs flist_ok_bytes[OF heap_repD(1)[OF rep c]] by simp
  show "bytes (at Fs d) \<inter> region (at (freelist s) c) = {}" if "0 \<le> d" "d < NCORES" "d \<noteq> c" for d
    using flist_ok_bytes[OF heap_repD(1)[OF rep that(1,2)]] rep c that by (fastforce simp: heap_rep_def)
qed

lemma heap_rep_poke:
  assumes rep: "heap_rep s Fs" and x: "\<And>x. unat x \<in> avail Fs \<Longrightarrow> m x = mem s x"
  shows "heap_rep (s\<lparr>mem := m\<rparr>) Fs"
proof -
  have "flist_ok (s\<lparr>mem := m\<rparr>) c (at Fs c)" if c: "0 \<le> c" "c < NCORES" for c
  proof -
    have ok: "flist_ok s c (at Fs c)" by (rule heap_repD(1)[OF rep c])
    have "m x = mem s x" if "x \<in> fields (at Fs c)" for x
      using ok blocks_ok_fields[OF _ that] c x by (force simp: flist_ok_def avail_def)
    then have "seg m p (at Fs c) 0 = seg (mem s) p (at Fs c) 0" for p by (intro seg_cong)
    with ok show ?thesis by (simp add: flist_ok_def)
  qed
  with rep show ?thesis by (simp add: heap_rep_def)
qed

lemma heap_rep_canonical:
  assumes s: "heap_rep s Fs" and t: "heap_rep t Gs" and l: "layout s = layout t" and a: "avail Fs = avail Gs"
  shows "Fs = Gs"
proof (rule nth_equalityI)
  show "length Fs = length Gs" using s t by (simp add: heap_rep_def)
  fix i assume "i < length Fs"
  then have c: "0 \<le> int i" "int i < NCORES" using s by (auto simp: heap_rep_def NCORES_def)
  have "layout s ! i = layout t ! i" using l by simp
  then have e: "mh_base (freelist s ! i) = mh_base (freelist t ! i)" "mh_bound (freelist s ! i) = mh_bound (freelist t ! i)"
    using heap_repD(5)[OF s c] heap_repD(5)[OF t c] by (auto simp: layout_def inb_def)
  then have "bytes (Fs ! i) = bytes (Gs ! i)"
    using avail_region[OF s c] avail_region[OF t c] a by (simp add: region_def)
  with heap_repD(1)[OF s c] heap_repD(1)[OF t c] e show "Fs ! i = Gs ! i"
    by (intro blocks_canonical) (auto simp: flist_ok_def)
qed

lemma getmem_block:
  assumes rep: "heap_rep s Fs" and g: "0 \<le> c \<and> c < NCORES \<and> req_ok n" and al: "alloc_list (roundmb n) (at Fs c) = Some (p, bs)"
  shows "p \<noteq> SYSERRP" and "in_layout (layout s) (p, n)" and "blk_bytes (p, n) \<subseteq> bytes (at Fs c)"
    and "avail (Fs[nat c := bs]) = avail Fs - blk_bytes (p, n)"
proof -
  let ?h = "at (freelist s) c"
  from g have c: "0 \<le> c" "c < NCORES" and n: "n \<noteq> 0" "unat n \<le> 2 ^ 32 - 8" by (auto simp: req_ok_def)
  note C = heap_repD[OF rep c] and r = roundmb_pos[OF n]
  from C(1) have "blocks_ok (unat (mh_base ?h)) (unat (mh_base ?h) + unat (mh_bound ?h)) (at Fs c)"
    "unat (mh_base ?h) + unat (mh_bound ?h) \<le> 2 ^ 32" by (auto simp: flist_ok_def)
  from alloc_list_Some[OF al this r(1,2)] have a: "8 dvd unat p" "bytes (at Fs c) = blk_bytes (p, n) \<union> bytes bs"
    "blk_bytes (p, n) \<inter> bytes bs = {}" by (auto simp: blk_bytes_def)
  show "p \<noteq> SYSERRP" using a(1) by (auto simp: SYSERRP_eq)
  show sub: "blk_bytes (p, n) \<subseteq> bytes (at Fs c)" using a(2) by simp
  show "in_layout (layout s) (p, n)"
    using sub flist_ok_bytes[OF C(1)] g a(1) by (intro region_in_layout[OF C(5)]) auto
  have "bytes (at Fs c) \<subseteq> avail Fs" using c by (auto simp: avail_def)
  then show "avail (Fs[nat c := bs]) = avail Fs - blk_bytes (p, n)"
    using a(2,3) flist_ok_bytes[OF C(1)] by (subst avail_set[OF rep c]) auto
qed


lemma freemem_block:
  assumes rep: "heap_rep s Fs" and own: "in_layout (layout s) (p, n)"
  shows "if blk_bytes (p, n) \<inter> avail Fs \<noteq> {} then freemem c p n s = Some (SYSERR, s)
    else \<exists>t Gs. freemem c p n s = Some (OK, t) \<and> heap_rep t Gs \<and> layout t = layout s \<and> avail Gs = avail Fs \<union> blk_bytes (p, n)"
proof -
  from in_layoutE[OF own rep] obtain d where d: "0 \<le> d" "d < NCORES" "blk_bytes (p, n) \<subseteq> region (at (freelist s) d)"
    and n: "n \<noteq> 0" "unat n \<le> 2 ^ 32 - 8" and p: "8 dvd unat p" by auto
  let ?h = "at (freelist s) d"
  note D = heap_repD[OF rep d(1,2)] and r = roundmb_pos[OF n]
  have eq: "blk_bytes (p, n) \<inter> avail Fs = blk_bytes (p, n) \<inter> bytes (at Fs d)"
    using avail_region[OF rep d(1,2)] d(3) by blast
  note fm = freemem_rep[OF rep d(1,2) n refl p, of c, folded blk_bytes_def[of "(p, n)", simplified], OF d(3)]
  show ?thesis
  proof (cases "blk_bytes (p, n) \<inter> avail Fs = {}")
    case False
    with fm eq show ?thesis by simp
  next
    case True
    with fm eq obtain t where t: "freemem c p n s = Some (OK, t)" "layout t = layout s"
      "heap_rep t (Fs[nat d := free_list p (roundmb n) (at Fs d)])" by auto
    have lo: "unat (mh_base ?h) \<le> unat p" "unat p + unat (roundmb n) \<le> unat (mh_base ?h) + unat (mh_bound ?h)"
      using d(3) r(2) by (auto simp: blk_bytes_def region_def)
    from free_list_ok[OF _ p r(1,2) lo] D(1) True eq
    have "bytes (free_list p (roundmb n) (at Fs d)) = bytes (at Fs d) \<union> blk_bytes (p, n)"
      by (auto simp: flist_ok_def blk_bytes_def)
    moreover have "bytes (at Fs d) \<subseteq> avail Fs" using d by (auto simp: avail_def)
    ultimately have "avail (Fs[nat d := free_list p (roundmb n) (at Fs d)]) = avail Fs \<union> blk_bytes (p, n)"
      using d(3) flist_ok_bytes[OF D(1)] by (subst avail_set[OF rep d(1,2)]) auto
    with t True show ?thesis by auto
  qed
qed

interpretation hp: heap_alloc getmem freemem poke unat heap_rep layout avail blk_bytes in_layout
  "\<lambda>c n. 0 \<le> c \<and> c < NCORES \<and> req_ok n" SYSERRP
proof unfold_locales
  fix s t :: "'a memst_scheme" and F G c n p x v
  let ?good = "0 \<le> c \<and> c < NCORES \<and> req_ok n"
  have gm: "case alloc_list (roundmb n) (at F c) of None \<Rightarrow> getmem c n s = Some (SYSERRP, s)
    | Some (p, bs) \<Rightarrow> \<exists>t. getmem c n s = Some (p, t) \<and> heap_rep t (F[nat c := bs]) \<and> layout t = layout s"
    if "heap_rep s F" ?good
    using getmem_rep[OF that(1), of c n] that(2)
    by (cases "alloc_list (roundmb n) (at F c)") (auto simp: req_ok_def)
  show "\<exists>p t. getmem c n s = Some (p, t)" if "heap_rep s F" ?good
    using gm[OF that] by (auto split: option.splits)
  show "t = s" if "heap_rep s F" ?good "getmem c n s = Some (SYSERRP, t)"
    using gm[OF that(1,2)] getmem_block(1)[OF that(1,2)] that(3) by (auto split: option.splits)
  show "in_layout (layout s) (p, n) \<and> blk_bytes (p, n) \<subseteq> avail F \<and> layout t = layout s \<and>
      (\<exists>G. heap_rep t G \<and> avail G = avail F - blk_bytes (p, n))"
    if pr: "heap_rep s F" ?good "getmem c n s = Some (p, t)" "p \<noteq> SYSERRP"
  proof -
    obtain bs where al: "alloc_list (roundmb n) (at F c) = Some (p, bs)"
      and t: "heap_rep t (F[nat c := bs])" "layout t = layout s"
      using gm[OF pr(1,2)] pr(3,4) by (auto split: option.splits)
    have "bytes (at F c) \<subseteq> avail F" using pr(2) by (auto simp: avail_def)
    with t getmem_block(2-4)[OF pr(1,2) al] show ?thesis by blast
  qed
  show "\<exists>t G. freemem c p n s = Some (OK, t) \<and> heap_rep t G \<and> layout t = layout s \<and> avail G = avail F \<union> blk_bytes (p, n)"
    if "heap_rep s F" "in_layout (layout s) (p, n)" "blk_bytes (p, n) \<inter> avail F = {}"
    using freemem_block[OF that(1,2)] that(3) by auto
  show "freemem c p n s = Some (SYSERR, s)"
    if "heap_rep s F" "in_layout (layout s) (p, n)" "blk_bytes (p, n) \<inter> avail F \<noteq> {}"
    using freemem_block[OF that(1,2)] that(3) by auto
  show "heap_rep (poke x v s) F \<and> layout (poke x v s) = layout s" if "heap_rep s F" "unat x \<notin> avail F"
    unfolding poke_def using that(2) by (intro conjI heap_rep_poke[OF that(1)]) (auto simp: layout_def)
  show "F = G" if "heap_rep s F" "heap_rep t G" "layout s = layout t" "avail F = avail G"
    using heap_rep_canonical[OF that] .
  show "blk_bytes (p, n) \<noteq> {}" if "in_layout l (p, n)" for l
    using that roundmb_pos(2)[of n] by (auto simp: in_layout_def req_ok_def blk_bytes_def)
qed

text \<open>Any use of the heap: allocations by any core, frees of live blocks by any core, and
  writes by the owners of live blocks into them.\<close>

inductive heap_run :: "'a memst_scheme \<Rightarrow> 'a memst_scheme \<Rightarrow> (u32 \<times> u32) list \<Rightarrow> bool" for s0 where
  start: "heap_run s0 s0 []"
| get: "heap_run s0 s L \<Longrightarrow> 0 \<le> c \<Longrightarrow> c < NCORES \<Longrightarrow> req_ok n \<Longrightarrow> getmem c n s = Some (p, t) \<Longrightarrow> p \<noteq> SYSERRP \<Longrightarrow>
    heap_run s0 t ((p, n) # L)"
| refused: "heap_run s0 s L \<Longrightarrow> 0 \<le> c \<Longrightarrow> c < NCORES \<Longrightarrow> req_ok n \<Longrightarrow> getmem c n s = Some (SYSERRP, t) \<Longrightarrow>
    heap_run s0 t L"
| put: "heap_run s0 s (xs @ (p, n) # ys) \<Longrightarrow> freemem c p n s = Some (r, t) \<Longrightarrow> heap_run s0 t (xs @ ys)"
| store: "heap_run s0 s L \<Longrightarrow> (p, n) \<in> set L \<Longrightarrow> unat x \<in> blk_bytes (p, n) \<Longrightarrow> heap_run s0 (poke x v s) L"

lemma heap_run_inv:
  assumes "heap_run s0 s L" and "heap_rep s0 F0"
  shows "\<exists>F. heap_rep s F \<and> layout s = layout s0 \<and> hp.live_ok (layout s0) F0 F L"
  using assms
proof (induction rule: heap_run.induct)
  case start
  then show ?case by (auto simp: hp.live_ok_def)
next
  case (get s L c n p t)
  then obtain F where F: "heap_rep s F" "layout s = layout s0" "hp.live_ok (layout s) F0 F L" by auto
  from hp.live_alloc[OF F(1,3) _ get(5,6)] get(2-4) F(2) show ?case by auto
next
  case (refused s L c n t)
  then show ?case using hp.alloc_fail by blast
next
  case (put s xs p n ys c r t)
  then obtain F where F: "heap_rep s F" "layout s = layout s0" "hp.live_ok (layout s) F0 F (xs @ (p, n) # ys)" by auto
  from hp.live_release[OF F(1,3), of c] put(2) F(2) show ?case by auto
next
  case (store s L p n x v)
  then obtain F where F: "heap_rep s F" "layout s = layout s0" "hp.live_ok (layout s) F0 F L" by auto
  from hp.live_poke[OF F(1,3) store(2,3), of v] F show ?case by auto
qed



section \<open>malloc and free on the heap\<close>

lemma malloc_req:
  assumes "sz \<noteq> 0" and "unat sz \<le> 2 ^ 32 - 20"
  shows "req_ok (sz + sizeof_memblock)" and "unat (sz + sizeof_memblock) = unat sz + 12"
    and "unat sz + 12 \<le> unat (roundmb (sz + sizeof_memblock))"
proof -
  show u: "unat (sz + sizeof_memblock) = unat sz + 12"
    using assms by (simp add: sizeof_memblock_def unat_word_ariths)
  then have "sz + sizeof_memblock \<noteq> 0" by (metis add_is_0 unat_0 zero_neq_numeral)
  with u assms(2) show r: "req_ok (sz + sizeof_memblock)" by (simp add: req_ok_def)
  then show "unat sz + 12 \<le> unat (roundmb (sz + sizeof_memblock))"
    using roundmb_pos(3)[of "sz + sizeof_memblock"] u by (simp add: req_ok_def)
qed

lemma block_word:
  assumes "in_layout (layout s) (q, n)" and "heap_rep s Fs" and "k < unat (roundmb n)"
  shows "unat (q + word_of_nat k) = unat q + k" and "unat q + k \<in> blk_bytes (q, n)"
proof -
  from in_layoutE[OF assms(1,2)] obtain c where c: "0 \<le> c" "c < NCORES" "blk_bytes (q, n) \<subseteq> region (at (freelist s) c)" by auto
  show i: "unat q + k \<in> blk_bytes (q, n)" using assms(3) by (simp add: blk_bytes_def)
  with c heap_repD(1)[OF assms(2) c(1,2)] have "unat q + k < 2 ^ 32" by (fastforce simp: region_def flist_ok_def)
  moreover from this have "unat (word_of_nat k :: u32) = k" by (simp add: unat_of_nat)
  ultimately show "unat (q + word_of_nat k) = unat q + k" by (simp add: unat_add_nowrap)
qed

lemma malloc_cases:
  assumes rep: "heap_rep s Fs" and c: "0 \<le> c" "c < NCORES" and sz: "sz \<noteq> 0" "unat sz \<le> 2 ^ 32 - 20"
    and n: "n = sz + sizeof_memblock"
  shows "malloc c sz s = Some (0, s) \<or> (\<exists>q t Gs. malloc c sz s = Some (q + sizeof_memblock, t) \<and>
     unat (q + sizeof_memblock) = unat q + 12 \<and> heap_rep t Gs \<and> layout t = layout s \<and>
     in_layout (layout s) (q, n) \<and> blk_bytes (q, n) \<subseteq> avail Fs \<and> avail Gs = avail Fs - blk_bytes (q, n) \<and>
     mem t q = q \<and> mem t (q + 4) = n)"
proof -
  note r = malloc_req[OF sz, folded n]
  have g: "0 \<le> c \<and> c < NCORES \<and> req_ok n" using c r(1) by simp
  from hp.alloc_returns[OF rep g] obtain q t where gm: "getmem c n s = Some (q, t)" by blast
  show ?thesis
  proof (cases "q = SYSERRP")
    case True
    with hp.alloc_fail[OF rep g] gm have "t = s" by simp
    with True gm sz n show ?thesis by (simp add: malloc_def)
  next
    case False
    from hp.alloc_block[OF rep g gm this] obtain Gs where G: "in_layout (layout s) (q, n)" "blk_bytes (q, n) \<subseteq> avail Fs"
      "layout t = layout s" "heap_rep t Gs" "avail Gs = avail Fs - blk_bytes (q, n)" by blast
    let ?m1 = "(mem t)(q := q)"
    let ?m = "?m1(q + 8 := ?m1 (q + 8) AND NOT 0xFF, q + 4 := n)"
    have k: "k < 13 \<Longrightarrow> k < unat (roundmb n)" for k :: nat
    proof -
      have "0 < unat sz" using sz(1) by (simp add: unat_gt_0)
      then show "k < 13 \<Longrightarrow> k < unat (roundmb n)" using r(3) by simp
    qed
    note w = block_word[OF G(1) rep k]
    have a: "unat q \<in> blk_bytes (q, n)" "unat (q + 4) \<in> blk_bytes (q, n)" "unat (q + 8) \<in> blk_bytes (q, n)"
      "unat (q + 4) = unat q + 4" "unat (q + 8) = unat q + 8" "unat (q + sizeof_memblock) = unat q + 12"
      using w[of 0] w[of 4] w[of 8] w[of 12] by (simp_all add: sizeof_memblock_def)
    then have ne: "q + 4 \<noteq> q" "q + 8 \<noteq> q" "q + 8 \<noteq> q + 4" by auto
    have "?m x = mem t x" if "unat x \<in> avail Gs" for x using that a(1-3) G(5) by auto
    from heap_rep_poke[OF G(4) this] have "heap_rep (t\<lparr>mem := ?m\<rparr>) Gs" by blast
    moreover have "malloc c sz s = Some (q + sizeof_memblock, t\<lparr>mem := ?m\<rparr>)"
      using sz gm False n by (simp add: malloc_def Let_def)
    moreover have "layout (t\<lparr>mem := ?m\<rparr>) = layout s" using G(3) by (simp add: layout_def)
    moreover have "?m q = q" "?m (q + 4) = n" using ne by (simp_all add: fun_upd_def)
    ultimately show ?thesis using G a(6)
      by (intro disjI2 exI[of _ q] exI[of _ "t\<lparr>mem := ?m\<rparr>"] exI[of _ Gs]) simp
  qed
qed

lemma malloc_then_free:
  assumes rep: "heap_rep s Fs" and c: "0 \<le> c" "c < NCORES" and sz: "sz \<noteq> 0" "unat sz \<le> 2 ^ 32 - 20"
    and ml: "malloc c sz s = Some (p, t)" and p: "p \<noteq> 0"
    and wr: "\<And>x. unat x \<notin> {unat p ..< unat p + unat sz} \<Longrightarrow> m x = mem t x"
  shows "\<exists>u. free d p (t\<lparr>mem := m\<rparr>) = Some (OK, u) \<and> heap_rep u Fs"
proof -
  define n where "n = sz + sizeof_memblock"
  from malloc_cases[OF rep c sz n_def] ml p obtain q Gs where q: "p = q + sizeof_memblock" "unat p = unat q + 12"
    "heap_rep t Gs" "layout t = layout s" "in_layout (layout s) (q, n)" "blk_bytes (q, n) \<subseteq> avail Fs"
    "avail Gs = avail Fs - blk_bytes (q, n)" "mem t q = q" "mem t (q + 4) = n" by auto
  note r = malloc_req[OF sz, folded n_def]
  have "4 < unat (roundmb n)" using r(3) by simp
  from block_word(1)[OF q(5) rep this] have q4: "unat (q + 4) = unat q + 4" by simp
  have "{unat p ..< unat p + unat sz} \<subseteq> blk_bytes (q, n)" using r(3) q(2) by (auto simp: blk_bytes_def)
  with wr q(7) have "m x = mem t x" if "unat x \<in> avail Gs" for x using that by blast
  from heap_rep_poke[OF q(3) this] have rt: "heap_rep (t\<lparr>mem := m\<rparr>) Gs" by blast
  have own: "in_layout (layout (t\<lparr>mem := m\<rparr>)) (q, n)" using q(4,5) by (simp add: layout_def)
  from hp.release_block[OF rt own, of d] q(7) obtain u H where u: "freemem d q n (t\<lparr>mem := m\<rparr>) = Some (OK, u)"
    "heap_rep u H" "layout u = layout s" "avail H = avail Gs \<union> blk_bytes (q, n)"
    using q(4) by (auto simp: layout_def)
  then have "avail Fs = avail H" using q(6,7) by blast
  with hp.canonical[OF rep u(2)] u(3) have "heap_rep u Fs" using u(2) by simp
  moreover have "m q = q" "m (q + 4) = n" using wr[of q] wr[of "q + 4"] q(2,8,9) q4 by auto
  ultimately show ?thesis using u(1) q(1) by (simp add: free_def)
qed

section \<open>Properties of the heap\<close>

lemma alloc_list_first:
  "alloc_list n bs = Some (p, bs') \<Longrightarrow>
   \<exists>xs l ys. bs = xs @ (p, l) # ys \<and> (\<forall>b \<in> set xs. snd b < n) \<and> n \<le> l"
proof (induction n bs arbitrary: bs' rule: alloc_list.induct)
  case (1 n)
  then show ?case by simp
next
  case (2 n a l bs)
  show ?case
  proof (cases "n \<le> l")
    case True
    then have "p = a" using "2.prems" by (auto split: if_splits)
    with True show ?thesis by (intro exI[of _ "[]"]) auto
  next
    case False
    then have ne: "l \<noteq> n" "\<not> n < l" by auto
    with "2.prems" obtain bs2 where "alloc_list n bs = Some (p, bs2)" by auto
    from "2.IH"[OF ne this] obtain xs k ys where "bs = xs @ (p, k) # ys" "\<forall>b \<in> set xs. snd b < n" "n \<le> k" by blast
    with False show ?thesis by (intro exI[of _ "(a, l) # xs"]) auto
  qed
qed

lemma roundmb_wrap:
  assumes "unat x > 2 ^ 32 - 8"
  shows "roundmb x = 0"
proof -
  define k where "k = unat x + 7 - 2 ^ 32"
  have "unat x < 2 ^ 32" using unsigned_less[of x] by simp
  with assms have k: "7 + unat x = k + 2 ^ 32" "k < 8" by (auto simp: k_def)
  have "unat (7 + x) = (7 + unat x) mod 2 ^ 32" by (simp add: unat_word_ariths)
  also have "\<dots> = k mod 2 ^ 32" unfolding k(1) by (rule mod_add_self2)
  finally have "unat (7 + x) < 8" using k(2) by simp
  then have "unat (roundmb x) = 0"
    using unat_and_not_mask[of "7 + x" 3] by (simp add: roundmb_def mask_3_word[symmetric])
  then show ?thesis by (simp add: unat_eq_0)
qed

text \<open>A heap of four regions of 1024 bytes, for the witnesses.\<close>

definition memst_ex :: memst where
  "memst_ex = \<lparr>locktab = replicate 150 \<lparr>lk_state = SPINLOCK_USED, lk_lock = SPINLOCK_UNLOCKED, lk_core = -1\<rparr>, nextlock = 0,
     mem = (\<lambda>_. 0)(4100 := 1024, 5124 := 1024, 6148 := 1024, 7172 := 1024),
     freelist = map (\<lambda>b. \<lparr>mh_head = b, mh_length = 1024, mh_base = b, mh_bound = 1024, mh_lock = 7\<rparr>) [4096, 5120, 6144, 7168],
     memheap = 4096, maxaddr = 8192\<rparr>"

definition blocks_ex :: "blk list list" where
  "blocks_ex = [[(4096, 1024)], [(5120, 1024)], [(6144, 1024)], [(7168, 1024)]]"

lemma core_cases: "0 \<le> c \<Longrightarrow> c < NCORES \<Longrightarrow> c = 0 \<or> c = 1 \<or> c = 2 \<or> c = 3"
  by (auto simp: NCORES_def)

lemma memst_ex_rep: "heap_rep memst_ex blocks_ex"
proof -
  have "flist_ok memst_ex c (at blocks_ex c) \<and> lock_idle (mh_lock (at (freelist memst_ex) c)) memst_ex \<and>
      unat (memheap memst_ex) \<le> unat (mh_base (at (freelist memst_ex) c)) \<and>
      region (at (freelist memst_ex) c) \<subseteq> {..unat (maxaddr memst_ex)} \<and>
      region (at (freelist memst_ex) c) = {4096 + 1024 * nat c ..< 4096 + 1024 * nat c + 1024}"
    if "0 \<le> c" "c < NCORES" for c
    using core_cases[OF that]
    by (elim disjE) (auto simp: memst_ex_def blocks_ex_def flist_ok_def inb_def lock_idle_def region_def spinlock_consts)
  then show ?thesis
    by (auto simp: heap_rep_def) (auto simp: memst_ex_def blocks_ex_def NCORES_def)
qed


text \<open>
  C11. Heap integrity. Start from a well-formed heap and let any cores call \<^verbatim>\<open>getmem\<close> and
  \<^verbatim>\<open>freemem\<close> in any order, and the owners of live blocks write anything into them. Then the
  free lists are still well formed, the live blocks are pairwise disjoint and disjoint from
  free memory, no byte is lost, every live block can be freed, and once all are freed the
  free lists are exactly those of the start.
\<close>

theorem heap_integrity:
  assumes "heap_run s0 s L" and "heap_rep s0 F0"
  shows "\<exists>F. heap_rep s F \<and> sorted_wrt (\<lambda>x y. blk_bytes x \<inter> blk_bytes y = {}) L \<and>
    (\<forall>x \<in> set L. blk_bytes x \<inter> avail F = {}) \<and> avail F0 = avail F \<union> (\<Union>x \<in> set L. blk_bytes x) \<and>
    (\<forall>(p, n) \<in> set L. \<forall>c. \<exists>t. freemem c p n s = Some (OK, t)) \<and> (L = [] \<longrightarrow> F = F0)"
proof -
  from heap_run_inv[OF assms] obtain F where F: "heap_rep s F" "layout s = layout s0" "hp.live_ok (layout s) F0 F L"
    by auto
  then have "\<exists>t. freemem c p n s = Some (OK, t)" if "(p, n) \<in> set L" for p n c
    using hp.release_block[OF F(1), of p n c] that by (auto simp: hp.live_ok_def)
  moreover have "L = [] \<longrightarrow> F = F0"
    using hp.canonical[OF F(1) assms(2) F(2)] F(3) by (simp add: hp.live_ok_def)
  ultimately show ?thesis using F by (intro exI[of _ F]) (auto simp: hp.live_ok_def)
qed

lemma getmem_ex:
  assumes "n = 0x64"
  shows "\<exists>t. getmem 2 n memst_ex = Some (6144, t)"
proof -
  have "roundmb n = 104" by (simp add: assms roundmb_def)
  then show ?thesis using getmem_rep[OF memst_ex_rep, of 2 n] assms
    by (auto simp: NCORES_def blocks_ex_def)
qed

theorem heap_integrity_witness:
  "\<exists>s L F. heap_run memst_ex s L \<and> L \<noteq> [] \<and> heap_rep s F \<and> (\<forall>x \<in> set L. blk_bytes x \<inter> avail F = {})"
proof -
  from getmem_ex obtain t where t: "getmem 2 0x64 memst_ex = Some (6144, t)" by auto
  have "heap_run memst_ex t [(6144, 0x64)]"
    by (rule heap_run.get[OF heap_run.start _ _ _ t]) (simp_all add: NCORES_def req_ok_def SYSERRP_eq)
  with heap_integrity[OF this memst_ex_rep] show ?thesis by blast
qed

text \<open>
  C13. \<^verbatim>\<open>getmem\<close> allocates first fit: it fails, changing nothing, exactly when every block of
  the caller's free list is shorter than the rounded request; otherwise it takes the start of
  the first block that is long enough, 8-aligned, removes exactly those bytes from the list
  and touches no word outside of the memory that was free.
\<close>

theorem getmem_first_fit:
  assumes rep: "heap_rep s Fs" and c: "0 \<le> c" "c < NCORES" and n: "req_ok n"
  shows "(\<forall>b \<in> set (at Fs c). snd b < roundmb n) \<and> getmem c n s = Some (SYSERRP, s) \<or>
    (\<exists>p t bs xs l ys. getmem c n s = Some (p, t) \<and> heap_rep t (Fs[nat c := bs]) \<and>
       at Fs c = xs @ (p, l) # ys \<and> (\<forall>b \<in> set xs. snd b < roundmb n) \<and> roundmb n \<le> l \<and> 8 dvd unat p \<and>
       bytes bs = bytes (at Fs c) - blk_bytes (p, n) \<and> unat n \<le> card (blk_bytes (p, n)) \<and>
       (\<forall>x. unat x \<notin> bytes (at Fs c) \<longrightarrow> mem t x = mem s x))"
proof (cases "alloc_list (roundmb n) (at Fs c)")
  case None
  then have "getmem c n s = Some (SYSERRP, s)" using getmem_rep[OF rep c, of n] n by (simp add: req_ok_def)
  with None show ?thesis by (simp add: alloc_list_None)
next
  case (Some pb)
  obtain p bs where pb: "pb = (p, bs)" by (cases pb)
  with Some getmem_rep[OF rep c, of n] n obtain t where t: "getmem c n s = Some (p, t)" "heap_rep t (Fs[nat c := bs])"
    "\<forall>x. unat x \<notin> bytes (at Fs c) \<longrightarrow> mem t x = mem s x" by (auto simp: req_ok_def)
  let ?h = "at (freelist s) c"
  have r: "8 dvd unat (roundmb n)" "0 < unat (roundmb n)" "unat n \<le> unat (roundmb n)"
    using roundmb_pos[of n] n by (auto simp: req_ok_def)
  from heap_repD(1)[OF rep c] have o: "blocks_ok (unat (mh_base ?h)) (unat (mh_base ?h) + unat (mh_bound ?h)) (at Fs c)"
    "unat (mh_base ?h) + unat (mh_bound ?h) \<le> 2 ^ 32" by (auto simp: flist_ok_def)
  from alloc_list_Some[OF Some[unfolded pb] o r(1,2)] have a: "8 dvd unat p" "bytes bs = bytes (at Fs c) - blk_bytes (p, n)"
    by (auto simp: blk_bytes_def)
  from alloc_list_first[OF Some[unfolded pb]] obtain xs l ys where "at Fs c = xs @ (p, l) # ys"
    "\<forall>b \<in> set xs. snd b < roundmb n" "roundmb n \<le> l" by blast
  with t a r(3) show ?thesis by (intro disjI2) (auto simp: blk_bytes_def intro!: exI)
qed

theorem getmem_first_fit_witness:
  "heap_rep memst_ex blocks_ex \<and> req_ok 100 \<and> (\<exists>t. getmem 2 100 memst_ex = Some (6144, t))"
proof -
  have n: "req_ok 100" "roundmb 100 = 104" by (simp_all add: req_ok_def roundmb_def)
  have c: "0 \<le> (2::int)" "2 < NCORES" by (simp_all add: NCORES_def)
  have b: "at blocks_ex 2 = [(6144, 1024)]" by (simp add: blocks_ex_def)
  from getmem_first_fit[OF memst_ex_rep c n(1)] have "\<exists>p t xs l ys. getmem 2 100 memst_ex = Some (p, t) \<and> [(6144, 1024 :: u32)] = xs @ (p, l) # ys"
    unfolding b n(2) by auto
  then have "\<exists>t. getmem 2 100 memst_ex = Some (6144, t)" by (auto simp: Cons_eq_append_conv)
  with memst_ex_rep n(1) show ?thesis by blast
qed

text \<open>
  C14. \<^verbatim>\<open>freemem\<close> on an aligned block inside a heap region, called by any core: it returns
  \<open>SYSERR\<close> and changes nothing exactly when some byte of the block is free already (a double
  free, or a length that runs into free memory); otherwise it returns \<open>OK\<close> and exactly the
  bytes of the block become free, in a list that is again sorted and coalesced.
\<close>

theorem freemem_spec:
  assumes "heap_rep s Fs" and "in_layout (layout s) (p, n)"
  shows "if blk_bytes (p, n) \<inter> avail Fs \<noteq> {} then freemem c p n s = Some (SYSERR, s)
    else \<exists>t Gs. freemem c p n s = Some (OK, t) \<and> heap_rep t Gs \<and> layout t = layout s \<and> avail Gs = avail Fs \<union> blk_bytes (p, n)"
  using freemem_block[OF assms] .

theorem freemem_spec_witness:
  "heap_rep memst_ex blocks_ex \<and> in_layout (layout memst_ex) (6144, 16) \<and> freemem 1 6144 16 memst_ex = Some (SYSERR, memst_ex)"
proof -
  have r: "roundmb 16 = 16" by (simp add: roundmb_def)
  have l: "in_layout (layout memst_ex) (6144, 16)"
    by (auto simp: in_layout_def layout_def memst_ex_def blk_bytes_def req_ok_def r)
  have "(6144::nat) \<in> blk_bytes (6144, 16) \<inter> avail blocks_ex"
    by (auto simp: blk_bytes_def r avail_def blocks_ex_def NCORES_def bytes_of_def intro!: bexI[of _ 2])
  then have "blk_bytes (6144, 16) \<inter> avail blocks_ex \<noteq> {}" by blast
  then show ?thesis using freemem_spec[OF memst_ex_rep l, of 1] memst_ex_rep l by simp
qed



text \<open>
  C15. Round trip of \<^verbatim>\<open>malloc\<close> and \<^verbatim>\<open>free\<close>: whatever the caller writes into the \<open>sz\<close> bytes it
  was given, \<^verbatim>\<open>free\<close> finds the header intact, returns \<open>OK\<close> and restores the free lists.
\<close>

theorem malloc_free_roundtrip:
  assumes "heap_rep s Fs" and "0 \<le> c" "c < NCORES" and "sz \<noteq> 0" "unat sz \<le> 2 ^ 32 - 20"
    and "malloc c sz s = Some (p, t)" and "p \<noteq> 0"
    and "\<And>x. unat x \<notin> {unat p ..< unat p + unat sz} \<Longrightarrow> m x = mem t x"
  shows "\<exists>u. free d p (t\<lparr>mem := m\<rparr>) = Some (OK, u) \<and> heap_rep u Fs"
  using malloc_then_free[OF assms] .

theorem malloc_free_roundtrip_witness:
  "\<exists>t u. malloc 2 88 memst_ex = Some (6156, t) \<and> free 0 6156 (t\<lparr>mem := (mem t)(6160 := 77)\<rparr>) = Some (OK, u) \<and> heap_rep u blocks_ex"
proof -
  from getmem_ex obtain t0 where "getmem 2 100 memst_ex = Some (6144, t0)" by auto
  then obtain t where t: "malloc 2 88 memst_ex = Some (6156, t)"
    by (auto simp: malloc_def sizeof_memblock_def SYSERRP_eq Let_def)
  have "\<exists>u. free 0 6156 (t\<lparr>mem := (mem t)(6160 := 77)\<rparr>) = Some (OK, u) \<and> heap_rep u blocks_ex"
    by (rule malloc_free_roundtrip[OF memst_ex_rep _ _ _ _ t]) (auto simp: NCORES_def)
  with t show ?thesis by blast
qed

text \<open>
  C19. The range check of \<^verbatim>\<open>freemem\<close> is not enough: a pointer between \<open>memheap\<close> and
  \<open>maxaddr\<close> that lies in no core's region (\<open>maxaddr\<close> itself, for one) makes the code read
  \<^verbatim>\<open>freelist[NCORES]\<close>, past the end of the array.
\<close>

theorem freemem_outside_regions:
  assumes rep: "heap_rep s Fs" and "n \<noteq> 0" and "memheap s \<le> p" "p \<le> maxaddr s"
    and "\<And>c. 0 \<le> c \<Longrightarrow> c < NCORES \<Longrightarrow> unat p \<notin> region (at (freelist s) c)"
  shows "which_freelist (nat NCORES) 0 p s = Some NCORES \<and> freemem c p n s = None"
proof -
  have w: "which_freelist (nat NCORES) 0 p s = Some NCORES" using which_freelist_outside[OF rep assms(5)] .
  moreover have "aget (freelist s) NCORES = None" using rep by (simp add: heap_rep_def aget_None_iff inb_def NCORES_def)
  ultimately show ?thesis using assms(2-4) by (simp add: freemem_def not_less[symmetric])
qed

theorem freemem_outside_regions_witness:
  "maxaddr memst_ex = 8192 \<and> freemem 0 8192 16 memst_ex = None"
proof -
  have "unat (8192::u32) \<notin> region (at (freelist memst_ex) c)" if "0 \<le> c" "c < NCORES" for c
    using core_cases[OF that] by (auto simp: memst_ex_def region_def)
  from freemem_outside_regions[OF memst_ex_rep _ _ _ this, of 16 0] show ?thesis by (auto simp: memst_ex_def)
qed

text \<open>
  C20. A request of more than \<open>2 ^ 32 - 8\<close> bytes wraps to zero in \<^verbatim>\<open>roundmb\<close>: \<^verbatim>\<open>getmem\<close> then
  returns the first free block as allocated while it stays on the free list, unchanged.
\<close>

theorem getmem_wraps:
  assumes rep: "heap_rep s Fs" and c: "0 \<le> c" "c < NCORES" and n: "unat n > 2 ^ 32 - 8" and ne: "at Fs c = (p, l) # bs"
  shows "getmem c n s = Some (p, s) \<and> unat p \<in> avail Fs"
proof -
  note C = heap_repD[OF rep c]
  have r: "roundmb n = 0" using roundmb_wrap[OF n] .
  have n0: "n \<noteq> 0" using n by auto
  let ?L = "mh_lock (at (freelist s) c)" and ?t = "lt_hold c (mh_lock (at (freelist s) c)) (locktab s)"
  let ?body = "\<lambda>s. do { h \<leftarrow> aget (freelist s) c; getmem_loop c (roundmb n) (Link_head c) (mh_head h) s }"
  from C(1) ne have p: "fl_head s c = p" "p \<noteq> 0" "mem s (p + 4) = l" "0 < unat l" by (auto simp: flist_ok_def)
  then have l0: "l \<noteq> 0" by auto
  then have "0 < l" by (simp add: word_gt_0)
  have hd: "(at (freelist s) c)\<lparr>mh_head := p\<rparr> = at (freelist s) c" using p(1) by (cases "at (freelist s) c") simp
  have "?body (s\<lparr>locktab := ?t\<rparr>) = Some (p, s\<lparr>locktab := ?t\<rparr>)"
    using C(5) p l0 \<open>0 < l\<close> r
    by (simp add: getmem_loop.simps[of c 0 "Link_head c"] add_length_def Let_def hd)
  from locked_runs[OF C(2), where body = ?body, OF this] n0 C(5) have "getmem c n s = Some (p, s)"
    by (simp add: getmem_def)
  moreover have "unat p \<in> avail Fs" using p(4) ne c by (auto simp: avail_def bytes_of_def intro!: bexI[of _ c])
  ultimately show ?thesis by simp
qed

theorem getmem_wraps_witness:
  "getmem 3 0xFFFFFFFF memst_ex = Some (7168, memst_ex) \<and> heap_rep memst_ex blocks_ex \<and> 7168 \<in> avail blocks_ex"
  using getmem_wraps[OF memst_ex_rep, of 3 "0xFFFFFFFF" 7168 1024 "[]"] memst_ex_rep
  by (simp add: NCORES_def blocks_ex_def)

end
