(* ===== verification/Process_Table.thy ===== *)
theory Process_Table
  imports Heap_Memory
begin

text \<open>
  The process table and the rest of the kernel's global state: \<^verbatim>\<open>include/proc.h\<close>,
  \<^verbatim>\<open>include/queue.h\<close>, \<^verbatim>\<open>include/clock.h\<close> and the declarations at the top of
  \<^verbatim>\<open>system/initialize.c\<close>, \<^verbatim>\<open>system/queue.c\<close>, \<^verbatim>\<open>system/create.c\<close> and
  \<^verbatim>\<open>system/clkinit.c\<close>. \<open>procst\<close> extends the heap's state record; the operations of the
  later theories work on it. Counters that C declares \<^verbatim>\<open>ulong\<close> are 32-bit words, so that a
  decrement below zero wraps as it does in the code.
\<close>

section \<open>Constants\<close>

definition PRFREE :: int where "PRFREE = 0"
definition PRCURR :: int where "PRCURR = 1"
definition PRSUSP :: int where "PRSUSP = 2"
definition PRREADY :: int where "PRREADY = 3"
definition PRRECV :: int where "PRRECV = 4"
definition PRSEND :: int where "PRSEND = 5"

lemmas pr_consts = PRFREE_def PRCURR_def PRSUSP_def PRREADY_def PRRECV_def PRSEND_def

definition PRIORITY_LOW :: int where "PRIORITY_LOW = 0"
definition PRIORITY_MED :: int where "PRIORITY_MED = 1"
definition PRIORITY_HIGH :: int where "PRIORITY_HIGH = 2"

lemmas prio_consts = PRIORITY_LOW_def PRIORITY_MED_def PRIORITY_HIGH_def

definition QUANTUM :: u32 where "QUANTUM = 3"
definition CLKTICKS_PER_SEC :: u32 where "CLKTICKS_PER_SEC = 1000"
definition STACKMAGIC :: u32 where "STACKMAGIC = 0x0A0AAA99"
definition MINSTK :: u32 where "MINSTK = 4096"
definition INITSTK :: u32 where "INITSTK = 65536"
definition PNMLEN :: nat where "PNMLEN = 16"

definition PREG_SP :: nat where "PREG_SP = 13"
definition PREG_LR :: nat where "PREG_LR = 14"
definition PREG_PC :: nat where "PREG_PC = 15"

section \<open>Process control blocks and queue entries\<close>

record pmessage =
  hasMessage :: int
  msgin :: int
  msgout :: int
  msgqueue :: u32
  core_com_lock :: u32

record pcb =
  p_state :: int
  priority :: int
  stkbase :: u32
  stklen :: u32
  core_affinity :: int
  p_name :: "u8 list"
  regs :: "u32 list"
  msg_var :: pmessage

record qentry =
  q_next :: int
  q_prev :: int
  q_lock :: u32

text \<open>
  \<open>cpu\<close> holds, per core, the registers r0 to r15 that \<^verbatim>\<open>ctxsw\<close> saves and loads.
\<close>

record procst = memst +
  proctab :: "pcb list"
  queuetab :: "qentry list"
  nextqueue :: int
  readylist :: "u32 list list"
  currpid :: "int list"
  numproc :: int
  nextpid :: int
  preempt :: "u32 list"
  promote_medium :: "u32 list"
  promote_low :: "u32 list"
  clkticks :: "u32 list"
  clktime :: "u32 list"
  cpu :: "u32 list list"

definition isbadpid :: "int \<Rightarrow> 'a procst_scheme \<Rightarrow> bool option" where
  "isbadpid x s =
     (if x < 0 \<or> x \<ge> NPROC then Some True
      else do { p \<leftarrow> aget (proctab s) x; Some (PRFREE = p_state p) })"

text \<open>Storing into one entry of the process table, out of bounds included.\<close>

definition upd_pcb :: "int \<Rightarrow> (pcb \<Rightarrow> pcb) \<Rightarrow> 'a procst_scheme \<Rightarrow> 'a procst_scheme option" where
  "upd_pcb pid f s =
     do { p \<leftarrow> aget (proctab s) pid;
          t \<leftarrow> aset (proctab s) pid (f p);
          Some (s\<lparr>proctab := t\<rparr>) }"

definition upd_msg :: "int \<Rightarrow> (pmessage \<Rightarrow> pmessage) \<Rightarrow> 'a procst_scheme \<Rightarrow> 'a procst_scheme option" where
  "upd_msg pid f s = upd_pcb pid (\<lambda>p. p\<lparr>msg_var := f (msg_var p)\<rparr>) s"

section \<open>Facts on the table\<close>

text \<open>The table has its size, and reading or storing an entry in range succeeds.\<close>

definition proctab_wf :: "'a procst_scheme \<Rightarrow> bool" where
  "proctab_wf s \<longleftrightarrow> length (proctab s) = nat NPROC"

abbreviation pcb_of :: "'a procst_scheme \<Rightarrow> int \<Rightarrow> pcb" where
  "pcb_of s pid \<equiv> at (proctab s) pid"

lemma proctab_inb: "proctab_wf s \<Longrightarrow> 0 \<le> pid \<Longrightarrow> pid < NPROC \<Longrightarrow> inb (proctab s) pid"
  by (auto simp: proctab_wf_def inb_def NPROC_def)

lemma isbadpid_wf:
  "proctab_wf s \<Longrightarrow> isbadpid x s = Some (x < 0 \<or> NPROC \<le> x \<or> p_state (pcb_of s x) = PRFREE)"
  by (auto simp: isbadpid_def proctab_inb)

lemma isbadpid_good:
  "proctab_wf s \<Longrightarrow> 0 \<le> x \<Longrightarrow> x < NPROC \<Longrightarrow> p_state (pcb_of s x) \<noteq> PRFREE \<Longrightarrow> isbadpid x s = Some False"
  by (simp add: isbadpid_wf)

lemma upd_pcb_in [simp]:
  "inb (proctab s) pid \<Longrightarrow> upd_pcb pid f s = Some (s\<lparr>proctab := (proctab s)[nat pid := f (pcb_of s pid)]\<rparr>)"
  by (simp add: upd_pcb_def)

lemma upd_msg_in [simp]:
  "inb (proctab s) pid \<Longrightarrow> upd_msg pid f s =
     Some (s\<lparr>proctab := (proctab s)[nat pid := (pcb_of s pid)\<lparr>msg_var := f (msg_var (pcb_of s pid))\<rparr>]\<rparr>)"
  by (simp add: upd_msg_def)

end
