(* ===== verification/Process_Queue.thy ===== *)
theory Process_Queue
  imports Process_Table
begin

text \<open>
  The process queues of \<^verbatim>\<open>system/queue.c\<close> and \<^verbatim>\<open>include/queue.h\<close>: doubly linked lists
  threaded through \<^verbatim>\<open>queuetab\<close>, whose first \<open>NPROC\<close> entries are the processes themselves
  and whose later entries are pairs of a head and a tail.

  \<open>queues_rep s Q\<close> says that the table of \<open>s\<close> represents the lists \<open>Q\<close>, one per queue, with
  every process in at most one of them. Each operation is shown to be the list operation
  its name says; the locale \<open>fifo_queues\<close> is that contract, and the scheduler and the
  message system rest on it.
\<close>

section \<open>Queue identifiers\<close>

definition queuehead :: "u32 \<Rightarrow> int" where
  "queuehead q = uint (drop_bit 16 q AND 0xFFFF)"

definition queuetail :: "u32 \<Rightarrow> int" where
  "queuetail q = uint (q AND 0xFFFF)"

definition isbadqueue :: "u32 \<Rightarrow> bool" where
  "isbadqueue x \<longleftrightarrow> queuehead x < 0 \<or> queuehead x \<noteq> queuetail x - 1 \<or> queuetail x \<ge> NQENT"

definition firstid :: "u32 \<Rightarrow> 'a procst_scheme \<Rightarrow> int option" where
  "firstid q s = do { e \<leftarrow> aget (queuetab s) (queuehead q); Some (q_next e) }"

definition isempty :: "u32 \<Rightarrow> 'a procst_scheme \<Rightarrow> bool option" where
  "isempty q s = do { f \<leftarrow> firstid q s; Some (f \<ge> NPROC) }"

definition nonempty :: "u32 \<Rightarrow> 'a procst_scheme \<Rightarrow> bool option" where
  "nonempty q s = do { f \<leftarrow> firstid q s; Some (f < NPROC) }"

section \<open>Operations\<close>

definition set_qnext :: "int \<Rightarrow> int \<Rightarrow> 'a procst_scheme \<Rightarrow> 'a procst_scheme option" where
  "set_qnext i v s =
     do { e \<leftarrow> aget (queuetab s) i; t \<leftarrow> aset (queuetab s) i (e\<lparr>q_next := v\<rparr>); Some (s\<lparr>queuetab := t\<rparr>) }"

definition set_qprev :: "int \<Rightarrow> int \<Rightarrow> 'a procst_scheme \<Rightarrow> 'a procst_scheme option" where
  "set_qprev i v s =
     do { e \<leftarrow> aget (queuetab s) i; t \<leftarrow> aset (queuetab s) i (e\<lparr>q_prev := v\<rparr>); Some (s\<lparr>queuetab := t\<rparr>) }"

definition link_tail :: "int \<Rightarrow> int \<Rightarrow> 'a procst_scheme \<Rightarrow> 'a procst_scheme option" where
  "link_tail pid z s =
     do {
       s \<leftarrow> set_qnext pid z s;
       t \<leftarrow> aget (queuetab s) z;
       s \<leftarrow> set_qprev pid (q_prev t) s;
       t \<leftarrow> aget (queuetab s) z;
       s \<leftarrow> set_qnext (q_prev t) pid s;
       set_qprev z pid s
     }"

definition enqueue :: "int \<Rightarrow> int \<Rightarrow> u32 \<Rightarrow> 'a procst_scheme \<Rightarrow> (int \<times> 'a procst_scheme) option" where
  "enqueue cpuid pid q s =
     do {
       badpid \<leftarrow> (if isbadqueue q then Some True else isbadpid pid s);
       if badpid then Some (SYSERR, s)
       else do {
         let hd = queuehead q;
         let tl = queuetail q;
         h \<leftarrow> aget (queuetab s) hd;
         locked cpuid (q_lock h) (\<lambda>s. do { s \<leftarrow> link_tail pid tl s; Some (pid, s) }) s
       }
     }"

text \<open>The walk of \<^verbatim>\<open>remove\<close> back to the head; the loop counts at most \<open>NQENT\<close> steps.\<close>

fun remove_walk :: "nat \<Rightarrow> int \<Rightarrow> int \<Rightarrow> 'a procst_scheme \<Rightarrow> (int \<times> int) option" where
  "remove_walk 0 steps temp s = Some (steps, temp)"
| "remove_walk (Suc k) steps temp s =
     do {
       e \<leftarrow> aget (queuetab s) temp;
       let temp' = q_prev e;
       e' \<leftarrow> aget (queuetab s) temp';
       if EMPTY = q_prev e' then Some (steps + 1, temp')
       else remove_walk k (steps + 1) temp' s
     }"

definition unlink :: "int \<Rightarrow> 'a procst_scheme \<Rightarrow> 'a procst_scheme option" where
  "unlink pid s =
     do {
       e \<leftarrow> aget (queuetab s) pid;
       s \<leftarrow> set_qnext (q_prev e) (q_next e) s;
       e \<leftarrow> aget (queuetab s) pid;
       set_qprev (q_next e) (q_prev e) s
     }"

definition remove :: "int \<Rightarrow> int \<Rightarrow> 'a procst_scheme \<Rightarrow> (int \<times> 'a procst_scheme) option" where
  "remove cpuid pid s =
     do {
       bad \<leftarrow> isbadpid pid s;
       if bad then Some (SYSERR, s)
       else do {
         (steps, hd) \<leftarrow> remove_walk (nat NQENT) 0 pid s;
         if steps \<ge> NQENT then Some (SYSERR, s)
         else do {
           h \<leftarrow> aget (queuetab s) hd;
           locked cpuid (q_lock h) (\<lambda>s. do { s \<leftarrow> unlink pid s; Some (pid, s) }) s
         }
       }
     }"

definition dequeue :: "int \<Rightarrow> u32 \<Rightarrow> 'a procst_scheme \<Rightarrow> (int \<times> 'a procst_scheme) option" where
  "dequeue cpuid q s =
     (let hd = queuehead q in
      if isbadqueue q then Some (SYSERR, s)
      else do {
        h \<leftarrow> aget (queuetab s) hd;
        locked cpuid (q_lock h)
          (\<lambda>s. do {
             h \<leftarrow> aget (queuetab s) hd;
             let pid = q_next h;
             if pid < NPROC
             then do {
               s \<leftarrow> unlink pid s;
               s \<leftarrow> set_qprev pid pid s;
               s \<leftarrow> set_qnext pid pid s;
               Some (pid, s)
             }
             else Some (EMPTY, s)
           }) s
      })"

definition newqueue :: "'a procst_scheme \<Rightarrow> (u32 \<times> 'a procst_scheme) option" where
  "newqueue s =
     do {
       let hd = nextqueue s;
       let tl = nextqueue s + 1;
       let s = s\<lparr>nextqueue := nextqueue s + 2\<rparr>;
       s \<leftarrow> set_qnext hd tl s;
       s \<leftarrow> set_qprev hd EMPTY s;
       s \<leftarrow> set_qnext tl EMPTY s;
       s \<leftarrow> set_qprev tl hd s;
       (l, s) \<leftarrow> lock_create s;
       e \<leftarrow> aget (queuetab s) hd;
       t \<leftarrow> aset (queuetab s) hd (e\<lparr>q_lock := l\<rparr>);
       Some (push_bit 16 (u32_of hd) OR (u32_of tl AND 0xFFFF), s\<lparr>queuetab := t\<rparr>)
     }"

section \<open>Paths through the table\<close>

text \<open>The links of the table as total functions.\<close>

definition qn :: "qentry list \<Rightarrow> int \<Rightarrow> int" where
  "qn t i = (if inb t i then q_next (at t i) else 0)"

definition qp :: "qentry list \<Rightarrow> int \<Rightarrow> int" where
  "qp t i = (if inb t i then q_prev (at t i) else 0)"

definition ql :: "qentry list \<Rightarrow> int \<Rightarrow> u32" where
  "ql t i = (if inb t i then q_lock (at t i) else 0)"

lemma q_upd:
  assumes "inb t i"
  shows "qn (t[nat i := e]) = (qn t)(i := q_next e)" and "qp (t[nat i := e]) = (qp t)(i := q_prev e)"
    and "ql (t[nat i := e]) = (ql t)(i := q_lock e)"
  using assms by (auto simp: qn_def qp_def ql_def fun_eq_iff at_update inb_def)

fun path :: "(int \<Rightarrow> int) \<Rightarrow> (int \<Rightarrow> int) \<Rightarrow> int list \<Rightarrow> bool" where
  "path f g (a # b # xs) \<longleftrightarrow> f a = b \<and> g b = a \<and> path f g (b # xs)"
| "path f g _ \<longleftrightarrow> True"

lemma path_Cons: "path f g (a # xs) \<longleftrightarrow> (xs = [] \<or> f a = hd xs \<and> g (hd xs) = a \<and> path f g xs)"
  by (cases xs) auto

lemma path_append: "path f g (xs @ a # ys) \<longleftrightarrow> path f g (xs @ [a]) \<and> path f g (a # ys)"
proof (induction xs)
  case Nil
  then show ?case by simp
next
  case (Cons x xs)
  then show ?case by (cases xs) auto
qed

lemma path_cong:
  assumes "\<And>x. x \<in> set (butlast xs) \<Longrightarrow> f x = f' x" and "\<And>x. x \<in> set (tl xs) \<Longrightarrow> g x = g' x"
  shows "path f g xs = path f' g' xs"
  using assms by (induction f g xs rule: path.induct) auto

lemma in_set_tl: "x \<in> set (tl xs) \<Longrightarrow> x \<in> set xs"
  by (cases xs) auto

text \<open>Inserting before the last node and cutting out an inner node.\<close>

lemma path_insert:
  assumes "path f g (xs @ [p, z])" and "distinct (xs @ [p, z])" and "x \<notin> set (xs @ [p, z])"
  shows "path (f(x := z, p := x)) (g(x := p, z := x)) (xs @ [p, x, z])"
proof -
  let ?f = "f(x := z, p := x)" and ?g = "g(x := p, z := x)"
  from assms(1) have "path f g (xs @ [p])" using path_append[of f g xs p "[z]"] by simp
  moreover have "path f g (xs @ [p]) = path ?f ?g (xs @ [p])"
    using assms(2,3) by (intro path_cong) (auto dest!: in_set_tl)
  ultimately show ?thesis using assms(2,3) path_append[of ?f ?g xs p "[x, z]"] by auto
qed

lemma path_cut:
  assumes "path f g (xs @ a # x # b # ys)" and "distinct (xs @ a # x # b # ys)"
  shows "path (f(a := b)) (g(b := a)) (xs @ a # b # ys)"
proof -
  let ?f = "f(a := b)" and ?g = "g(b := a)"
  from assms(1) have p: "path f g (xs @ [a])" "path f g (b # ys)"
    using path_append[of f g xs a "x # b # ys"] by auto
  have "path f g (xs @ [a]) = path ?f ?g (xs @ [a])"
    using assms(2) by (intro path_cong) (auto dest!: in_set_tl)
  moreover have "path f g (b # ys) = path ?f ?g (b # ys)"
    using assms(2) by (intro path_cong) (auto dest!: in_set_butlastD split: if_splits)
  ultimately show ?thesis using p path_append[of ?f ?g xs a "b # ys"] by simp
qed

section \<open>The lists a table represents\<close>

definition nodes :: "int \<Rightarrow> int list \<Rightarrow> int list" where
  "nodes h ps = h # ps @ [h + 1]"

definition queue_rep :: "qentry list \<Rightarrow> int \<Rightarrow> int list \<Rightarrow> bool" where
  "queue_rep t h ps \<longleftrightarrow> path (qn t) (qp t) (nodes h ps) \<and> qp t h = EMPTY \<and> qn t (h + 1) = EMPTY"

definition qhead :: "nat \<Rightarrow> int" where "qhead k = NPROC + 2 * int k"

definition qid :: "nat \<Rightarrow> u32" where
  "qid k = push_bit 16 (u32_of (qhead k)) OR (u32_of (qhead k + 1) AND 0xFFFF)"

definition queues_rep :: "'a procst_scheme \<Rightarrow> int list list \<Rightarrow> bool" where
  "queues_rep s Q \<longleftrightarrow>
     proctab_wf s \<and> length (queuetab s) = nat NQENT \<and> nextqueue s = qhead (length Q) \<and> nextqueue s \<le> NQENT \<and>
     distinct (concat Q) \<and> (\<forall>p \<in> set (concat Q). 0 \<le> p \<and> p < NPROC) \<and>
     (\<forall>k < length Q. queue_rep (queuetab s) (qhead k) (Q ! k) \<and> lock_idle (ql (queuetab s) (qhead k)) s)"

lemma qhead_bounds:
  assumes "queues_rep s Q" and "k < length Q"
  shows "NPROC \<le> qhead k" and "qhead k + 1 < NQENT" and "inb (queuetab s) (qhead k)" and "inb (queuetab s) (qhead k + 1)"
proof -
  have "qhead (length Q) \<le> NQENT" using assms(1) by (simp add: queues_rep_def)
  then show "NPROC \<le> qhead k" "qhead k + 1 < NQENT" using assms(2) by (auto simp: qhead_def)
  then show "inb (queuetab s) (qhead k)" "inb (queuetab s) (qhead k + 1)"
    using assms(1) by (auto simp: queues_rep_def inb_def NPROC_def NQENT_def)
qed

lemma proc_inb:
  assumes "queues_rep s Q" and "0 \<le> p" and "p < NPROC"
  shows "inb (queuetab s) p" and "inb (proctab s) p"
  using assms by (auto simp: queues_rep_def proctab_wf_def inb_def NPROC_def NQENT_def)

text \<open>Identifiers and heads.\<close>

lemma halves:
  fixes a b :: u32
  assumes a: "take_bit 16 a = a" and b: "take_bit 16 b = b"
  shows "drop_bit 16 (push_bit 16 a OR (b AND 0xFFFF)) AND 0xFFFF = a"
    and "(push_bit 16 a OR (b AND 0xFFFF)) AND 0xFFFF = b"
proof -
  have m: "(0xFFFF :: u32) = mask 16" by (simp add: mask_eq_exp_minus_1)
  have ab: "bit a n \<Longrightarrow> n < 16" "bit b n \<Longrightarrow> n < 16" for n
    using a b by (metis bit_take_bit_iff)+
  show "drop_bit 16 (push_bit 16 a OR (b AND 0xFFFF)) AND 0xFFFF = a"
    unfolding m by (rule bit_eqI) (auto simp: bit_simps dest: ab)
  show "(push_bit 16 a OR (b AND 0xFFFF)) AND 0xFFFF = b"
    unfolding m by (rule bit_eqI) (auto simp: bit_simps dest: ab)
qed

lemma qid_parts:
  assumes "0 \<le> h" and "h + 1 < NQENT"
  shows "queuehead (push_bit 16 (u32_of h) OR (u32_of (h + 1) AND 0xFFFF)) = h"
    and "queuetail (push_bit 16 (u32_of h) OR (u32_of (h + 1) AND 0xFFFF)) = h + 1"
proof -
  have u: "uint (u32_of i) = i \<and> take_bit 16 (u32_of i) = u32_of i" if "0 \<le> i" "i < NQENT" for i
  proof -
    have "uint (u32_of i) = i"
      using that by (simp add: u32_of_def NQENT_def NPROC_def uint_word_of_int)
    moreover from this have "uint (take_bit 16 (u32_of i)) = i"
      using that by (simp add: unsigned_take_bit_eq NQENT_def NPROC_def take_bit_int_eq_self)
    ultimately show ?thesis by (simp add: word_uint_eq_iff)
  qed
  have h: "take_bit 16 (u32_of h) = u32_of h" "take_bit 16 (u32_of (h + 1)) = u32_of (h + 1)"
    using u[of h] u[of "h + 1"] assms by auto
  show "queuehead (push_bit 16 (u32_of h) OR (u32_of (h + 1) AND 0xFFFF)) = h"
    using u[of h] assms by (simp only: queuehead_def halves(1)[OF h])
  show "queuetail (push_bit 16 (u32_of h) OR (u32_of (h + 1) AND 0xFFFF)) = h + 1"
    using u[of "h + 1"] assms by (simp only: queuetail_def halves(2)[OF h])
qed

lemma qid_ok:
  assumes "queues_rep s Q" and "k < length Q"
  shows "queuehead (qid k) = qhead k" and "queuetail (qid k) = qhead k + 1" and "\<not> isbadqueue (qid k)"
proof -
  note b = qhead_bounds[OF assms]
  have "0 \<le> qhead k" using b(1) by (simp add: NPROC_def)
  from qid_parts[OF this b(2)] show q: "queuehead (qid k) = qhead k" "queuetail (qid k) = qhead k + 1"
    by (simp_all add: qid_def)
  show "\<not> isbadqueue (qid k)" using q b by (simp add: isbadqueue_def NPROC_def)
qed

section \<open>One queue changes\<close>

lemma distinct_concat_less:
  assumes "distinct (concat Q)" and "i < j" and "j < length Q"
  shows "set (Q ! i) \<inter> set (Q ! j) = {}"
proof -
  have "Q = take j Q @ Q ! j # drop (Suc j) Q" using assms(3) by (rule id_take_nth_drop)
  with assms(1) have "distinct (concat (take j Q) @ Q ! j @ concat (drop (Suc j) Q))"
    by (metis concat.simps(2) concat_append)
  moreover have "Q ! i \<in> set (take j Q)" using assms(2,3) by (auto simp: in_set_conv_nth intro!: exI[of _ i])
  ultimately show ?thesis by auto
qed

lemma distinct_concat_nth:
  assumes "distinct (concat Q)" and "i \<noteq> j" and "i < length Q" and "j < length Q"
  shows "set (Q ! i) \<inter> set (Q ! j) = {}"
  using distinct_concat_less[OF assms(1), of i j] distinct_concat_less[OF assms(1), of j i] assms(2-4)
  by (cases "i < j") auto

text \<open>The nodes of different queues are different.\<close>

lemma nodes_disjoint:
  assumes rep: "queues_rep s Q" and "j < length Q" "k < length Q" "j \<noteq> k"
  shows "set (nodes (qhead j) (Q ! j)) \<inter> set (nodes (qhead k) (Q ! k)) = {}"
proof -
  have "set (Q ! j) \<inter> set (Q ! k) = {}"
    using rep assms(2-4) by (intro distinct_concat_nth) (auto simp: queues_rep_def)
  moreover have "set (Q ! i) \<subseteq> {0 ..< NPROC}" if "i < length Q" for i
    using rep nth_mem[OF that] by (auto simp: queues_rep_def)
  moreover have "qhead j \<noteq> qhead k" "qhead j \<noteq> qhead k + 1" "qhead j + 1 \<noteq> qhead k"
    using assms(4) by (auto simp: qhead_def)
  moreover have "qhead i \<notin> {0 ..< NPROC}" "qhead i + 1 \<notin> {0 ..< NPROC}" if "i < length Q" for i
    using qhead_bounds(1)[OF rep that] by auto
  ultimately show ?thesis using assms(2,3) unfolding nodes_def by (simp, blast)
qed

lemma queue_rep_frame:
  assumes "queue_rep t h ps" and "\<And>x. x \<in> set (nodes h ps) \<Longrightarrow> qn t' x = qn t x \<and> qp t' x = qp t x"
  shows "queue_rep t' h ps"
proof -
  have "path (qn t') (qp t') (nodes h ps) = path (qn t) (qp t) (nodes h ps)"
    using assms(2) by (intro path_cong) (auto dest: in_set_butlastD in_set_tl)
  with assms show ?thesis by (auto simp: queue_rep_def nodes_def)
qed


lemma queues_rep_upd:
  assumes rep: "queues_rep s Q" and k: "k < length Q" and "length t' = length (queuetab s)"
    and "ql t' = ql (queuetab s)" and new: "queue_rep t' (qhead k) ps"
    and old: "\<And>j x. j < length Q \<Longrightarrow> j \<noteq> k \<Longrightarrow> x \<in> set (nodes (qhead j) (Q ! j)) \<Longrightarrow>
        qn t' x = qn (queuetab s) x \<and> qp t' x = qp (queuetab s) x"
    and "distinct (concat (Q[k := ps]))" and "\<And>p. p \<in> set ps \<Longrightarrow> 0 \<le> p \<and> p < NPROC"
  shows "queues_rep (s\<lparr>queuetab := t'\<rparr>) (Q[k := ps])"
proof -
  have "queue_rep t' (qhead j) (Q[k := ps] ! j)" if j: "j < length Q" for j
  proof (cases "j = k")
    case True
    then show ?thesis using new k by simp
  next
    case False
    have "queue_rep (queuetab s) (qhead j) (Q ! j)" using rep j by (simp add: queues_rep_def)
    from queue_rep_frame[OF this old[OF j False]] False show ?thesis by simp
  qed
  moreover have "\<forall>p \<in> set (concat (Q[k := ps])). 0 \<le> p \<and> p < NPROC"
    using rep assms(8) by (auto simp: queues_rep_def dest!: set_update_subset_insert[THEN subsetD])
  ultimately show ?thesis using rep assms(3,4,7)
    by (simp add: queues_rep_def proctab_wf_def lock_idle_def)
qed

text \<open>A process that is in no queue is not a node of any.\<close>

lemma fresh_node:
  assumes "queues_rep s Q" and "p < NPROC" and "p \<notin> set (concat Q)" and "j < length Q"
  shows "p \<notin> set (nodes (qhead j) (Q ! j))"
  using assms(2,3) qhead_bounds(1)[OF assms(1,4)] nth_mem[OF assms(4)] by (auto simp: nodes_def)

lemma distinct_concat_update:
  assumes "distinct (concat Q)" and "k < length Q" and "distinct ps"
    and "\<And>p. p \<in> set ps \<Longrightarrow> p \<in> set (Q ! k) \<or> p \<notin> set (concat Q)"
  shows "distinct (concat (Q[k := ps]))"
proof -
  have Q: "Q = take k Q @ Q ! k # drop (Suc k) Q" using assms(2) by (rule id_take_nth_drop)
  have U: "Q[k := ps] = take k Q @ ps # drop (Suc k) Q" using assms(2) by (rule upd_conv_take_nth_drop)
  let ?A = "concat (take k Q)" and ?B = "concat (drop (Suc k) Q)"
  have c: "concat Q = ?A @ Q ! k @ ?B" by (subst Q) simp
  with assms(1) have d: "distinct (?A @ Q ! k @ ?B)" by simp
  have "p \<notin> set ?A \<and> p \<notin> set ?B" if "p \<in> set ps" for p
    using assms(4)[OF that] d unfolding c by (auto simp del: set_concat)
  then have "set ps \<inter> set ?A = {}" "set ps \<inter> set ?B = {}" by blast+
  with d assms(3) show ?thesis unfolding U by (auto simp del: set_concat)
qed

section \<open>The operations on the represented lists\<close>

lemma set_qnext_view:
  assumes "inb (queuetab s) i"
  shows "\<exists>t. set_qnext i v s = Some (s\<lparr>queuetab := t\<rparr>) \<and> length t = length (queuetab s) \<and>
    qn t = (qn (queuetab s))(i := v) \<and> qp t = qp (queuetab s) \<and> ql t = ql (queuetab s)"
  using assms by (intro exI[of _ "(queuetab s)[nat i := (at (queuetab s) i)\<lparr>q_next := v\<rparr>]"])
    (auto simp: set_qnext_def q_upd fun_upd_idem qp_def ql_def)

lemma set_qprev_view:
  assumes "inb (queuetab s) i"
  shows "\<exists>t. set_qprev i v s = Some (s\<lparr>queuetab := t\<rparr>) \<and> length t = length (queuetab s) \<and>
    qn t = qn (queuetab s) \<and> qp t = (qp (queuetab s))(i := v) \<and> ql t = ql (queuetab s)"
  using assms by (intro exI[of _ "(queuetab s)[nat i := (at (queuetab s) i)\<lparr>q_prev := v\<rparr>]"])
    (auto simp: set_qprev_def q_upd fun_upd_idem qn_def ql_def)

lemma q_read:
  assumes "inb t i"
  obtains e where "aget t i = Some e" "q_next e = qn t i" "q_prev e = qp t i" "q_lock e = ql t i"
  using assms that by (simp add: qn_def qp_def ql_def)

lemma link_tail_view:
  fixes s :: "'a procst_scheme"
  assumes "inb (queuetab s) pid" "inb (queuetab s) z" "inb (queuetab s) p" "pid \<noteq> z" and p: "qp (queuetab s) z = p"
  shows "\<exists>t. link_tail pid z s = Some (s\<lparr>queuetab := t\<rparr>) \<and> length t = length (queuetab s) \<and>
    qn t = (qn (queuetab s))(pid := z, p := pid) \<and> qp t = (qp (queuetab s))(pid := p, z := pid) \<and> ql t = ql (queuetab s)"
proof -
  from set_qnext_view[OF assms(1), of z] obtain t1 where t1: "set_qnext pid z s = Some (s\<lparr>queuetab := t1\<rparr>)"
    "length t1 = length (queuetab s)" "qn t1 = (qn (queuetab s))(pid := z)" "qp t1 = qp (queuetab s)" "ql t1 = ql (queuetab s)" by auto
  have b1: "inb t1 i \<longleftrightarrow> inb (queuetab s) i" for i using t1(2) by (simp add: inb_def)
  from q_read[of t1 z] b1 assms(2) obtain e1 where e1: "aget t1 z = Some e1" "q_prev e1 = p" using t1(4) p by metis
  from set_qprev_view[of "s\<lparr>queuetab := t1\<rparr>" pid p] assms(1) b1 obtain t2 where
    t2: "set_qprev pid p (s\<lparr>queuetab := t1\<rparr>) = Some (s\<lparr>queuetab := t2\<rparr>)" "length t2 = length t1" "qn t2 = qn t1"
    "qp t2 = (qp t1)(pid := p)" "ql t2 = ql t1" by auto
  have b2: "inb t2 i \<longleftrightarrow> inb (queuetab s) i" for i using t1(2) t2(2) by (simp add: inb_def)
  have "qp t2 z = p" using t2(4) t1(4) p assms(4) by simp
  with q_read[of t2 z] b2 assms(2) obtain e2 where e2: "aget t2 z = Some e2" "q_prev e2 = p" by metis
  from set_qnext_view[of "s\<lparr>queuetab := t2\<rparr>" p pid] assms(3) b2 obtain t3 where
    t3: "set_qnext p pid (s\<lparr>queuetab := t2\<rparr>) = Some (s\<lparr>queuetab := t3\<rparr>)" "length t3 = length t2"
    "qn t3 = (qn t2)(p := pid)" "qp t3 = qp t2" "ql t3 = ql t2" by auto
  have b3: "inb t3 i \<longleftrightarrow> inb (queuetab s) i" for i using t1(2) t2(2) t3(2) by (simp add: inb_def)
  from set_qprev_view[of "s\<lparr>queuetab := t3\<rparr>" z pid] assms(2) b3 obtain t4 where
    t4: "set_qprev z pid (s\<lparr>queuetab := t3\<rparr>) = Some (s\<lparr>queuetab := t4\<rparr>)" "length t4 = length t3"
    "qn t4 = qn t3" "qp t4 = (qp t3)(z := pid)" "ql t4 = ql t3" by auto
  have "link_tail pid z s = Some (s\<lparr>queuetab := t4\<rparr>)"
    using t1(1) e1 t2(1) e2 t3(1) t4(1) by (simp add: link_tail_def)
  with t1 t2 t3 t4 show ?thesis by (intro exI[of _ t4]) simp
qed

lemma unlink_view:
  fixes s :: "'a procst_scheme"
  assumes "inb (queuetab s) pid" "inb (queuetab s) a" "inb (queuetab s) b" "a \<noteq> pid" 
    and a: "qp (queuetab s) pid = a" and b: "qn (queuetab s) pid = b"
  shows "\<exists>t. unlink pid s = Some (s\<lparr>queuetab := t\<rparr>) \<and> length t = length (queuetab s) \<and>
    qn t = (qn (queuetab s))(a := b) \<and> qp t = (qp (queuetab s))(b := a) \<and> ql t = ql (queuetab s)"
proof -
  from q_read[OF assms(1)] obtain e where e: "aget (queuetab s) pid = Some e" "q_prev e = a" "q_next e = b" using a b by metis
  from set_qnext_view[OF assms(2), of b] obtain t1 where t1: "set_qnext a b s = Some (s\<lparr>queuetab := t1\<rparr>)"
    "length t1 = length (queuetab s)" "qn t1 = (qn (queuetab s))(a := b)" "qp t1 = qp (queuetab s)" "ql t1 = ql (queuetab s)" by auto
  have b1: "inb t1 i \<longleftrightarrow> inb (queuetab s) i" for i using t1(2) by (simp add: inb_def)
  have "qp t1 pid = a" "qn t1 pid = b" using t1(3,4) a b assms(4) by auto
  with q_read[of t1 pid] b1 assms(1) obtain e1 where e1: "aget t1 pid = Some e1" "q_prev e1 = a" "q_next e1 = b" by metis
  from set_qprev_view[of "s\<lparr>queuetab := t1\<rparr>" b a] assms(3) b1 obtain t2 where
    t2: "set_qprev b a (s\<lparr>queuetab := t1\<rparr>) = Some (s\<lparr>queuetab := t2\<rparr>)" "length t2 = length t1" "qn t2 = qn t1"
    "qp t2 = (qp t1)(b := a)" "ql t2 = ql t1" by auto
  have "unlink pid s = Some (s\<lparr>queuetab := t2\<rparr>)" using e e1 t1(1) t2(1) by (simp add: unlink_def)
  with t1 t2 show ?thesis by (intro exI[of _ t2]) simp
qed


text \<open>Facts on one queue of a represented table.\<close>

lemma queues_repD:
  assumes "queues_rep s Q" and "k < length Q"
  shows "queue_rep (queuetab s) (qhead k) (Q ! k)" and "lock_idle (ql (queuetab s) (qhead k)) s"
    and "distinct (concat Q)" and "distinct (Q ! k)" and "\<And>p. p \<in> set (Q ! k) \<Longrightarrow> 0 \<le> p \<and> p < NPROC"
    and "proctab_wf s"
  using assms nth_mem[OF assms(2)] by (auto simp: queues_rep_def distinct_concat_iff)

lemma nodes_distinct:
  assumes "queues_rep s Q" and "k < length Q"
  shows "distinct (nodes (qhead k) (Q ! k))"
  using queues_repD(4,5)[OF assms] qhead_bounds(1)[OF assms] by (fastforce simp: nodes_def)

lemma nodes_inb:
  assumes "queues_rep s Q" and "k < length Q" and "x \<in> set (nodes (qhead k) (Q ! k))"
  shows "inb (queuetab s) x"
  using assms(3) queues_repD(5)[OF assms(1,2)] qhead_bounds(3,4)[OF assms(1,2)] proc_inb(1)[OF assms(1)]
  by (auto simp: nodes_def)

lemma q_head_entry:
  assumes "queues_rep s Q" and "k < length Q"
  obtains e where "aget (queuetab s) (qhead k) = Some e" "q_next e = qn (queuetab s) (qhead k)"
    "q_lock e = ql (queuetab s) (qhead k)"
  using q_read[OF qhead_bounds(3)[OF assms]] by metis

lemma queue_first:
  assumes "queues_rep s Q" and "k < length Q"
  shows "qn (queuetab s) (qhead k) = (case Q ! k of [] \<Rightarrow> qhead k + 1 | p # _ \<Rightarrow> p)"
  using queues_repD(1)[OF assms] by (cases "Q ! k") (auto simp: queue_rep_def nodes_def)

lemma nonempty_rep:
  assumes "queues_rep s Q" and "k < length Q"
  shows "nonempty (qid k) s = Some (Q ! k \<noteq> [])" and "isempty (qid k) s = Some (Q ! k = [])"
proof -
  from q_head_entry[OF assms] obtain e where e: "aget (queuetab s) (qhead k) = Some e" "q_next e = qn (queuetab s) (qhead k)"
    by metis
  have "qn (queuetab s) (qhead k) < NPROC \<longleftrightarrow> Q ! k \<noteq> []"
    using queue_first[OF assms] queues_repD(5)[OF assms] qhead_bounds(1)[OF assms] by (cases "Q ! k") auto
  then show "nonempty (qid k) s = Some (Q ! k \<noteq> [])" "isempty (qid k) s = Some (Q ! k = [])"
    using e qid_ok(1)[OF assms] by (auto simp: nonempty_def isempty_def firstid_def)
qed

text \<open>Running a body that only changes the queue table under the lock of a queue.\<close>

lemma locked_queue:
  fixes s :: "'a procst_scheme"
  assumes "queues_rep s Q" and "k < length Q"
    and body: "body (s\<lparr>locktab := lt_hold c (ql (queuetab s) (qhead k)) (locktab s)\<rparr>) =
        Some (r, s\<lparr>locktab := lt_hold c (ql (queuetab s) (qhead k)) (locktab s), queuetab := t\<rparr>)"
  shows "locked c (ql (queuetab s) (qhead k)) body s = Some (r, s\<lparr>queuetab := t\<rparr>)"
  using locked_runs[OF queues_repD(2)[OF assms(1,2)], where body = body, OF body] by simp

lemma enqueue_rep:
  fixes s :: "'a procst_scheme"
  assumes rep: "queues_rep s Q" and k: "k < length Q" and pid: "0 \<le> pid" "pid < NPROC"
    and st: "p_state (pcb_of s pid) \<noteq> PRFREE" and nin: "pid \<notin> set (concat Q)"
  shows "\<exists>t. enqueue c pid (qid k) s = Some (pid, s\<lparr>queuetab := t\<rparr>) \<and>
    queues_rep (s\<lparr>queuetab := t\<rparr>) (Q[k := Q ! k @ [pid]])"
proof -
  let ?h = "qhead k" and ?z = "qhead k + 1" and ?T = "queuetab s"
  let ?s1 = "s\<lparr>locktab := lt_hold c (ql ?T ?h) (locktab s)\<rparr>"
  define xs p where xp: "xs = butlast (?h # Q ! k)" "p = last (?h # Q ! k)"
  have nd: "nodes ?h (Q ! k) = xs @ [p, ?z]" unfolding nodes_def xp by (simp flip: append_butlast_last_id)
  note D = nodes_distinct[OF rep k, unfolded nd] and R = queues_repD(1)[OF rep k]
  have fr: "pid \<notin> set (nodes ?h (Q ! k))" using fresh_node[OF rep pid(2) nin k] .
  have pz: "qp ?T ?z = p" and P: "path (qn ?T) (qp ?T) (xs @ [p, ?z])"
    using R path_append[of "qn ?T" "qp ?T" xs p "[?z]"] by (auto simp: queue_rep_def nd)
  have ib: "inb ?T p" "inb ?T ?z" "inb ?T pid"
    using nodes_inb[OF rep k] proc_inb(1)[OF rep pid] by (auto simp: nd)
  have "pid \<noteq> ?z" "pid \<noteq> ?h" using fr by (auto simp: nodes_def)
  from link_tail_view[of ?s1 pid ?z p] ib pz this(1) obtain t where
    lt: "link_tail pid ?z ?s1 = Some (?s1\<lparr>queuetab := t\<rparr>)" "length t = length ?T"
      "qn t = (qn ?T)(pid := ?z, p := pid)" "qp t = (qp ?T)(pid := p, ?z := pid)" "ql t = ql ?T" by auto
  from q_head_entry[OF rep k] obtain e where "aget ?T ?h = Some e" "q_lock e = ql ?T ?h" by metis
  then have "enqueue c pid (qid k) s = locked c (ql ?T ?h) (\<lambda>s. do { s \<leftarrow> link_tail pid ?z s; Some (pid, s) }) s"
    using qid_ok[OF rep k] isbadpid_good[OF queues_repD(6)[OF rep k] pid st]
    by (simp add: enqueue_def Let_def)
  also have "\<dots> = Some (pid, s\<lparr>queuetab := t\<rparr>)" using lt(1) by (intro locked_queue[OF rep k]) simp
  finally have e: "enqueue c pid (qid k) s = Some (pid, s\<lparr>queuetab := t\<rparr>)" .
  have nd': "nodes ?h (Q ! k @ [pid]) = xs @ [p, pid, ?z]" using nd by (simp add: nodes_def)
  have "path (qn t) (qp t) (xs @ [p, pid, ?z])"
    unfolding lt(3,4) using fr nd by (intro path_insert[OF P D]) simp
  moreover have "qp t ?h = EMPTY" "qn t ?z = EMPTY"
    using R lt(3,4) \<open>pid \<noteq> ?z\<close> \<open>pid \<noteq> ?h\<close> D by (auto simp: queue_rep_def)
  ultimately have new: "queue_rep t ?h (Q ! k @ [pid])" by (simp add: queue_rep_def nd')
  have "queues_rep (s\<lparr>queuetab := t\<rparr>) (Q[k := Q ! k @ [pid]])"
  proof (rule queues_rep_upd[OF rep k lt(2,5) new])
    fix j x assume j: "j < length Q" "j \<noteq> k" "x \<in> set (nodes (qhead j) (Q ! j))"
    have "x \<notin> {pid, p, ?z}"
      using nodes_disjoint[OF rep j(1) k j(2)] j(3) fresh_node[OF rep pid(2) nin j(1)] nd by auto
    then show "qn t x = qn ?T x \<and> qp t x = qp ?T x" using lt(3,4) by auto
  next
    show "distinct (concat (Q[k := Q ! k @ [pid]]))"
      using queues_repD(3,4)[OF rep k] nin k by (intro distinct_concat_update) auto
    show "\<And>q. q \<in> set (Q ! k @ [pid]) \<Longrightarrow> 0 \<le> q \<and> q < NPROC" using queues_repD(5)[OF rep k] pid by auto
  qed
  with e show ?thesis by blast
qed


lemma unlink_rep:
  fixes u :: "'a procst_scheme"
  assumes rep: "queues_rep s Q" and k: "k < length Q" and q: "Q ! k = xs @ pid # ys" and u: "queuetab u = queuetab s"
  shows "\<exists>t. unlink pid u = Some (u\<lparr>queuetab := t\<rparr>) \<and> length t = length (queuetab s) \<and> ql t = ql (queuetab s) \<and>
    queue_rep t (qhead k) (xs @ ys) \<and>
    (\<forall>x. x \<notin> set (nodes (qhead k) (Q ! k)) \<longrightarrow> qn t x = qn (queuetab s) x \<and> qp t x = qp (queuetab s) x)"
proof -
  let ?h = "qhead k" and ?z = "qhead k + 1" and ?T = "queuetab s"
  define as a where aa: "as = butlast (?h # xs)" "a = last (?h # xs)"
  define b bs where bb: "b = hd (ys @ [?z])" "bs = tl (ys @ [?z])"
  have l: "?h # xs = as @ [a]" unfolding aa by (rule append_butlast_last_id[symmetric]) simp
  have r: "ys @ [?z] = b # bs" unfolding bb by (rule list.collapse[symmetric]) simp
  have nd: "nodes ?h (Q ! k) = as @ a # pid # b # bs" using l r q by (simp add: nodes_def)
  have nd': "nodes ?h (xs @ ys) = as @ a # b # bs" using l r by (simp add: nodes_def)
  note D = nodes_distinct[OF rep k, unfolded nd] and R = queues_repD(1)[OF rep k]
  have P: "path (qn ?T) (qp ?T) (as @ a # pid # b # bs)" using R by (simp add: queue_rep_def nd)
  then have ab: "qp ?T pid = a" "qn ?T pid = b"
    using path_append[of "qn ?T" "qp ?T" as a "pid # b # bs"] by auto
  have "inb ?T pid" "inb ?T a" "inb ?T b" using nodes_inb[OF rep k] nd by auto
  with unlink_view[of u pid a b] ab D obtain t where
    t: "unlink pid u = Some (u\<lparr>queuetab := t\<rparr>)" "length t = length ?T" "qn t = (qn ?T)(a := b)"
      "qp t = (qp ?T)(b := a)" "ql t = ql ?T" unfolding u by auto
  have "path (qn t) (qp t) (as @ a # b # bs)" unfolding t(3,4) by (rule path_cut[OF P D])
  moreover have "b \<noteq> ?h" "a \<noteq> ?z" using nodes_distinct[OF rep k] l r q unfolding nodes_def
    by (auto simp: Cons_eq_append_conv append_eq_Cons_conv)
  then have "qp t ?h = EMPTY" "qn t ?z = EMPTY" using R t(3,4) by (auto simp: queue_rep_def)
  ultimately have "queue_rep t ?h (xs @ ys)" by (simp add: queue_rep_def nd')
  with t nd show ?thesis by (intro exI[of _ t]) auto
qed

lemma queues_rep_cut:
  assumes rep: "queues_rep s Q" and k: "k < length Q" and q: "Q ! k = xs @ pid # ys"
    and t: "length t = length (queuetab s)" "ql t = ql (queuetab s)" "queue_rep t (qhead k) (xs @ ys)"
      "\<And>x. x \<notin> set (nodes (qhead k) (Q ! k)) \<Longrightarrow> qn t x = qn (queuetab s) x \<and> qp t x = qp (queuetab s) x"
  shows "queues_rep (s\<lparr>queuetab := t\<rparr>) (Q[k := xs @ ys])"
proof (rule queues_rep_upd[OF rep k t(1-3)])
  fix j x assume j: "j < length Q" "j \<noteq> k" "x \<in> set (nodes (qhead j) (Q ! j))"
  then show "qn t x = qn (queuetab s) x \<and> qp t x = qp (queuetab s) x"
    using nodes_disjoint[OF rep j(1) k j(2)] t(4) by blast
next
  show "distinct (concat (Q[k := xs @ ys]))"
    using queues_repD(3,4)[OF rep k] k q by (intro distinct_concat_update) auto
  show "\<And>p. p \<in> set (xs @ ys) \<Longrightarrow> 0 \<le> p \<and> p < NPROC" using queues_repD(5)[OF rep k] q by auto
qed

lemma dequeue_empty:
  assumes rep: "queues_rep s Q" and k: "k < length Q" and q: "Q ! k = []"
  shows "dequeue c (qid k) s = Some (EMPTY, s)"
proof -
  from q_head_entry[OF rep k] obtain e where e: "aget (queuetab s) (qhead k) = Some e"
    "q_next e = qhead k + 1" "q_lock e = ql (queuetab s) (qhead k)" using queue_first[OF rep k] q by auto
  have "\<not> qhead k + 1 < NPROC" using qhead_bounds(1)[OF rep k] by simp
  then show ?thesis using qid_ok[OF rep k] e locked_queue[OF rep k, of _ c EMPTY "queuetab s"]
    by (auto simp: dequeue_def Let_def)
qed

lemma dequeue_rep:
  fixes s :: "'a procst_scheme"
  assumes rep: "queues_rep s Q" and k: "k < length Q" and q: "Q ! k = p # ps"
  shows "\<exists>t. dequeue c (qid k) s = Some (p, s\<lparr>queuetab := t\<rparr>) \<and> queues_rep (s\<lparr>queuetab := t\<rparr>) (Q[k := ps])"
proof -
  let ?h = "qhead k" and ?T = "queuetab s"
  let ?s1 = "s\<lparr>locktab := lt_hold c (ql ?T ?h) (locktab s)\<rparr>"
  from q_head_entry[OF rep k] obtain e where e: "aget ?T ?h = Some e" "q_next e = p" "q_lock e = ql ?T ?h"
    using queue_first[OF rep k] q by auto
  have pr: "0 \<le> p" "p < NPROC" using queues_repD(5)[OF rep k] q by auto
  have q': "Q ! k = [] @ p # ps" using q by simp
  from unlink_rep[OF rep k q', of ?s1] obtain t where
    t: "unlink p ?s1 = Some (?s1\<lparr>queuetab := t\<rparr>)" "length t = length ?T" "ql t = ql ?T" "queue_rep t ?h ps"
      "\<And>x. x \<notin> set (nodes ?h (Q ! k)) \<Longrightarrow> qn t x = qn ?T x \<and> qp t x = qp ?T x" by auto
  have ib: "inb t p" using proc_inb(1)[OF rep pr] t(2) by (simp add: inb_def)
  from set_qprev_view[of "?s1\<lparr>queuetab := t\<rparr>" p p] ib obtain t1 where t1:
    "set_qprev p p (?s1\<lparr>queuetab := t\<rparr>) = Some (?s1\<lparr>queuetab := t1\<rparr>)" "length t1 = length t" "qn t1 = qn t"
    "qp t1 = (qp t)(p := p)" "ql t1 = ql t" by auto
  from set_qnext_view[of "?s1\<lparr>queuetab := t1\<rparr>" p p] ib t1(2) obtain t2 where t2:
    "set_qnext p p (?s1\<lparr>queuetab := t1\<rparr>) = Some (?s1\<lparr>queuetab := t2\<rparr>)" "length t2 = length t1"
    "qn t2 = (qn t1)(p := p)" "qp t2 = qp t1" "ql t2 = ql t1" by (auto simp: inb_def)
  have dq: "dequeue c (qid k) s = Some (p, s\<lparr>queuetab := t2\<rparr>)"
    using qid_ok[OF rep k] e t(1) t1(1) t2(1) pr(2) locked_queue[OF rep k, of _ c p t2]
    by (auto simp: dequeue_def Let_def)
  have np: "p \<notin> set (nodes ?h ps)" "p \<in> set (nodes ?h (Q ! k))"
    using nodes_distinct[OF rep k] q by (auto simp: nodes_def)
  have "qn t2 x = qn t x \<and> qp t2 x = qp t x" if "x \<noteq> p" for x using that t1(3,4) t2(3,4) by simp
  then have "queue_rep t2 ?h ps" "\<And>x. x \<notin> set (nodes ?h (Q ! k)) \<Longrightarrow> qn t2 x = qn ?T x \<and> qp t2 x = qp ?T x"
    using np t(5) by (intro queue_rep_frame[OF t(4)], metis, metis)
  then have "queues_rep (s\<lparr>queuetab := t2\<rparr>) (Q[k := [] @ ps])"
    using t(2,3) t1(2,5) t2(2,5) by (intro queues_rep_cut[OF rep k q']) simp_all
  with dq show ?thesis by auto
qed

lemma remove_walk_path:
  assumes "path (qn (queuetab s)) (qp (queuetab s)) (h # xs @ [x])" and "qp (queuetab s) h = EMPTY"
    and "\<And>y. y \<in> set (h # xs @ [x]) \<Longrightarrow> inb (queuetab s) y" and "length xs < n"
  shows "remove_walk n m x s = Some (m + int (length xs) + 1, h)"
  using assms
proof (induction n arbitrary: xs x m)
  case 0
  then show ?case by simp
next
  case (Suc n)
  let ?T = "queuetab s"
  from q_read[of ?T x] Suc.prems(3) obtain e where e: "aget ?T x = Some e" "q_prev e = qp ?T x" by auto
  show ?case
  proof (cases xs rule: rev_cases)
    case Nil
    then have "qp ?T x = h" using Suc.prems(1) by simp
    moreover from q_read[of ?T h] Suc.prems(3) obtain e' where "aget ?T h = Some e'" "q_prev e' = qp ?T h" by auto
    ultimately show ?thesis using e Suc.prems(2) Nil by simp
  next
    case (snoc ys y)
    have P: "path (qn ?T) (qp ?T) (h # ys @ [y])" "qp ?T x = y"
      using Suc.prems(1) path_append[of "qn ?T" "qp ?T" "h # ys" y "[x]"] snoc by auto
    from q_read[of ?T y] Suc.prems(3) snoc obtain e' where e': "aget ?T y = Some e'" "q_prev e' = qp ?T y" by auto
    have "qp ?T y \<in> set (h # ys)"
    proof (cases ys rule: rev_cases)
      case (snoc zs z)
      then show ?thesis using P(1) path_append[of "qn ?T" "qp ?T" "h # zs" z "[y]"] by auto
    qed (use P(1) in auto)
    then have "inb ?T (qp ?T y)" using Suc.prems(3) snoc by auto
    then have "EMPTY \<noteq> qp ?T y" by (auto simp: inb_def EMPTY_def)
    moreover have "remove_walk n (m + 1) y s = Some (m + 1 + int (length ys) + 1, h)"
      using Suc.prems(3,4) snoc by (intro Suc.IH[OF P(1) Suc.prems(2)]) auto
    ultimately show ?thesis using e e' P(2) snoc by simp
  qed
qed

lemma queue_length:
  assumes "queues_rep s Q" and "k < length Q"
  shows "length (Q ! k) \<le> nat NPROC"
proof -
  have "set (Q ! k) \<subseteq> {0 ..< NPROC}" using queues_repD(5)[OF assms] by auto
  then have "card (set (Q ! k)) \<le> card {0 ..< NPROC}" by (intro card_mono) auto
  then show ?thesis using distinct_card[OF queues_repD(4)[OF assms]] by simp
qed

lemma remove_rep:
  fixes s :: "'a procst_scheme"
  assumes rep: "queues_rep s Q" and k: "k < length Q" and q: "Q ! k = xs @ pid # ys"
    and st: "p_state (pcb_of s pid) \<noteq> PRFREE"
  shows "\<exists>t. remove c pid s = Some (pid, s\<lparr>queuetab := t\<rparr>) \<and> queues_rep (s\<lparr>queuetab := t\<rparr>) (Q[k := xs @ ys])"
proof -
  let ?h = "qhead k" and ?T = "queuetab s"
  let ?s1 = "s\<lparr>locktab := lt_hold c (ql ?T ?h) (locktab s)\<rparr>"
  have pr: "0 \<le> pid" "pid < NPROC" using queues_repD(5)[OF rep k] q by auto
  have R: "queue_rep ?T ?h (Q ! k)" by (rule queues_repD(1)[OF rep k])
  then have P: "path (qn ?T) (qp ?T) (?h # xs @ [pid])" and E: "qp ?T ?h = EMPTY"
    using path_append[of "qn ?T" "qp ?T" "?h # xs" pid "ys @ [?h + 1]"] q by (auto simp: queue_rep_def nodes_def)
  have len: "length xs < nat NPROC" using queue_length[OF rep k] q by simp
  then have "remove_walk (nat NQENT) 0 pid s = Some (int (length xs) + 1, ?h)"
    using remove_walk_path[OF P E, of "nat NQENT" 0] nodes_inb[OF rep k] q by (auto simp: nodes_def NQENT_def NPROC_def)
  moreover from q_head_entry[OF rep k] obtain e where "aget ?T ?h = Some e" "q_lock e = ql ?T ?h" by metis
  moreover have "\<not> int (length xs) + 1 \<ge> NQENT" using len by (simp add: NQENT_def NPROC_def)
  ultimately have rm: "remove c pid s = locked c (ql ?T ?h) (\<lambda>s. do { s \<leftarrow> unlink pid s; Some (pid, s) }) s"
    using isbadpid_good[OF queues_repD(6)[OF rep k] pr st] by (simp add: remove_def)
  from unlink_rep[OF rep k q, of ?s1] obtain t where
    t: "unlink pid ?s1 = Some (?s1\<lparr>queuetab := t\<rparr>)" "length t = length ?T" "ql t = ql ?T" "queue_rep t ?h (xs @ ys)"
      "\<And>x. x \<notin> set (nodes ?h (Q ! k)) \<Longrightarrow> qn t x = qn ?T x \<and> qp t x = qp ?T x" by auto
  have "remove c pid s = Some (pid, s\<lparr>queuetab := t\<rparr>)"
    unfolding rm using t(1) by (intro locked_queue[OF rep k]) simp
  with queues_rep_cut[OF rep k q t(2-5)] show ?thesis by blast
qed

text \<open>
  A process that \<^verbatim>\<open>dequeue\<close> took off a queue has links to itself: \<^verbatim>\<open>remove\<close> on it walks in
  place for \<open>NQENT\<close> steps and reports an error.
\<close>

lemma remove_walk_self:
  assumes "inb (queuetab s) p" and "qp (queuetab s) p = p" and "p \<noteq> EMPTY"
  shows "remove_walk n m p s = Some (m + int n, p)"
proof (induction n arbitrary: m)
  case 0
  then show ?case by simp
next
  case (Suc n)
  from q_read[OF assms(1)] obtain e where "aget (queuetab s) p = Some e" "q_prev e = p" using assms(2) by metis
  then show ?case using Suc[of "m + 1"] assms(3) by auto
qed

lemma new_pair_view:
  fixes s :: "'a procst_scheme"
  assumes "inb (queuetab s) h" "inb (queuetab s) z" "h \<noteq> z"
  shows "\<exists>t. do { s \<leftarrow> set_qnext h z s; s \<leftarrow> set_qprev h EMPTY s; s \<leftarrow> set_qnext z EMPTY s; set_qprev z h s } =
      Some (s\<lparr>queuetab := t\<rparr>) \<and> length t = length (queuetab s) \<and>
    qn t = (qn (queuetab s))(h := z, z := EMPTY) \<and> qp t = (qp (queuetab s))(h := EMPTY, z := h) \<and> ql t = ql (queuetab s)"
proof -
  from set_qnext_view[OF assms(1), of z] obtain t1 where t1: "set_qnext h z s = Some (s\<lparr>queuetab := t1\<rparr>)"
    "length t1 = length (queuetab s)" "qn t1 = (qn (queuetab s))(h := z)" "qp t1 = qp (queuetab s)" "ql t1 = ql (queuetab s)" by auto
  have b1: "inb t1 i \<longleftrightarrow> inb (queuetab s) i" for i using t1(2) by (simp add: inb_def)
  from set_qprev_view[of "s\<lparr>queuetab := t1\<rparr>" h EMPTY] assms(1) b1 obtain t2 where
    t2: "set_qprev h EMPTY (s\<lparr>queuetab := t1\<rparr>) = Some (s\<lparr>queuetab := t2\<rparr>)" "length t2 = length t1" "qn t2 = qn t1"
    "qp t2 = (qp t1)(h := EMPTY)" "ql t2 = ql t1" by auto
  have b2: "inb t2 i \<longleftrightarrow> inb (queuetab s) i" for i using t1(2) t2(2) by (simp add: inb_def)
  from set_qnext_view[of "s\<lparr>queuetab := t2\<rparr>" z EMPTY] assms(2) b2 obtain t3 where
    t3: "set_qnext z EMPTY (s\<lparr>queuetab := t2\<rparr>) = Some (s\<lparr>queuetab := t3\<rparr>)" "length t3 = length t2"
    "qn t3 = (qn t2)(z := EMPTY)" "qp t3 = qp t2" "ql t3 = ql t2" by auto
  have b3: "inb t3 i \<longleftrightarrow> inb (queuetab s) i" for i using t1(2) t2(2) t3(2) by (simp add: inb_def)
  from set_qprev_view[of "s\<lparr>queuetab := t3\<rparr>" z h] assms(2) b3 obtain t4 where
    t4: "set_qprev z h (s\<lparr>queuetab := t3\<rparr>) = Some (s\<lparr>queuetab := t4\<rparr>)" "length t4 = length t3"
    "qn t4 = qn t3" "qp t4 = (qp t3)(z := h)" "ql t4 = ql t3" by auto
  show ?thesis using t1 t2 t3 t4 by (intro exI[of _ t4]) simp
qed

lemma queues_rep_new:
  assumes rep: "queues_rep s Q" and room: "qhead (length Q) + 2 \<le> NQENT" and h: "h = qhead (length Q)"
    and t: "length t = length (queuetab s)" "qn t = (qn (queuetab s))(h := h + 1, h + 1 := EMPTY)"
      "qp t = (qp (queuetab s))(h := EMPTY, h + 1 := h)"
    and s': "queuetab s' = t" "proctab s' = proctab s" "nextqueue s' = nextqueue s + 2"
    and lk: "\<And>k. k < Suc (length Q) \<Longrightarrow> lock_idle (ql t (qhead k)) s'"
  shows "queues_rep s' (Q @ [[]])"
proof -
  have "queue_rep t (qhead k) ((Q @ [[]]) ! k)" if "k < Suc (length Q)" for k
  proof (cases "k = length Q")
    case True
    then show ?thesis using t(2,3) h by (simp add: queue_rep_def nodes_def)
  next
    case False
    then have k: "k < length Q" using that by simp
    have lt: "qhead k + 1 < h" using k h by (simp add: qhead_def)
    have "NPROC \<le> h" using h by (simp add: qhead_def)
    then have "x < h" if "x \<in> set (nodes (qhead k) (Q ! k))" for x
      using that lt queues_repD(5)[OF rep k] by (fastforce simp: nodes_def)
    then have "qn t x = qn (queuetab s) x \<and> qp t x = qp (queuetab s) x" if "x \<in> set (nodes (qhead k) (Q ! k))" for x
      using that t(2,3) by fastforce
    from queue_rep_frame[OF queues_repD(1)[OF rep k] this] show ?thesis using k by (simp add: nth_append)
  qed
  then show ?thesis using rep room t(1) s' lk h by (simp add: queues_rep_def proctab_wf_def qhead_def)
qed

text \<open>After boot every lock is free or in use and unlocked; \<open>queue_locks\<close> are valid lock ids.\<close>

definition queue_locks :: "'a procst_scheme \<Rightarrow> nat \<Rightarrow> bool" where
  "queue_locks s n \<longleftrightarrow> (\<forall>k < n. uint (ql (queuetab s) (qhead k)) < NLOCK)"

lemma all_unlocked_create:
  "all_unlocked s \<Longrightarrow> 0 \<le> w \<Longrightarrow> w < NLOCK \<Longrightarrow>
   \<forall>e \<in> set ((locktab s)[nat w := (at (locktab s) w)\<lparr>lk_state := SPINLOCK_USED, lk_lock := SPINLOCK_UNLOCKED\<rparr>]).
     lk_lock e = SPINLOCK_UNLOCKED \<and> lk_core e = -1"
  using at_in_set[of "locktab s" w]
  by (auto simp: all_unlocked_def inb_def NLOCK_def dest!: set_update_subset_insert[THEN subsetD])

lemma newqueue_rep:
  fixes s :: "'a procst_scheme"
  assumes rep: "queues_rep s Q" and room: "qhead (length Q) + 2 \<le> NQENT" and lk: "locks_wf s" "all_unlocked s"
    and ql: "queue_locks s (length Q)" and free: "0 \<le> i" "i < NLOCK" "lock_is_free s i"
  shows "\<exists>w t. let s' = s\<lparr>nextlock := w,
        locktab := (locktab s)[nat w := (at (locktab s) w)\<lparr>lk_state := SPINLOCK_USED, lk_lock := SPINLOCK_UNLOCKED\<rparr>],
        queuetab := t, nextqueue := nextqueue s + 2\<rparr> in
      newqueue s = Some (qid (length Q), s') \<and> 0 \<le> w \<and> w < NLOCK \<and> lock_is_free s w \<and>
      queues_rep s' (Q @ [[]]) \<and> locks_wf s' \<and> all_unlocked s' \<and> queue_locks s' (Suc (length Q)) \<and>
      ql (queuetab s') = (ql (queuetab s))(qhead (length Q) := u32_of w)"
proof -
  let ?h = "qhead (length Q)" and ?T = "queuetab s"
  let ?s0 = "s\<lparr>nextqueue := nextqueue s + 2\<rparr>"
  have nq: "nextqueue s = ?h" using rep by (simp add: queues_rep_def)
  have ib: "inb ?T ?h" "inb ?T (?h + 1)"
    using rep room by (auto simp: queues_rep_def inb_def NQENT_def NPROC_def qhead_def)
  from new_pair_view[of ?s0 ?h "?h + 1"] ib obtain t where t: "do { s \<leftarrow> set_qnext ?h (?h + 1) ?s0; s \<leftarrow> set_qprev ?h EMPTY s;
      s \<leftarrow> set_qnext (?h + 1) EMPTY s; set_qprev (?h + 1) ?h s } = Some (?s0\<lparr>queuetab := t\<rparr>)" "length t = length ?T"
    "qn t = (qn ?T)(?h := ?h + 1, ?h + 1 := EMPTY)" "qp t = (qp ?T)(?h := EMPTY, ?h + 1 := ?h)" "ql t = ql ?T" by auto
  have wf4: "locks_wf (?s0\<lparr>queuetab := t\<rparr>)" using lk(1) by (simp add: locks_wf_def)
  from lock_create_found[OF wf4 free(1,2)] free(3) obtain w where w: "0 \<le> w" "w < NLOCK" "lock_is_free s w"
    "lock_create (?s0\<lparr>queuetab := t\<rparr>) = Some (u32_of w, ?s0\<lparr>queuetab := t, nextlock := w,
       locktab := (locktab s)[nat w := (at (locktab s) w)\<lparr>lk_state := SPINLOCK_USED, lk_lock := SPINLOCK_UNLOCKED\<rparr>]\<rparr>)" by auto
  have ibt: "inb t ?h" using ib(1) t(2) by (simp add: inb_def)
  define t' where "t' = t[nat ?h := (at t ?h)\<lparr>q_lock := u32_of w\<rparr>]"
  have t': "length t' = length ?T" "qn t' = qn t" "qp t' = qp t" "ql t' = (ql ?T)(?h := u32_of w)"
    using ibt t(2,5) q_upd[OF ibt, of "(at t ?h)\<lparr>q_lock := u32_of w\<rparr>"] unfolding t'_def
    by (auto simp: fun_upd_idem qn_def qp_def)
  let ?s' = "s\<lparr>nextlock := w, locktab := (locktab s)[nat w := (at (locktab s) w)\<lparr>lk_state := SPINLOCK_USED, lk_lock := SPINLOCK_UNLOCKED\<rparr>],
        queuetab := t', nextqueue := nextqueue s + 2\<rparr>"
  have "newqueue s = Some (qid (length Q), ?s')"
    using t(1) w(4) ibt nq by (auto simp: newqueue_def Let_def qid_def t'_def bind_eq_Some_conv)
  moreover have lw: "locks_wf ?s'" using lk(1) w by (simp add: locks_wf_def)
  moreover have au: "all_unlocked ?s'" using all_unlocked_create[OF lk(2) w(1,2)] lk(2) by (simp add: all_unlocked_def)
  moreover have qs: "queue_locks ?s' (Suc (length Q))"
    using ql w(1,2) t'(4) unfolding queue_locks_def by (auto simp: less_Suc_eq)
  moreover have "queues_rep ?s' (Q @ [[]])"
    using all_unlocked_idle[OF au] qs t' t(3,4)
    by (intro queues_rep_new[OF rep room refl, of t']) (auto simp: queue_locks_def)
  ultimately show ?thesis using w(1-3) t'(4) by (intro exI[of _ w] exI[of _ t']) (simp add: Let_def)
qed


section \<open>The contract of the queues\<close>

text \<open>
  \<open>rep s Q\<close>: the state holds the queues \<open>Q\<close>; \<open>live s p\<close>: \<open>p\<close> may be put on a queue; \<open>near s t\<close>:
  the two states differ in the queue structures only.
\<close>

fun enq_all :: "('p \<Rightarrow> 's \<Rightarrow> ('p \<times> 's) option) \<Rightarrow> 'p list \<Rightarrow> 's \<Rightarrow> 's option" where
  "enq_all e [] s = Some s"
| "enq_all e (p # ps) s = do { (_, s) \<leftarrow> e p s; enq_all e ps s }"

fun deq_all :: "('s \<Rightarrow> ('p \<times> 's) option) \<Rightarrow> nat \<Rightarrow> 's \<Rightarrow> ('p list \<times> 's) option" where
  "deq_all d 0 s = Some ([], s)"
| "deq_all d (Suc n) s = do { (p, s) \<leftarrow> d s; (ps, s) \<leftarrow> deq_all d n s; Some (p # ps, s) }"

locale fifo_queues =
  fixes enq :: "int \<Rightarrow> 'p \<Rightarrow> nat \<Rightarrow> 's \<Rightarrow> ('p \<times> 's) option"
    and deq :: "int \<Rightarrow> nat \<Rightarrow> 's \<Rightarrow> ('p \<times> 's) option"
    and rep :: "'s \<Rightarrow> 'p list list \<Rightarrow> bool"
    and live :: "'s \<Rightarrow> 'p \<Rightarrow> bool"
    and near :: "'s \<Rightarrow> 's \<Rightarrow> bool"
    and none :: 'p
  assumes enq_ok: "rep s Q \<Longrightarrow> k < length Q \<Longrightarrow> live s p \<Longrightarrow> p \<notin> set (concat Q) \<Longrightarrow>
      \<exists>t. enq c p k s = Some (p, t) \<and> rep t (Q[k := Q ! k @ [p]]) \<and> near s t"
    and deq_ok: "rep s Q \<Longrightarrow> k < length Q \<Longrightarrow> Q ! k = p # ps \<Longrightarrow>
      \<exists>t. deq c k s = Some (p, t) \<and> rep t (Q[k := ps]) \<and> near s t"
    and deq_none: "rep s Q \<Longrightarrow> k < length Q \<Longrightarrow> Q ! k = [] \<Longrightarrow> deq c k s = Some (none, s)"
    and near_refl: "near s s"
    and near_trans: "near s t \<Longrightarrow> near t u \<Longrightarrow> near s u"
    and near_live: "near s t \<Longrightarrow> live t = live s"
    and rep_distinct: "rep s Q \<Longrightarrow> distinct (concat Q)"
begin

text \<open>Moving the head of one queue to the tail of another.\<close>

lemma move_head:
  assumes "rep s Q" "j < length Q" "k < length Q" "j \<noteq> k" "Q ! j = p # ps" "live s p"
  shows "\<exists>t. do { (q, s) \<leftarrow> deq c j s; enq c q k s } = Some (p, t) \<and> rep t (Q[j := ps, k := Q ! k @ [p]]) \<and> near s t"
proof -
  from deq_ok[OF assms(1,2,5), of c] obtain u where u: "deq c j s = Some (p, u)" "rep u (Q[j := ps])" "near s u" by blast
  have Q: "Q = take j Q @ (p # ps) # drop (Suc j) Q" using id_take_nth_drop[OF assms(2)] assms(5) by simp
  have U: "Q[j := ps] = take j Q @ ps # drop (Suc j) Q" using assms(2) by (rule upd_conv_take_nth_drop)
  have "distinct (concat (take j Q @ (p # ps) # drop (Suc j) Q))" using rep_distinct[OF assms(1)] Q by simp
  then have "p \<notin> set (concat (Q[j := ps]))" unfolding U by (auto simp del: set_concat)
  from enq_ok[OF u(2) _ _ this, of k c] assms near_live[OF u(3)] obtain t where
    "enq c p k u = Some (p, t)" "rep t (Q[j := ps, k := Q ! k @ [p]])" "near u t" by auto
  with u near_trans show ?thesis by (intro exI[of _ t]) auto
qed

text \<open>Putting several processes on a queue, one after the other, and taking them off.\<close>

lemma enq_all_ok:
  assumes "rep s Q" "k < length Q" "distinct ps" "\<And>p. p \<in> set ps \<Longrightarrow> live s p \<and> p \<notin> set (concat Q)"
  shows "\<exists>t. enq_all (\<lambda>p. enq c p k) ps s = Some t \<and> rep t (Q[k := Q ! k @ ps]) \<and> near s t"
  using assms
proof (induction ps arbitrary: s Q)
  case Nil
  then show ?case using near_refl by simp
next
  case (Cons p ps)
  from enq_ok[OF Cons.prems(1,2), of p c] Cons.prems(4)[of p] obtain t where
    t: "enq c p k s = Some (p, t)" "rep t (Q[k := Q ! k @ [p]])" "near s t" by auto
  have "live t q \<and> q \<notin> set (concat (Q[k := Q ! k @ [p]]))" if "q \<in> set ps" for q
  proof -
    have "set (concat (Q[k := Q ! k @ [p]])) \<subseteq> insert p (set (concat Q))"
      using Cons.prems(2) by (auto dest!: set_update_subset_insert[THEN subsetD])
    then show ?thesis using Cons.prems(3) Cons.prems(4)[of q] that near_live[OF t(3)] by auto
  qed
  from Cons.IH[OF t(2) _ _ this] Cons.prems(2,3) obtain u where
    "enq_all (\<lambda>p. enq c p k) ps t = Some u" "rep u (Q[k := Q ! k @ p # ps])" "near t u" by auto
  with t near_trans show ?case by auto
qed

lemma deq_all_ok:
  assumes "rep s Q" "k < length Q" "Q ! k = ps @ qs"
  shows "\<exists>t. deq_all (deq c k) (length ps) s = Some (ps, t) \<and> rep t (Q[k := qs]) \<and> near s t"
  using assms
proof (induction ps arbitrary: s Q)
  case Nil
  then have "Q[k := qs] = Q" by (simp add: list_update_same_conv)
  then show ?case using Nil near_refl by simp
next
  case (Cons p ps)
  from deq_ok[OF Cons.prems(1,2), of p "ps @ qs" c] Cons.prems(3) obtain t where
    t: "deq c k s = Some (p, t)" "rep t (Q[k := ps @ qs])" "near s t" by auto
  from Cons.IH[OF t(2)] Cons.prems(2) obtain u where "deq_all (deq c k) (length ps) t = Some (ps, u)"
    "rep u (Q[k := qs])" "near t u" by auto
  with t near_trans show ?case by auto
qed

end

definition live_pid :: "'a procst_scheme \<Rightarrow> int \<Rightarrow> bool" where
  "live_pid s p \<longleftrightarrow> 0 \<le> p \<and> p < NPROC \<and> p_state (pcb_of s p) \<noteq> PRFREE"

definition same_but_queues :: "'a procst_scheme \<Rightarrow> 'a procst_scheme \<Rightarrow> bool" where
  "same_but_queues s t \<longleftrightarrow> (\<exists>T. t = s\<lparr>queuetab := T\<rparr>)"

interpretation pq: fifo_queues "\<lambda>c p k. enqueue c p (qid k)" "\<lambda>c k. dequeue c (qid k)" queues_rep live_pid same_but_queues EMPTY
proof unfold_locales
  fix s t u :: "'a procst_scheme" and Q k p ps c
  show "\<exists>t. enqueue c p (qid k) s = Some (p, t) \<and> queues_rep t (Q[k := Q ! k @ [p]]) \<and> same_but_queues s t"
    if "queues_rep s Q" "k < length Q" "live_pid s p" "p \<notin> set (concat Q)"
    using enqueue_rep[OF that(1,2) _ _ _ that(4), of c] that(3) by (auto simp: live_pid_def same_but_queues_def)
  show "\<exists>t. dequeue c (qid k) s = Some (p, t) \<and> queues_rep t (Q[k := ps]) \<and> same_but_queues s t"
    if "queues_rep s Q" "k < length Q" "Q ! k = p # ps"
    using dequeue_rep[OF that, of c] by (auto simp: same_but_queues_def)
  show "dequeue c (qid k) s = Some (EMPTY, s)" if "queues_rep s Q" "k < length Q" "Q ! k = []"
    by (rule dequeue_empty[OF that])
  show "same_but_queues s s" by (auto simp: same_but_queues_def intro!: exI[of _ "queuetab s"])
  show "same_but_queues s u" if "same_but_queues s t" "same_but_queues t u"
    using that by (auto simp: same_but_queues_def)
  show "live_pid t = live_pid s" if "same_but_queues s t"
    using that by (auto simp: same_but_queues_def live_pid_def fun_eq_iff)
  show "distinct (concat Q)" if "queues_rep s Q" using that by (simp add: queues_rep_def)
qed


section \<open>Properties of the queues\<close>


text \<open>A table with one queue that holds processes 7 and 9.\<close>

definition pcb_ex :: pcb where
  "pcb_ex = \<lparr>p_state = PRSUSP, priority = 1, stkbase = 0, stklen = 4096, core_affinity = 0, p_name = [], regs = replicate 16 0,
     msg_var = \<lparr>hasMessage = 0, msgin = 0, msgout = 0, msgqueue = 0, core_com_lock = 0\<rparr>\<rparr>"

definition procst_ex :: procst where
  "procst_ex = \<lparr>locktab = replicate 150 \<lparr>lk_state = SPINLOCK_USED, lk_lock = SPINLOCK_UNLOCKED, lk_core = -1\<rparr>, nextlock = 0,
     mem = (\<lambda>_. 0), freelist = [], memheap = 0, maxaddr = 0, proctab = replicate 50 pcb_ex,
     queuetab = (replicate 174 \<lparr>q_next = 0, q_prev = 0, q_lock = 3\<rparr>)
       [50 := \<lparr>q_next = 7, q_prev = EMPTY, q_lock = 3\<rparr>, 7 := \<lparr>q_next = 9, q_prev = 50, q_lock = 0\<rparr>,
        9 := \<lparr>q_next = 51, q_prev = 7, q_lock = 0\<rparr>, 51 := \<lparr>q_next = EMPTY, q_prev = 9, q_lock = 0\<rparr>],
     nextqueue = 52, readylist = [], currpid = [], numproc = 4, nextpid = 0, preempt = [], promote_medium = [],
     promote_low = [], clkticks = [], clktime = [], cpu = []\<rparr>"

lemma procst_ex_rep: "queues_rep procst_ex [[7, 9]]"
  by (simp add: queues_rep_def procst_ex_def proctab_wf_def queue_rep_def nodes_def qhead_def lock_idle_def
      qn_def qp_def ql_def inb_def kernel_consts spinlock_consts)


text \<open>
  C22. First in, first out: processes put on an empty queue one after the other, by any core,
  come off in the same order, by any core, and leave the queue empty again.
\<close>

theorem queue_fifo:
  assumes rep: "queues_rep s Q" and k: "k < length Q" "Q ! k = []" and "distinct ps"
    and "\<And>p. p \<in> set ps \<Longrightarrow> live_pid s p \<and> p \<notin> set (concat Q)"
  shows "\<exists>t u. enq_all (\<lambda>p. enqueue c p (qid k)) ps s = Some t \<and>
    deq_all (dequeue d (qid k)) (length ps) t = Some (ps, u) \<and> queues_rep u Q"
proof -
  from pq.enq_all_ok[OF rep k(1) assms(4,5), of c] k obtain t where
    t: "enq_all (\<lambda>p. enqueue c p (qid k)) ps s = Some t" "queues_rep t (Q[k := ps])" by auto
  from pq.deq_all_ok[OF t(2), of k ps "[]" d] k obtain u where
    "deq_all (dequeue d (qid k)) (length ps) t = Some (ps, u)" "queues_rep u (Q[k := []])" by auto
  moreover have "Q[k := []] = Q" using k by (simp add: list_update_same_conv)
  ultimately show ?thesis using t(1) by auto
qed

theorem queue_fifo_witness:
  "\<exists>(s :: procst) t u. queues_rep s [[]] \<and> enq_all (\<lambda>p. enqueue 0 p (qid 0)) [30, 8, 21] s = Some t \<and>
     deq_all (dequeue 3 (qid 0)) (length [30 :: int, 8, 21]) t = Some ([30, 8, 21], u)"
proof -
  from pq.deq_all_ok[OF procst_ex_rep, of 0 "[7, 9]" "[]" 0] obtain s where s: "queues_rep s [[]]" "same_but_queues procst_ex s" by auto
  then have "live_pid s = live_pid procst_ex" by (intro pq.near_live)
  then have "\<And>p. p \<in> set [30, 8, 21] \<Longrightarrow> live_pid s p"
    by (auto simp: live_pid_def procst_ex_def pcb_ex_def NPROC_def pr_consts)
  then have "\<exists>t u. enq_all (\<lambda>p. enqueue 0 p (qid 0)) [30, 8, 21] s = Some t \<and>
      deq_all (dequeue 3 (qid 0)) (length [30 :: int, 8, 21]) t = Some ([30, 8, 21], u) \<and> queues_rep u [[]]"
    by (intro queue_fifo[OF s(1)]) simp_all
  with s(1) show ?thesis by blast
qed

end
