(* ===== verification/C_Strings.thy ===== *)
theory C_Strings
  imports Xinu_Base "HOL-Library.Sublist"
begin

text \<open>
  The string and memory routines of \<^verbatim>\<open>lib/libxc\<close>: \<^verbatim>\<open>strlen\<close>, \<^verbatim>\<open>strnlen\<close>, \<^verbatim>\<open>strcpy\<close>,
  \<^verbatim>\<open>strncpy\<close>, \<^verbatim>\<open>strlcpy\<close>, \<^verbatim>\<open>strncat\<close>, \<^verbatim>\<open>strcmp\<close>, \<^verbatim>\<open>strncmp\<close>, \<^verbatim>\<open>strchr\<close>, \<^verbatim>\<open>strrchr\<close>,
  \<^verbatim>\<open>strstr\<close>, \<^verbatim>\<open>memcpy\<close>, \<^verbatim>\<open>memset\<close>, \<^verbatim>\<open>memcmp\<close>, \<^verbatim>\<open>memchr\<close> and \<^verbatim>\<open>bzero\<close>.

  A pointer argument is the list of the bytes of its object from the pointer on; reading or
  writing past the list is \<open>None\<close>. Source and destination are different objects, as the
  routines require. A returned pointer into the argument is an offset, and a null pointer is
  the inner \<open>None\<close>. Each routine is shown to compute what its name means on the string
  \<open>cstr\<close> that a buffer holds.
\<close>

type_synonym buf = "u8 list"

definition nget :: "'a list \<Rightarrow> nat \<Rightarrow> 'a option" where
  "nget xs i = (if i < length xs then Some (xs ! i) else None)"

definition nset :: "'a list \<Rightarrow> nat \<Rightarrow> 'a \<Rightarrow> 'a list option" where
  "nset xs i v = (if i < length xs then Some (xs[i := v]) else None)"

text \<open>\<open>(int)(unsigned char)a - (int)(unsigned char)b\<close>\<close>

definition char_diff :: "u8 \<Rightarrow> u8 \<Rightarrow> int" where
  "char_diff a b = uint a - uint b"

section \<open>Length\<close>

function strlen_loop :: "buf \<Rightarrow> nat \<Rightarrow> nat option" where
  "strlen_loop s n =
     (if n < length s then if s ! n \<noteq> 0 then strlen_loop s (n + 1) else Some n else None)"
  by pat_completeness auto
termination by (relation "measure (\<lambda>(s, n). length s - n)") auto

definition strlen :: "buf \<Rightarrow> nat option" where
  "strlen s = strlen_loop s 0"

function strnlen_loop :: "buf \<Rightarrow> nat \<Rightarrow> nat \<Rightarrow> nat option" where
  "strnlen_loop s maxlen n =
     (if n < length s
      then if s ! n \<noteq> 0 \<and> n < maxlen then strnlen_loop s maxlen (n + 1) else Some n
      else None)"
  by pat_completeness auto
termination by (relation "measure (\<lambda>(s, m, n). length s - n)") auto

definition strnlen :: "buf \<Rightarrow> nat \<Rightarrow> nat option" where
  "strnlen s maxlen = strnlen_loop s maxlen 0"

section \<open>Copying and filling\<close>

function strcpy_loop :: "buf \<Rightarrow> buf \<Rightarrow> nat \<Rightarrow> buf option" where
  "strcpy_loop dest src i =
     (if i < length src \<and> i < length dest
      then let dest' = dest[i := src ! i] in
           if src ! i \<noteq> 0 then strcpy_loop dest' src (i + 1) else Some dest'
      else None)"
  by pat_completeness auto
termination by (relation "measure (\<lambda>(d, s, i). length s - i)") auto

definition strcpy :: "buf \<Rightarrow> buf \<Rightarrow> buf option" where
  "strcpy dest src = strcpy_loop dest src 0"

text \<open>The first loop of \<^verbatim>\<open>strncpy\<close> reads \<^verbatim>\<open>src[i]\<close> before it compares \<open>i\<close> with \<open>n\<close>.\<close>

function strncpy_copy :: "buf \<Rightarrow> buf \<Rightarrow> nat \<Rightarrow> nat \<Rightarrow> (nat \<times> buf) option" where
  "strncpy_copy dest src n i =
     (if i < length src
      then if src ! i \<noteq> 0 \<and> i < n
           then if i < length dest then strncpy_copy (dest[i := src ! i]) src n (i + 1) else None
           else Some (i, dest)
      else None)"
  by pat_completeness auto
termination by (relation "measure (\<lambda>(d, s, n, i). length s - i)") auto

function strncpy_pad :: "buf \<Rightarrow> nat \<Rightarrow> nat \<Rightarrow> buf option" where
  "strncpy_pad dest n i =
     (if i < n then if i < length dest then strncpy_pad (dest[i := 0]) n (i + 1) else None
      else Some dest)"
  by pat_completeness auto
termination by (relation "measure (\<lambda>(d, n, i). n - i)") auto

definition strncpy :: "buf \<Rightarrow> buf \<Rightarrow> nat \<Rightarrow> buf option" where
  "strncpy dest src n = do { (i, dest) \<leftarrow> strncpy_copy dest src n 0; strncpy_pad dest n i }"

function memcpy_loop :: "buf \<Rightarrow> buf \<Rightarrow> nat \<Rightarrow> nat \<Rightarrow> buf option" where
  "memcpy_loop dest src n i =
     (if i < n
      then if i < length src \<and> i < length dest then memcpy_loop (dest[i := src ! i]) src n (i + 1) else None
      else Some dest)"
  by pat_completeness auto
termination by (relation "measure (\<lambda>(d, s, n, i). n - i)") auto

definition memcpy :: "buf \<Rightarrow> buf \<Rightarrow> nat \<Rightarrow> buf option" where
  "memcpy dest src n = memcpy_loop dest src n 0"

definition strlcpy :: "buf \<Rightarrow> buf \<Rightarrow> nat \<Rightarrow> (nat \<times> buf) option" where
  "strlcpy dest src destsize =
     do {
       srclen \<leftarrow> strlen src;
       if destsize \<noteq> 0
       then do {
         let copylen = (if destsize - 1 < srclen then destsize - 1 else srclen);
         dest \<leftarrow> memcpy dest src copylen;
         dest \<leftarrow> nset dest copylen 0;
         Some (srclen, dest)
       }
       else Some (srclen, dest)
     }"

function memset_loop :: "buf \<Rightarrow> u8 \<Rightarrow> nat \<Rightarrow> nat \<Rightarrow> buf option" where
  "memset_loop s byte n i =
     (if i < n then if i < length s then memset_loop (s[i := byte]) byte n (i + 1) else None else Some s)"
  by pat_completeness auto
termination by (relation "measure (\<lambda>(s, b, n, i). n - i)") auto

definition memset :: "buf \<Rightarrow> int \<Rightarrow> nat \<Rightarrow> buf option" where
  "memset s c n = memset_loop s (word_of_int c) n 0"

definition bzero :: "buf \<Rightarrow> nat \<Rightarrow> buf option" where
  "bzero s n = memset s 0 n"

section \<open>Searching\<close>

function strchr_loop :: "buf \<Rightarrow> u8 \<Rightarrow> nat \<Rightarrow> nat option option" where
  "strchr_loop s ch i =
     (if i < length s
      then if s ! i = ch then Some (Some i)
           else if s ! i \<noteq> 0 then strchr_loop s ch (i + 1) else Some None
      else None)"
  by pat_completeness auto
termination by (relation "measure (\<lambda>(s, c, i). length s - i)") auto

definition strchr :: "buf \<Rightarrow> int \<Rightarrow> nat option option" where
  "strchr s c = strchr_loop s (word_of_int c) 0"

function strrchr_loop :: "buf \<Rightarrow> u8 \<Rightarrow> nat option \<Rightarrow> nat \<Rightarrow> nat option option" where
  "strrchr_loop s ch r i =
     (if i < length s
      then let r' = (if s ! i = ch then Some i else r) in
           if s ! i \<noteq> 0 then strrchr_loop s ch r' (i + 1) else Some r'
      else None)"
  by pat_completeness auto
termination by (relation "measure (\<lambda>(s, c, r, i). length s - i)") auto

definition strrchr :: "buf \<Rightarrow> int \<Rightarrow> nat option option" where
  "strrchr s c = strrchr_loop s (word_of_int c) None 0"

function memchr_loop :: "buf \<Rightarrow> u8 \<Rightarrow> nat \<Rightarrow> nat \<Rightarrow> nat option option" where
  "memchr_loop s byte n i =
     (if i < n
      then if i < length s then if s ! i = byte then Some (Some i) else memchr_loop s byte n (i + 1) else None
      else Some None)"
  by pat_completeness auto
termination by (relation "measure (\<lambda>(s, b, n, i). n - i)") auto

definition memchr :: "buf \<Rightarrow> int \<Rightarrow> nat \<Rightarrow> nat option option" where
  "memchr s c n = memchr_loop s (word_of_int c) n 0"

section \<open>Comparing\<close>

function strcmp_loop :: "buf \<Rightarrow> buf \<Rightarrow> nat \<Rightarrow> int option" where
  "strcmp_loop s1 s2 i =
     (if i < length s1 \<and> i < length s2
      then if s1 ! i = s2 ! i \<and> s1 ! i \<noteq> 0 then strcmp_loop s1 s2 (i + 1)
           else Some (char_diff (s1 ! i) (s2 ! i))
      else None)"
  by pat_completeness auto
termination by (relation "measure (\<lambda>(s, t, i). length s - i)") auto

definition strcmp :: "buf \<Rightarrow> buf \<Rightarrow> int option" where
  "strcmp s1 s2 = strcmp_loop s1 s2 0"

text \<open>The right operand of \<open>||\<close> in \<^verbatim>\<open>strncmp\<close> is read only where the left one is false.\<close>

function strncmp_loop :: "buf \<Rightarrow> buf \<Rightarrow> nat \<Rightarrow> nat \<Rightarrow> int option" where
  "strncmp_loop s1 s2 n i =
     (if i < n
      then if i < length s1 \<and> i < length s2
           then if s1 ! i = 0 \<or> s1 ! i \<noteq> s2 ! i then Some (char_diff (s1 ! i) (s2 ! i))
                else strncmp_loop s1 s2 n (i + 1)
           else None
      else Some 0)"
  by pat_completeness auto
termination by (relation "measure (\<lambda>(s, t, n, i). n - i)") auto

definition strncmp :: "buf \<Rightarrow> buf \<Rightarrow> nat \<Rightarrow> int option" where
  "strncmp s1 s2 n = strncmp_loop s1 s2 n 0"

function memcmp_loop :: "buf \<Rightarrow> buf \<Rightarrow> nat \<Rightarrow> nat \<Rightarrow> int option" where
  "memcmp_loop s1 s2 n i =
     (if i < n
      then if i < length s1 \<and> i < length s2
           then if s1 ! i \<noteq> s2 ! i then Some (char_diff (s1 ! i) (s2 ! i)) else memcmp_loop s1 s2 n (i + 1)
           else None
      else Some 0)"
  by pat_completeness auto
termination by (relation "measure (\<lambda>(s, t, n, i). n - i)") auto

definition memcmp :: "buf \<Rightarrow> buf \<Rightarrow> nat \<Rightarrow> int option" where
  "memcmp s1 s2 n = memcmp_loop s1 s2 n 0"

function strstr_loop :: "buf \<Rightarrow> buf \<Rightarrow> nat \<Rightarrow> nat \<Rightarrow> nat option option" where
  "strstr_loop haystack needle needle_len i =
     (if i < length haystack
      then if haystack ! i \<noteq> 0
           then do {
             r \<leftarrow> strncmp (drop i haystack) needle needle_len;
             if r = 0 then Some (Some i) else strstr_loop haystack needle needle_len (i + 1)
           }
           else Some None
      else None)"
  by pat_completeness auto
termination by (relation "measure (\<lambda>(h, n, l, i). length h - i)") auto

definition strstr :: "buf \<Rightarrow> buf \<Rightarrow> nat option option" where
  "strstr haystack needle =
     do { needle_len \<leftarrow> strlen needle; strstr_loop haystack needle needle_len 0 }"

section \<open>Appending\<close>

function strncat_loop :: "buf \<Rightarrow> nat \<Rightarrow> buf \<Rightarrow> nat \<Rightarrow> nat \<Rightarrow> (nat \<times> buf) option" where
  "strncat_loop dest off src n i =
     (if i < n
      then if i < length src
           then if src ! i \<noteq> 0
                then if off + i < length dest
                     then strncat_loop (dest[off + i := src ! i]) off src n (i + 1) else None
                else Some (i, dest)
           else None
      else Some (i, dest))"
  by pat_completeness auto
termination by (relation "measure (\<lambda>(d, off, s, n, i). n - i)") auto

text \<open>\<^verbatim>\<open>strchr(dest, '\0')\<close> always finds the terminator of a string.\<close>

definition strncat :: "buf \<Rightarrow> buf \<Rightarrow> nat \<Rightarrow> buf option" where
  "strncat dest src n =
     do {
       p \<leftarrow> strchr dest 0;
       off \<leftarrow> p;
       (i, dest) \<leftarrow> strncat_loop dest off src n 0;
       nset dest (off + i) 0
     }"

section \<open>Strings in buffers\<close>

text \<open>The string a buffer holds, and that it holds one (there is a terminator).\<close>

definition cstr :: "buf \<Rightarrow> buf" where
  "cstr s = takeWhile (\<lambda>c. c \<noteq> 0) s"

definition is_cstr :: "buf \<Rightarrow> bool" where
  "is_cstr s \<longleftrightarrow> 0 \<in> set s"

lemma cstr_simps [simp]:
  "cstr [] = []" "cstr (c # s) = (if c = 0 then [] else c # cstr s)"
  "is_cstr [] = False" "is_cstr (c # s) \<longleftrightarrow> c = 0 \<or> is_cstr s"
  by (auto simp: cstr_def is_cstr_def)

lemma cstr_nonzero: "c \<in> set (cstr s) \<Longrightarrow> c \<noteq> 0"
  by (auto simp: cstr_def dest: set_takeWhileD)

lemma cstr_split: "is_cstr s \<Longrightarrow> \<exists>r. s = cstr s @ 0 # r"
  by (induction s) auto

lemma cstr_append_zero: "0 \<notin> set xs \<Longrightarrow> cstr (xs @ 0 # ys) = xs"
  by (induction xs) auto

lemma is_cstr_append: "is_cstr (xs @ 0 # ys)"
  by (simp add: is_cstr_def)

lemma cstr_length: "is_cstr s \<Longrightarrow> length (cstr s) < length s"
  by (induction s) auto

lemma nth_cstr: "i < length (cstr s) \<Longrightarrow> s ! i = cstr s ! i"
  by (simp add: cstr_def takeWhile_nth)

lemma nth_cstr_end: "is_cstr s \<Longrightarrow> s ! length (cstr s) = 0"
  by (induction s) auto

lemma drop_Cons: "n < length s \<Longrightarrow> drop n s = s ! n # drop (n + 1) s"
  by (simp add: Cons_nth_drop_Suc)

declare strlen_loop.simps [simp del] strnlen_loop.simps [simp del] strcpy_loop.simps [simp del]
  strncpy_copy.simps [simp del] strncpy_pad.simps [simp del] memcpy_loop.simps [simp del]
  memset_loop.simps [simp del] strchr_loop.simps [simp del] strrchr_loop.simps [simp del]
  memchr_loop.simps [simp del] strcmp_loop.simps [simp del] strncmp_loop.simps [simp del]
  memcmp_loop.simps [simp del] strstr_loop.simps [simp del] strncat_loop.simps [simp del]

lemma strlen_loop_drop:
  "n \<le> length s \<Longrightarrow> strlen_loop s n = (if is_cstr (drop n s) then Some (n + length (cstr (drop n s))) else None)"
proof (induction s n rule: strlen_loop.induct)
  case (1 s n)
  show ?case
  proof (cases "n < length s")
    case True
    with 1 show ?thesis by (simp add: strlen_loop.simps[of s n] drop_Cons)
  qed (use 1 in \<open>simp add: strlen_loop.simps\<close>)
qed

lemma strlen_cstr: "strlen s = (if is_cstr s then Some (length (cstr s)) else None)"
  using strlen_loop_drop[of 0 s] by (simp add: strlen_def)

lemma strnlen_loop_drop:
  "n \<le> m \<Longrightarrow> is_cstr (drop n s) \<or> m < length s \<Longrightarrow>
   strnlen_loop s m n = Some (min m (n + length (cstr (drop n s))))"
proof (induction s m n rule: strnlen_loop.induct)
  case (1 s m n)
  then have "n < length s" by (cases "n < length s") (auto simp: is_cstr_def)
  with 1 show ?case
    by (cases "s ! n \<noteq> 0 \<and> n < m") (auto simp: strnlen_loop.simps[of s m n] drop_Cons)
qed

lemma strnlen_cstr: "is_cstr s \<or> n < length s \<Longrightarrow> strnlen s n = Some (min n (length (cstr s)))"
  using strnlen_loop_drop[of 0 n s] by (simp add: strnlen_def)

text \<open>Filling a prefix of a buffer element by element.\<close>

lemma memcpy_loop_take:
  "i \<le> n \<Longrightarrow> n \<le> length src \<Longrightarrow> n \<le> length dest \<Longrightarrow>
   memcpy_loop dest src n i = Some (take i dest @ take (n - i) (drop i src) @ drop n dest)"
proof (induction dest src n i rule: memcpy_loop.induct)
  case (1 dest src n i)
  show ?case
  proof (cases "i < n")
    case True
    then have b: "i < length src" "i < length dest" using 1 by auto
    have "take (n - i) (drop i src) = src ! i # take (n - (i + 1)) (drop (i + 1) src)"
      using True b by (simp add: drop_Cons take_Cons')
    with 1 True b show ?thesis
      by (simp add: memcpy_loop.simps[of dest src n i] take_Suc_conv_app_nth)
  next
    case False
    with 1 show ?thesis by (simp add: memcpy_loop.simps)
  qed
qed

lemma memcpy_take:
  "n \<le> length src \<Longrightarrow> n \<le> length dest \<Longrightarrow> memcpy dest src n = Some (take n src @ drop n dest)"
  using memcpy_loop_take[of 0 n src dest] by (simp add: memcpy_def)

lemma memset_loop_take:
  "i \<le> n \<Longrightarrow> n \<le> length s \<Longrightarrow> memset_loop s b n i = Some (take i s @ replicate (n - i) b @ drop n s)"
proof (induction s b n i rule: memset_loop.induct)
  case (1 s b n i)
  show ?case
  proof (cases "i < n")
    case True
    then have "replicate (n - i) b = b # replicate (n - (i + 1)) b" by (simp flip: replicate_Suc add: Suc_diff_Suc)
    with 1 True show ?thesis by (simp add: memset_loop.simps[of s b n i] take_Suc_conv_app_nth)
  next
    case False
    with 1 show ?thesis by (simp add: memset_loop.simps)
  qed
qed

lemma memset_take: "n \<le> length s \<Longrightarrow> memset s c n = Some (replicate n (word_of_int c) @ drop n s)"
  using memset_loop_take[of 0 n s] by (simp add: memset_def)

lemma bzero_take: "n \<le> length s \<Longrightarrow> bzero s n = Some (replicate n 0 @ drop n s)"
  by (simp add: bzero_def memset_take)


lemma strcpy_loop_drop:
  "is_cstr (drop i src) \<Longrightarrow> i + length (cstr (drop i src)) < length dest \<Longrightarrow>
   strcpy_loop dest src i =
     Some (take i dest @ cstr (drop i src) @ 0 # drop (i + length (cstr (drop i src)) + 1) dest)"
proof (induction dest src i rule: strcpy_loop.induct)
  case (1 dest src i)
  then have b: "i < length src" "i < length dest" by (cases "i < length src", auto simp: is_cstr_def)+
  show ?case
  proof (cases "src ! i = 0")
    case True
    with b show ?thesis by (simp add: strcpy_loop.simps[of dest src i] drop_Cons upd_conv_take_nth_drop Let_def)
  next
    case False
    with b 1 have "strcpy_loop (dest[i := src ! i]) src (i + 1) = Some (take (i + 1) (dest[i := src ! i]) @
        cstr (drop (i + 1) src) @ 0 # drop (i + 1 + length (cstr (drop (i + 1) src)) + 1) (dest[i := src ! i]))"
      by (simp add: drop_Cons)
    with False b show ?thesis by (simp add: strcpy_loop.simps[of dest src i] drop_Cons take_Suc_conv_app_nth Let_def)
  qed
qed

lemma strcpy_cstr:
  "is_cstr src \<Longrightarrow> length (cstr src) < length dest \<Longrightarrow>
   strcpy dest src = Some (cstr src @ 0 # drop (length (cstr src) + 1) dest)"
  using strcpy_loop_drop[of 0 src dest] by (simp add: strcpy_def)

lemma strncpy_copy_drop:
  "i \<le> n \<Longrightarrow> is_cstr (drop i src) \<or> n < length src \<Longrightarrow> n \<le> length dest \<Longrightarrow> k = min (n - i) (length (cstr (drop i src))) \<Longrightarrow>
   strncpy_copy dest src n i = Some (i + k, take i dest @ take k (drop i src) @ drop (i + k) dest)"
proof (induction dest src n i arbitrary: k rule: strncpy_copy.induct)
  case (1 dest src n i)
  then have b: "i < length src" by (cases "i < length src") (auto simp: is_cstr_def)
  show ?case
  proof (cases "src ! i \<noteq> 0 \<and> i < n")
    case False
    then have "k = 0" using "1.prems" b by (auto simp: drop_Cons)
    with False b show ?thesis by (auto simp: strncpy_copy.simps[of dest src n i])
  next
    case True
    let ?k = "min (n - (i + 1)) (length (cstr (drop (i + 1) src)))"
    have d: "i < length dest" using True 1 by simp
    have k: "k = Suc ?k" using True "1.prems"(4) b by (auto simp: drop_Cons min_def)
    from 1 True b d have "strncpy_copy (dest[i := src ! i]) src n (i + 1) =
        Some (i + 1 + ?k, take (i + 1) (dest[i := src ! i]) @ take ?k (drop (i + 1) src) @ drop (i + 1 + ?k) (dest[i := src ! i]))"
      by (simp add: drop_Cons)
    with True b d k show ?thesis
      by (simp add: strncpy_copy.simps[of dest src n i] drop_Cons take_Suc_conv_app_nth)
  qed
qed

lemma strncpy_pad_take:
  "i \<le> n \<Longrightarrow> n \<le> length d \<Longrightarrow> strncpy_pad d n i = Some (take i d @ replicate (n - i) 0 @ drop n d)"
proof (induction d n i rule: strncpy_pad.induct)
  case (1 d n i)
  show ?case
  proof (cases "i < n")
    case True
    then have "replicate (n - i) 0 = 0 # replicate (n - (i + 1)) (0::u8)" by (simp flip: replicate_Suc add: Suc_diff_Suc)
    with 1 True show ?thesis by (simp add: strncpy_pad.simps[of d n i] take_Suc_conv_app_nth)
  next
    case False
    with 1 show ?thesis by (simp add: strncpy_pad.simps)
  qed
qed

lemma take_cstr: "k \<le> length (cstr s) \<Longrightarrow> take k s = take k (cstr s)"
  by (induction s arbitrary: k) (auto simp: take_Cons' split: if_splits)

text \<open>\<^verbatim>\<open>strncpy\<close> fills exactly \<open>n\<close> bytes: the first \<open>n\<close> of the string, padded with zeros.\<close>

lemma strncpy_cstr:
  assumes "is_cstr src \<or> n < length src" and "n \<le> length dest"
  shows "strncpy dest src n = Some (take n (cstr src @ replicate n 0) @ drop n dest)"
proof -
  let ?k = "min n (length (cstr src))"
  have "strncpy dest src n = strncpy_pad (take ?k src @ drop ?k dest) n ?k"
    using strncpy_copy_drop[of 0 n src dest ?k] assms by (simp add: strncpy_def)
  also have "\<dots> = Some (take ?k (cstr src) @ replicate (n - ?k) 0 @ drop n dest)"
  proof (subst strncpy_pad_take)
    have "length (cstr src) \<le> length src" by (simp add: cstr_def length_takeWhile_le)
    then have l: "length (take ?k src) = ?k" by simp
    then show "n \<le> length (take ?k src @ drop ?k dest)" using assms(2) by simp
    show "Some (take ?k (take ?k src @ drop ?k dest) @ replicate (n - ?k) 0 @ drop n (take ?k src @ drop ?k dest)) =
      Some (take ?k (cstr src) @ replicate (n - ?k) 0 @ drop n dest)"
      using l take_cstr[of ?k src] assms(2) by simp
  qed simp
  moreover have "take ?k (cstr src) @ replicate (n - ?k) 0 = take n (cstr src @ replicate n 0)"
    by (auto simp: min_def)
  ultimately show ?thesis by (metis append.assoc)
qed

lemma strlcpy_cstr:
  assumes "is_cstr src" and "sz \<le> length dest" and "sz \<noteq> 0"
  shows "strlcpy dest src sz = Some (length (cstr src),
     take (sz - 1) (cstr src) @ 0 # drop (min (sz - 1) (length (cstr src)) + 1) dest)"
proof -
  let ?k = "min (sz - 1) (length (cstr src))"
  have k: "?k < length src" "?k < length dest" using cstr_length[OF assms(1)] assms(2,3) by auto
  then have "memcpy dest src ?k = Some (take ?k src @ drop ?k dest)" by (intro memcpy_take) simp_all
  moreover have "take ?k src = take (sz - 1) (cstr src)" using take_cstr[of ?k src] by (simp add: min_def)
  moreover have "(if sz - 1 < length (cstr src) then sz - 1 else length (cstr src)) = ?k" by (simp add: min_def)
  moreover have "(take ?k src @ drop ?k dest)[?k := 0] = take ?k src @ 0 # drop (?k + 1) dest"
    using k by (simp add: list_update_append drop_Cons)
  moreover have "?k < length (take ?k src @ drop ?k dest)" using k by simp
  ultimately show ?thesis
    using assms by (simp add: strlcpy_def strlen_cstr nset_def Let_def del: length_append)
qed


section \<open>Comparison\<close>

text \<open>What a comparison result says of two strings.\<close>

definition cmp_result :: "int \<Rightarrow> buf \<Rightarrow> buf \<Rightarrow> bool" where
  "cmp_result r xs ys \<longleftrightarrow> (r = 0 \<longleftrightarrow> xs = ys) \<and> (r < 0 \<longleftrightarrow> ord_class.lexordp xs ys) \<and> (r > 0 \<longleftrightarrow> ord_class.lexordp ys xs)"

lemma cmp_result_diff: "a \<noteq> b \<Longrightarrow> cmp_result (char_diff a b) (a # xs) (b # ys)"
  by (auto simp: cmp_result_def char_diff_def word_less_alt word_uint_eq_iff)

lemma cmp_result_step: "cmp_result r xs ys \<Longrightarrow> cmp_result r (a # xs) (a # ys)"
  by (auto simp: cmp_result_def)

lemma cmp_result_nil: "cmp_result 0 [] []"
  by (simp add: cmp_result_def)

lemma cmp_result_shorter:
  "b \<noteq> 0 \<Longrightarrow> cmp_result (char_diff 0 b) [] (b # ys)" "a \<noteq> 0 \<Longrightarrow> cmp_result (char_diff a 0) (a # xs) []"
proof -
  have "0 < uint (c :: u8) \<and> uint c \<noteq> 0" if "c \<noteq> 0" for c
    using that uint_ge_0[of c] by (metis less_le uint_0_iff)
  then show "b \<noteq> 0 \<Longrightarrow> cmp_result (char_diff 0 b) [] (b # ys)" "a \<noteq> 0 \<Longrightarrow> cmp_result (char_diff a 0) (a # xs) []"
    by (auto simp: cmp_result_def char_diff_def)
qed

lemma cmp_result_char:
  assumes "a = 0 \<or> b = 0 \<or> a \<noteq> b"
  shows "cmp_result (char_diff a b) (cstr (a # xs)) (cstr (b # ys))"
  using assms cmp_result_diff cmp_result_shorter cmp_result_nil by (auto simp: char_diff_def)

lemma drop_bound: "is_cstr (drop i s) \<Longrightarrow> i < length s"
  by (cases "i < length s") (auto simp: is_cstr_def)

lemma strcmp_loop_drop:
  "is_cstr (drop i s1) \<Longrightarrow> is_cstr (drop i s2) \<Longrightarrow>
   \<exists>r. strcmp_loop s1 s2 i = Some r \<and> cmp_result r (cstr (drop i s1)) (cstr (drop i s2))"
proof (induction s1 s2 i rule: strcmp_loop.induct)
  case (1 s1 s2 i)
  note b = drop_bound[OF "1.prems"(1)] drop_bound[OF "1.prems"(2)]
  show ?case
  proof (cases "s1 ! i = s2 ! i \<and> s1 ! i \<noteq> 0")
    case True
    with 1 b obtain r where "strcmp_loop s1 s2 (i + 1) = Some r"
      "cmp_result r (cstr (drop (i + 1) s1)) (cstr (drop (i + 1) s2))" by (auto simp: drop_Cons)
    with True b cmp_result_step show ?thesis by (auto simp: strcmp_loop.simps[of s1 s2 i] drop_Cons)
  next
    case False
    then have "s1 ! i = 0 \<or> s2 ! i = 0 \<or> s1 ! i \<noteq> s2 ! i" by auto
    from cmp_result_char[OF this] False b show ?thesis
      by (auto simp: strcmp_loop.simps[of s1 s2 i] drop_Cons[of i s1] drop_Cons[of i s2])
  qed
qed

lemma strcmp_cstr:
  "is_cstr s1 \<Longrightarrow> is_cstr s2 \<Longrightarrow> \<exists>r. strcmp s1 s2 = Some r \<and> cmp_result r (cstr s1) (cstr s2)"
  using strcmp_loop_drop[of 0 s1 s2] by (simp add: strcmp_def)

lemma strncmp_loop_drop:
  "i \<le> n \<Longrightarrow> is_cstr (drop i s1) \<or> n \<le> length s1 \<Longrightarrow> is_cstr (drop i s2) \<or> n \<le> length s2 \<Longrightarrow>
   \<exists>r. strncmp_loop s1 s2 n i = Some r \<and>
     cmp_result r (take (n - i) (cstr (drop i s1))) (take (n - i) (cstr (drop i s2)))"
proof (induction s1 s2 n i rule: strncmp_loop.induct)
  case (1 s1 s2 n i)
  show ?case
  proof (cases "i < n")
    case False
    then show ?thesis using "1.prems"(1) by (simp add: strncmp_loop.simps cmp_result_nil)
  next
    case True
    then have b: "i < length s1" "i < length s2" using "1.prems" drop_bound by force+
    have n: "n - i = Suc (n - (i + 1))" using True by simp
    show ?thesis
    proof (cases "s1 ! i = 0 \<or> s1 ! i \<noteq> s2 ! i")
      case eq: False
      with 1 True b obtain r where "strncmp_loop s1 s2 n (i + 1) = Some r"
        "cmp_result r (take (n - (i + 1)) (cstr (drop (i + 1) s1))) (take (n - (i + 1)) (cstr (drop (i + 1) s2)))"
        by (auto simp: drop_Cons)
      with eq True b cmp_result_step show ?thesis unfolding n
        by (auto simp: strncmp_loop.simps[of s1 s2 n i] drop_Cons[of i s1] drop_Cons[of i s2])
    next
      case diff: True
      then have d: "s1 ! i = 0 \<or> s2 ! i = 0 \<or> s1 ! i \<noteq> s2 ! i" by auto
      have "cmp_result (char_diff (s1 ! i) (s2 ! i)) (take (Suc k) (cstr (s1 ! i # xs))) (take (Suc k) (cstr (s2 ! i # ys)))" for k xs ys
        using d cmp_result_diff cmp_result_shorter cmp_result_nil by (auto simp: char_diff_def)
      with diff True b show ?thesis unfolding n
        by (auto simp: strncmp_loop.simps[of s1 s2 n i] drop_Cons[of i s1] drop_Cons[of i s2])
    qed
  qed
qed

lemma strncmp_cstr:
  "is_cstr s1 \<or> n \<le> length s1 \<Longrightarrow> is_cstr s2 \<or> n \<le> length s2 \<Longrightarrow>
   \<exists>r. strncmp s1 s2 n = Some r \<and> cmp_result r (take n (cstr s1)) (take n (cstr s2))"
  using strncmp_loop_drop[of 0 n s1 s2] by (simp add: strncmp_def)

lemma memcmp_loop_drop:
  "i \<le> n \<Longrightarrow> n \<le> length s1 \<Longrightarrow> n \<le> length s2 \<Longrightarrow>
   \<exists>r. memcmp_loop s1 s2 n i = Some r \<and> cmp_result r (take (n - i) (drop i s1)) (take (n - i) (drop i s2))"
proof (induction s1 s2 n i rule: memcmp_loop.induct)
  case (1 s1 s2 n i)
  show ?case
  proof (cases "i < n")
    case False
    then show ?thesis using "1.prems"(1) by (simp add: memcmp_loop.simps cmp_result_nil)
  next
    case True
    then have b: "i < length s1" "i < length s2" using "1.prems" by auto
    have n: "n - i = Suc (n - (i + 1))" using True by simp
    show ?thesis
    proof (cases "s1 ! i = s2 ! i")
      case eq: True
      with 1 True b obtain r where "memcmp_loop s1 s2 n (i + 1) = Some r"
        "cmp_result r (take (n - (i + 1)) (drop (i + 1) s1)) (take (n - (i + 1)) (drop (i + 1) s2))" by auto
      with eq True b cmp_result_step show ?thesis unfolding n
        by (auto simp: memcmp_loop.simps[of s1 s2 n i] drop_Cons[of i s1] drop_Cons[of i s2])
    next
      case False
      then show ?thesis using True b cmp_result_diff[OF False] unfolding n
        by (auto simp: memcmp_loop.simps[of s1 s2 n i] drop_Cons[of i s1] drop_Cons[of i s2])
    qed
  qed
qed

lemma memcmp_take:
  "n \<le> length s1 \<Longrightarrow> n \<le> length s2 \<Longrightarrow>
   \<exists>r. memcmp s1 s2 n = Some r \<and> cmp_result r (take n s1) (take n s2)"
  using memcmp_loop_drop[of 0 n s1 s2] by (simp add: memcmp_def)

section \<open>Searching\<close>

lemma strchr_loop_drop:
  "is_cstr (drop i s) \<Longrightarrow> strchr_loop s ch i =
     Some (if ch = 0 \<or> ch \<in> set (cstr (drop i s)) then Some (i + length (takeWhile (\<lambda>x. x \<noteq> ch) (cstr (drop i s)))) else None)"
proof (induction s ch i rule: strchr_loop.induct)
  case (1 s ch i)
  then have b: "i < length s" by (intro drop_bound)
  with 1 show ?case by (auto simp: strchr_loop.simps[of s ch i] drop_Cons)
qed

lemma strchr_cstr:
  "is_cstr s \<Longrightarrow> ch = word_of_int c \<Longrightarrow> strchr s c =
     Some (if ch = 0 \<or> ch \<in> set (cstr s) then Some (length (takeWhile (\<lambda>x. x \<noteq> ch) (cstr s))) else None)"
  using strchr_loop_drop[of 0 s ch] by (simp add: strchr_def)

text \<open>\<open>last_index ch xs\<close>: the position of the last \<open>ch\<close> in \<open>xs\<close>.\<close>

definition last_index :: "'a \<Rightarrow> 'a list \<Rightarrow> nat option" where
  "last_index ch xs = (if ch \<in> set xs then Some (length xs - 1 - length (takeWhile (\<lambda>x. x \<noteq> ch) (rev xs))) else None)"

lemma last_index_Cons:
  "last_index ch (x # xs) = (case last_index ch xs of Some k \<Rightarrow> Some (Suc k) | None \<Rightarrow> if x = ch then Some 0 else None)"
proof (cases "ch \<in> set xs")
  case True
  then obtain ys zs where xs: "xs = ys @ ch # zs" "ch \<notin> set zs" by (meson split_list_last)
  have tw: "takeWhile (\<lambda>x. x \<noteq> ch) (rev zs @ ch # rest) = rev zs" for rest using xs(2) by (induction zs rule: rev_induct) auto
  show ?thesis using xs by (simp add: last_index_def tw)
next
  case False
  then have "takeWhile (\<lambda>y. y \<noteq> ch) (rev xs @ [x]) = rev xs @ (if x = ch then [] else [x])" by (auto simp: takeWhile_append)
  then show ?thesis using False by (auto simp: last_index_def)
qed

lemma strrchr_loop_drop:
  "is_cstr (drop i s) \<Longrightarrow> strrchr_loop s ch r i =
     Some (case last_index ch (cstr (drop i s) @ [0]) of Some k \<Rightarrow> Some (i + k) | None \<Rightarrow> r)"
proof (induction s ch r i rule: strrchr_loop.induct)
  case (1 s ch r i)
  then have b: "i < length s" by (intro drop_bound)
  show ?case
  proof (cases "s ! i = 0")
    case True
    then show ?thesis using b by (simp add: strrchr_loop.simps[of s ch r i] drop_Cons last_index_def Let_def)
  next
    case False
    with 1 b show ?thesis
      by (auto simp: strrchr_loop.simps[of s ch r i] drop_Cons last_index_Cons Let_def split: option.splits)
  qed
qed

lemma strrchr_cstr:
  "is_cstr s \<Longrightarrow> strrchr s c = Some (last_index (word_of_int c) (cstr s @ [0]))"
  using strrchr_loop_drop[of 0 s] by (simp add: strrchr_def split: option.splits)

lemma memchr_loop_drop:
  "i \<le> n \<Longrightarrow> n \<le> length s \<Longrightarrow> memchr_loop s b n i =
     Some (if b \<in> set (take (n - i) (drop i s)) then Some (i + length (takeWhile (\<lambda>x. x \<noteq> b) (drop i s))) else None)"
proof (induction s b n i rule: memchr_loop.induct)
  case (1 s b n i)
  show ?case
  proof (cases "i < n")
    case True
    then have n: "n - i = Suc (n - (i + 1))" and l: "i < length s" using "1.prems" by auto
    with 1 True show ?thesis unfolding n by (auto simp: memchr_loop.simps[of s b n i] drop_Cons[OF l])
  qed (use "1.prems" in \<open>simp add: memchr_loop.simps\<close>)
qed

lemma memchr_take:
  "n \<le> length s \<Longrightarrow> memchr s c n = Some (if word_of_int c \<in> set (take n s)
     then Some (length (takeWhile (\<lambda>x. x \<noteq> word_of_int c) s)) else None)"
  using memchr_loop_drop[of 0 n s] by (simp add: memchr_def)

lemma cstr_drop: "i \<le> length (cstr s) \<Longrightarrow> cstr (drop i s) = drop i (cstr s)"
  by (induction s arbitrary: i) (auto simp: drop_Cons' split: if_splits)

lemma is_cstr_drop: "is_cstr s \<Longrightarrow> i \<le> length (cstr s) \<Longrightarrow> is_cstr (drop i s)"
  by (induction s arbitrary: i) (auto simp: drop_Cons' split: if_splits)

lemma strstr_prefix:
  assumes "is_cstr hs" and "i \<le> length (cstr hs)" and "is_cstr needle"
  shows "\<exists>r. strncmp (drop i hs) needle (length (cstr needle)) = Some r \<and> (r = 0 \<longleftrightarrow> prefix (cstr needle) (drop i (cstr hs)))"
proof -
  let ?n = "cstr needle" and ?h = "drop i (cstr hs)"
  obtain r where r: "strncmp (drop i hs) needle (length ?n) = Some r" "cmp_result r (take (length ?n) ?h) ?n"
    using strncmp_cstr[of "drop i hs" "length ?n" needle] is_cstr_drop[OF assms(1,2)] cstr_drop[OF assms(2)] assms(3) by auto
  moreover have "take (length ?n) ?h = ?n \<longleftrightarrow> prefix ?n ?h"
    by (metis append_eq_conv_conj prefix_def take_is_prefix)
  ultimately show ?thesis by (auto simp: cmp_result_def)
qed

lemma strstr_loop_first:
  assumes "is_cstr hs" and "is_cstr needle" and "i \<le> length (cstr hs)"
  shows "strstr_loop hs needle (length (cstr needle)) i =
    Some (if \<exists>j. i \<le> j \<and> j < length (cstr hs) \<and> prefix (cstr needle) (drop j (cstr hs))
          then Some (LEAST j. i \<le> j \<and> j < length (cstr hs) \<and> prefix (cstr needle) (drop j (cstr hs))) else None)"
  using assms(3)
proof (induction "length (cstr hs) - i" arbitrary: i)
  case 0
  then have i: "i = length (cstr hs)" by simp
  then show ?case using nth_cstr_end[OF assms(1)] cstr_length[OF assms(1)] by (simp add: strstr_loop.simps)
next
  case (Suc k)
  let ?P = "\<lambda>i j. i \<le> j \<and> j < length (cstr hs) \<and> prefix (cstr needle) (drop j (cstr hs))"
  from Suc have i: "i < length (cstr hs)" "i < length hs" using cstr_length[OF assms(1)] by auto
  have nz: "hs ! i \<noteq> 0" using nth_cstr[OF i(1)] cstr_nonzero[of "cstr hs ! i" hs] i(1) by simp
  from strstr_prefix[OF assms(1) Suc.prems assms(2)] obtain r where
    r: "strncmp (drop i hs) needle (length (cstr needle)) = Some r" "r = 0 \<longleftrightarrow> prefix (cstr needle) (drop i (cstr hs))" by blast
  show ?case
  proof (cases "r = 0")
    case True
    then have "?P i i" using r i by simp
    then have "(LEAST j. ?P i j) = i" "\<exists>j. ?P i j" by (auto intro!: Least_equality)
    with True r i nz show ?thesis by (simp add: strstr_loop.simps[of _ _ _ i])
  next
    case False
    then have "\<not> prefix (cstr needle) (drop i (cstr hs))" using r by simp
    then have eq: "?P i = ?P (i + 1)" by (auto simp: fun_eq_iff Suc_le_eq) (metis le_neq_implies_less)
    have "strstr_loop hs needle (length (cstr needle)) i = strstr_loop hs needle (length (cstr needle)) (i + 1)"
      using False r i nz by (simp add: strstr_loop.simps[of _ _ _ i])
    with Suc.hyps(1)[of "i + 1"] Suc.hyps(2) i(1) show ?thesis unfolding eq by simp
  qed
qed

lemma strncat_loop_drop:
  "i \<le> n \<Longrightarrow> is_cstr (drop i src) \<or> n \<le> length src \<Longrightarrow> k = min (n - i) (length (cstr (drop i src))) \<Longrightarrow>
   off + i + k \<le> length dest \<Longrightarrow>
   strncat_loop dest off src n i = Some (i + k, take (off + i) dest @ take k (drop i src) @ drop (off + i + k) dest)"
proof (induction dest off src n i arbitrary: k rule: strncat_loop.induct)
  case (1 dest off src n i)
  show ?case
  proof (cases "i < n")
    case False
    then show ?thesis using "1.prems" by (simp add: strncat_loop.simps)
  next
    case True
    then have b: "i < length src" using "1.prems"(2) drop_bound by auto
    show ?thesis
    proof (cases "src ! i = 0")
      case z: True
      then have "k = 0" using "1.prems"(3) b by (simp add: drop_Cons)
      with z True b show ?thesis by (simp add: strncat_loop.simps[of dest off src n i])
    next
      case nz: False
      let ?k = "min (n - (i + 1)) (length (cstr (drop (i + 1) src)))"
      have k: "k = Suc ?k" using True nz "1.prems"(3) b by (auto simp: drop_Cons min_def)
      then have d: "off + i < length dest" using "1.prems"(4) by simp
      from 1 True nz b d k have "strncat_loop (dest[off + i := src ! i]) off src n (i + 1) = Some (i + 1 + ?k,
          take (off + (i + 1)) (dest[off + i := src ! i]) @ take ?k (drop (i + 1) src) @
          drop (off + (i + 1) + ?k) (dest[off + i := src ! i]))" by (simp add: drop_Cons)
      with True nz b d k show ?thesis
        by (simp add: strncat_loop.simps[of dest off src n i] drop_Cons take_Suc_conv_app_nth)
    qed
  qed
qed

lemma strncat_cstr:
  assumes "is_cstr dest" and "is_cstr src \<or> n \<le> length src" and fit: "length (cstr dest) + min n (length (cstr src)) < length dest"
  shows "strncat dest src n = Some (cstr dest @ take n (cstr src) @ 0 # drop (length (cstr dest) + min n (length (cstr src)) + 1) dest)"
proof -
  let ?o = "length (cstr dest)" and ?k = "min n (length (cstr src))"
  have all: "takeWhile (\<lambda>x. x \<noteq> 0) (cstr dest) = cstr dest" by (simp add: cstr_def)
  have len: "length (cstr src) \<le> length src" by (simp add: cstr_def length_takeWhile_le)
  have t: "take ?o dest = cstr dest" by (simp add: cstr_def takeWhile_eq_take[symmetric])
  have ts: "take ?k src = take n (cstr src)" using take_cstr[of ?k src] by (simp add: min_def)
  have "strncat_loop dest ?o src n 0 = Some (?k, cstr dest @ take ?k src @ drop (?o + ?k) dest)"
    using strncat_loop_drop[of 0 n src ?k ?o dest] assms(2) fit t by simp
  moreover have "strchr dest 0 = Some (Some ?o)" using strchr_cstr[OF assms(1), of 0 0] all by simp
  moreover have "(cstr dest @ take ?k src @ drop (?o + ?k) dest)[?o + ?k := 0] =
      cstr dest @ take ?k src @ 0 # drop (?o + ?k + 1) dest"
    using fit len by (simp add: list_update_append drop_Cons)
  moreover have "?o + ?k < length (cstr dest @ take ?k src @ drop (?o + ?k) dest)" using fit len by simp
  ultimately show ?thesis by (simp add: strncat_def nset_def ts del: length_append)
qed


section \<open>Properties of the string routines\<close>

text \<open>
  C23. \<^verbatim>\<open>strcmp\<close> and \<^verbatim>\<open>strncmp\<close> order strings: on two terminated strings they return a value that is
  zero exactly when the strings (their first \<open>n\<close> characters) are equal, negative exactly when
  the first is before the second in lexicographic order of unsigned characters, positive
  exactly when it is after.
\<close>

theorem strcmp_order:
  assumes "is_cstr s1" and "is_cstr s2"
  shows "(\<exists>r. strcmp s1 s2 = Some r \<and> cmp_result r (cstr s1) (cstr s2)) \<and>
    (\<exists>r. strncmp s1 s2 n = Some r \<and> cmp_result r (take n (cstr s1)) (take n (cstr s2)))"
  by (intro conjI strcmp_cstr strncmp_cstr disjI1 assms)

theorem strcmp_order_witness:
  "is_cstr [65, 200, 0] \<and> is_cstr [65, 66, 67, 0] \<and>
   (\<exists>r. strcmp [65, 200, 0] [65, 66, 67, 0] = Some r \<and> r > 0) \<and> (\<exists>r. strncmp [65, 200, 0] [65, 66, 67, 0] 1 = Some r \<and> r = 0)"
proof -
  have c: "is_cstr [65, 200, 0]" "is_cstr [65, 66, 67, 0]" by simp_all
  then show ?thesis using strcmp_order[OF c, of 1] by (auto simp: cmp_result_def)
qed

text \<open>
  C24. \<^verbatim>\<open>strlcpy\<close> never overruns: with a destination of \<open>sz > 0\<close> bytes it writes the string cut to
  \<open>sz - 1\<close> characters, always terminated, leaves the rest of the buffer alone and returns the
  length of the source, so that a result of at least \<open>sz\<close> tells of truncation.
\<close>

theorem strlcpy_bounded:
  assumes "is_cstr src" and "sz \<le> length dest" and "sz \<noteq> 0"
  shows "\<exists>d. strlcpy dest src sz = Some (length (cstr src), d) \<and> length d = length dest \<and> is_cstr d \<and>
    cstr d = take (sz - 1) (cstr src) \<and> drop sz d = drop sz dest"
proof -
  let ?k = "min (sz - 1) (length (cstr src))"
  let ?d = "take (sz - 1) (cstr src) @ 0 # drop (?k + 1) dest"
  have k: "length (take (sz - 1) (cstr src)) = ?k" by (simp add: min.commute)
  have "0 \<notin> set (take (sz - 1) (cstr src))" using cstr_nonzero[of 0 src] by (auto dest: in_set_takeD)
  then have "cstr ?d = take (sz - 1) (cstr src)" by (rule cstr_append_zero)
  moreover have "drop sz ?d = drop sz dest" using k assms(2,3) by (auto simp: drop_append Suc_diff_le drop_Cons')
  moreover have "length ?d = length dest" using k assms(2,3) by simp
  ultimately show ?thesis using strlcpy_cstr[OF assms] is_cstr_append by blast
qed

theorem strlcpy_bounded_witness:
  "\<exists>d. strlcpy [1, 2, 3, 4] [65, 66, 67, 68, 0] 3 = Some (4, d) \<and> cstr d = [65, 66] \<and> drop 3 d = [4]"
proof -
  have "\<exists>d. strlcpy [1, 2, 3, 4] [65, 66, 67, 68, 0] 3 = Some (length (cstr [65, 66, 67, 68, 0]), d) \<and>
      length d = length [1 :: u8, 2, 3, 4] \<and> is_cstr d \<and> cstr d = take (3 - 1) (cstr [65, 66, 67, 68, 0]) \<and> drop 3 d = drop 3 [1, 2, 3, 4]"
    by (rule strlcpy_bounded) simp_all
  then show ?thesis by auto
qed



text \<open>
  C26. \<^verbatim>\<open>strncpy\<close> fills exactly \<open>n\<close> bytes (the string cut to \<open>n\<close> characters, padded with zeros),
  but its loop reads \<^verbatim>\<open>src[i]\<close> before it tests \<open>i < n\<close>: on a source object of exactly \<open>n\<close>
  characters without terminator, which the routine is meant to accept, it reads one byte past the
  object.
\<close>

theorem strncpy_overread:
  assumes "n \<le> length dest"
  shows "(is_cstr src \<longrightarrow> strncpy dest src n = Some (take n (cstr src @ replicate n 0) @ drop n dest)) \<and>
    (length src = n \<and> \<not> is_cstr src \<longrightarrow> strncpy dest src n = None)"
proof (intro conjI impI)
  show "strncpy dest src n = Some (take n (cstr src @ replicate n 0) @ drop n dest)" if "is_cstr src"
    using strncpy_cstr[of src n dest] that assms by blast
  have "strncpy_copy d src n i = None" if "length src = n" "\<not> is_cstr src" "i \<le> n" for d i
    using that
  proof (induction d src n i rule: strncpy_copy.induct)
    case (1 d src n i)
    have "src ! i \<noteq> 0" if "i < length src" using 1(3) that by (auto simp: is_cstr_def dest: nth_mem)
    then show ?case using 1 by (auto simp: strncpy_copy.simps[of d src n i])
  qed
  then show "strncpy dest src n = None" if "length src = n \<and> \<not> is_cstr src" using that by (simp add: strncpy_def)
qed

theorem strncpy_overread_witness:
  "strncpy [9, 9, 9, 9] [65, 66, 0] 4 = Some [65, 66, 0, 0] \<and> strncpy [9, 9, 9, 9] [65, 66] 2 = None"
proof -
  have "replicate 4 (0::u8) = [0, 0, 0, 0]" by (simp add: numeral_eq_Suc)
  then show ?thesis using strncpy_overread[of 4 "[9, 9, 9, 9]" "[65, 66, 0]"] strncpy_overread[of 2 "[9, 9, 9, 9]" "[65, 66]"] by simp
qed

end
