(* ===== verification/Quicksort.thy ===== *)
theory Quicksort
  imports C_Strings "HOL-Library.Multiset"
begin

text \<open>
  \<^verbatim>\<open>qsort\<close> (\<^verbatim>\<open>lib/libxc/qsort.c\<close>) on the bytes of an array: \<open>a\<close> is the memory that the call
  may touch, pointers are offsets into it, and an element is the \<open>size\<close> bytes at its
  pointer. The comparison callback is an argument, a function of the bytes of the two
  elements. The recursion and the partition loop are \<open>partial_function\<close>s; that they return is a theorem.
\<close>

section \<open>The code\<close>

definition elem :: "nat \<Rightarrow> buf \<Rightarrow> nat \<Rightarrow> buf option" where
  "elem sz a p = (if p + sz \<le> length a then Some (take sz (drop p a)) else None)"

function swap_loop :: "buf \<Rightarrow> nat \<Rightarrow> nat \<Rightarrow> nat \<Rightarrow> nat \<Rightarrow> buf option" where
  "swap_loop a p1 p2 sz i =
     (if i < sz
      then do {
        tmp \<leftarrow> nget a (p1 + i);
        y \<leftarrow> nget a (p2 + i);
        a \<leftarrow> nset a (p1 + i) y;
        a \<leftarrow> nset a (p2 + i) tmp;
        swap_loop a p1 p2 sz (i + 1)
      }
      else Some a)"
  by pat_completeness auto
termination by (relation "measure (\<lambda>(a, p1, p2, sz, i). sz - i)") auto

declare swap_loop.simps [simp del]

definition swap_elements :: "buf \<Rightarrow> nat \<Rightarrow> nat \<Rightarrow> nat \<Rightarrow> buf option" where
  "swap_elements a p1 p2 sz = swap_loop a p1 p2 sz 0"

partial_function (option) partition_loop ::
  "(buf \<Rightarrow> buf \<Rightarrow> int) \<Rightarrow> nat \<Rightarrow> nat \<Rightarrow> buf \<Rightarrow> nat \<Rightarrow> nat \<Rightarrow> nat \<Rightarrow> (nat \<times> nat \<times> buf) option" where
  "partition_loop compar base sz a p1 p2 p1_index =
     do {
       x \<leftarrow> elem sz a p1;
       pivot \<leftarrow> elem sz a base;
       if compar x pivot \<le> 0
       then if p1 + sz \<noteq> p2 then partition_loop compar base sz a (p1 + sz) p2 (p1_index + 1)
            else Some (p1 + sz, p1_index + 1, a)
       else do {
         a \<leftarrow> swap_elements a p1 (p2 - sz) sz;
         if p1 \<noteq> p2 - sz then partition_loop compar base sz a p1 (p2 - sz) p1_index
         else Some (p1, p1_index, a)
       }
     }"

definition qpartition :: "(buf \<Rightarrow> buf \<Rightarrow> int) \<Rightarrow> buf \<Rightarrow> nat \<Rightarrow> nat \<Rightarrow> nat \<Rightarrow> (nat \<times> buf) option" where
  "qpartition compar a base nmemb sz =
     do {
       (p1, p1_index, a) \<leftarrow> partition_loop compar base sz a (base + sz) (base + nmemb * sz) 1;
       a \<leftarrow> swap_elements a (p1 - sz) base sz;
       Some (p1_index - 1, a)
     }"

partial_function (option) qsort :: "(buf \<Rightarrow> buf \<Rightarrow> int) \<Rightarrow> buf \<Rightarrow> nat \<Rightarrow> nat \<Rightarrow> nat \<Rightarrow> buf option" where
  "qsort compar a base nmemb sz =
     (if nmemb > 1
      then do {
        (pivot_index, a) \<leftarrow> qpartition compar a base nmemb sz;
        a \<leftarrow> qsort compar a base pivot_index sz;
        qsort compar a (base + (pivot_index + 1) * sz) (nmemb - (pivot_index + 1)) sz
      }
      else Some a)"

section \<open>Elements\<close>

definition els :: "nat \<Rightarrow> buf \<Rightarrow> nat \<Rightarrow> nat \<Rightarrow> buf list" where
  "els sz a base n = map (\<lambda>i. take sz (drop (base + i * sz) a)) [0..<n]"

definition same_outside :: "nat \<Rightarrow> nat \<Rightarrow> buf \<Rightarrow> buf \<Rightarrow> bool" where
  "same_outside lo hi a a' \<longleftrightarrow> length a' = length a \<and> (\<forall>k. k < lo \<or> hi \<le> k \<longrightarrow> k < length a \<longrightarrow> a' ! k = a ! k)"

lemma els_length [simp]: "length (els sz a base n) = n"
  by (simp add: els_def)

lemma els_nth [simp]: "i < n \<Longrightarrow> els sz a base n ! i = take sz (drop (base + i * sz) a)"
  by (simp add: els_def)

lemma same_outside_refl [simp]: "same_outside lo hi a a"
  by (simp add: same_outside_def)

lemma same_outside_trans: "same_outside lo hi a b \<Longrightarrow> same_outside lo hi b c \<Longrightarrow> same_outside lo hi a c"
  by (auto simp: same_outside_def)

lemma same_outside_mono: "same_outside lo hi a b \<Longrightarrow> lo' \<le> lo \<Longrightarrow> hi \<le> hi' \<Longrightarrow> same_outside lo' hi' a b"
  by (auto simp: same_outside_def)

lemma same_outside_els:
  assumes "same_outside lo hi a b" and "base + n * sz \<le> lo \<or> hi \<le> base" and "base + n * sz \<le> length a"
  shows "els sz b base n = els sz a base n"
proof (rule nth_equalityI)
  fix i assume "i < length (els sz b base n)"
  then have i: "i < n" by simp
  then have "(i + 1) * sz \<le> n * sz" by (intro mult_le_mono1) simp
  then have "base + i * sz + sz \<le> base + n * sz" by simp
  then show "els sz b base n ! i = els sz a base n ! i"
    using assms i by (auto simp: same_outside_def intro!: nth_equalityI)
qed simp

text \<open>Exchanging the bytes \<open>i\<close> to \<open>sz - 1\<close> of two elements that do not overlap.\<close>

definition swapped :: "nat \<Rightarrow> nat \<Rightarrow> nat \<Rightarrow> nat \<Rightarrow> buf \<Rightarrow> nat \<Rightarrow> u8" where
  "swapped p1 p2 sz i a k =
     (if p1 + i \<le> k \<and> k < p1 + sz then a ! (p2 + (k - p1))
      else if p2 + i \<le> k \<and> k < p2 + sz then a ! (p1 + (k - p2)) else a ! k)"

lemma swapped_step:
  assumes "i < sz" and "p1 + i < length a" and "p2 + i < length a" and ov: "p1 + sz \<le> p2 \<or> p2 + sz \<le> p1 \<or> p1 = p2"
  shows "swapped p1 p2 sz (i + 1) (a[p1 + i := a ! (p2 + i), p2 + i := a ! (p1 + i)]) k = swapped p1 p2 sz i a k"
proof (cases "p1 = p2")
  case True
  then show ?thesis by (auto simp: swapped_def)
next
  case False
  then have d: "p1 + sz \<le> p2 \<or> p2 + sz \<le> p1" using ov by auto
  consider "p1 + i < k" "k < p1 + sz" | "p2 + i < k" "k < p2 + sz" | "k = p1 + i" | "k = p2 + i"
    | "k < p1 + i \<or> p1 + sz \<le> k" "k < p2 + i \<or> p2 + sz \<le> k" by linarith
  then show ?thesis
  proof cases
    case 1
    moreover have "p2 + (k - p1) \<noteq> p1 + i" "p2 + (k - p1) \<noteq> p2 + i" using 1 d assms(1) by linarith+
    ultimately show ?thesis by (simp add: swapped_def)
  next
    case 2
    moreover have "p1 + (k - p2) \<noteq> p1 + i" "p1 + (k - p2) \<noteq> p2 + i" "k < p1 + i \<or> p1 + sz \<le> k" using 2 d assms(1) by linarith+
    ultimately show ?thesis by (auto simp: swapped_def)
  next
    case 3
    moreover have "k < p2 \<or> p2 + sz \<le> k" using 3 d assms(1) by linarith
    ultimately show ?thesis using assms by (auto simp: swapped_def)
  next
    case 4
    moreover have "k < p1 \<or> p1 + sz \<le> k" using 4 d assms(1) by linarith
    ultimately show ?thesis using assms by (auto simp: swapped_def)
  next
    case 5
    then have "k \<noteq> p1 + i" "k \<noteq> p2 + i" using assms(1) by linarith+
    then show ?thesis using 5 by (auto simp: swapped_def)
  qed
qed

lemma swap_loop_nth:
  assumes "i \<le> sz" and "p1 + sz \<le> length a" and "p2 + sz \<le> length a" and "p1 + sz \<le> p2 \<or> p2 + sz \<le> p1 \<or> p1 = p2"
  shows "\<exists>b. swap_loop a p1 p2 sz i = Some b \<and> length b = length a \<and> (\<forall>k. b ! k = swapped p1 p2 sz i a k)"
  using assms
proof (induction "sz - i" arbitrary: a i)
  case 0
  then show ?case by (subst swap_loop.simps) (auto simp: swapped_def)
next
  case (Suc n)
  then have b: "i < sz" "p1 + i < length a" "p2 + i < length a" by auto
  let ?b = "a[p1 + i := a ! (p2 + i), p2 + i := a ! (p1 + i)]"
  have "\<exists>c. swap_loop ?b p1 p2 sz (i + 1) = Some c \<and> length c = length ?b \<and> (\<forall>k. c ! k = swapped p1 p2 sz (i + 1) ?b k)"
    using Suc.prems Suc.hyps(2) b(1) by (intro Suc.hyps(1)) auto
  then obtain c where c: "swap_loop ?b p1 p2 sz (i + 1) = Some c" "length c = length a" "\<forall>k. c ! k = swapped p1 p2 sz (i + 1) ?b k" by auto
  have "swap_loop a p1 p2 sz i = Some c" by (subst swap_loop.simps) (use b c(1) in \<open>simp add: nget_def nset_def\<close>)
  then show ?case using c swapped_step[OF b Suc.prems(4)] by auto
qed

lemma swap_elements_els:
  assumes sz: "base + n * sz \<le> length a" and i: "i < n" "j < n"
  shows "\<exists>b. swap_elements a (base + i * sz) (base + j * sz) sz = Some b \<and> same_outside base (base + n * sz) a b \<and>
    els sz b base n = (els sz a base n)[i := els sz a base n ! j, j := els sz a base n ! i]"
proof -
  have fit: "base + k * sz + sz \<le> base + n * sz" if "k < n" for k
    using mult_le_mono1[of "k + 1" n sz] that by simp
  have apart: "k * sz + sz \<le> l * sz" if "k < l" for k l :: nat
    using mult_le_mono1[of "k + 1" l sz] that by simp
  have "base + i * sz + sz \<le> base + j * sz \<or> base + j * sz + sz \<le> base + i * sz \<or> base + i * sz = base + j * sz"
    using apart[of i j] apart[of j i] by (cases i j rule: linorder_cases) auto
  from swap_loop_nth[OF _ _ _ this, of 0 a] fit[OF i(1)] fit[OF i(2)] sz obtain b where
    b: "swap_loop a (base + i * sz) (base + j * sz) sz 0 = Some b" "length b = length a"
      "\<forall>k. b ! k = swapped (base + i * sz) (base + j * sz) sz 0 a k" by auto
  have "same_outside base (base + n * sz) a b"
    using b(2,3) fit[OF i(1)] fit[OF i(2)] by (auto simp: same_outside_def swapped_def)
  moreover have "els sz b base n = (els sz a base n)[i := els sz a base n ! j, j := els sz a base n ! i]"
  proof (rule nth_equalityI)
    fix l assume "l < length (els sz b base n)"
    then have l: "l < n" by simp
    let ?r = "(els sz a base n)[i := els sz a base n ! j, j := els sz a base n ! i]"
    have at: "b ! (base + l * sz + k) = a ! (base + (if l = i then j else if l = j then i else l) * sz + k)" if "k < sz" for k
    proof -
      consider "l = i" | "l = j" "l \<noteq> i" | "l \<noteq> i" "l \<noteq> j" by auto
      then show ?thesis
      proof cases
        case 3
        then have "l * sz + sz \<le> i * sz \<or> i * sz + sz \<le> l * sz" "l * sz + sz \<le> j * sz \<or> j * sz + sz \<le> l * sz"
          using apart[of i l] apart[of l i] apart[of j l] apart[of l j] by (metis linorder_neqE_nat)+
        then show ?thesis using 3 that b(3)[rule_format, of "base + l * sz + k"] by (auto simp: swapped_def)
      next
        case 2
        then have "l * sz + sz \<le> i * sz \<or> i * sz + sz \<le> l * sz" using apart[of i l] apart[of l i] by (metis linorder_neqE_nat)
        then show ?thesis using 2 that b(3)[rule_format, of "base + l * sz + k"] by (auto simp: swapped_def)
      qed (use that b(3)[rule_format, of "base + l * sz + k"] in \<open>auto simp: swapped_def\<close>)
    qed
    have "els sz b base n ! l = els sz a base n ! (if l = i then j else if l = j then i else l)"
      using l i at fit[OF l] fit[OF i(1)] fit[OF i(2)] sz b(2) by (auto intro!: nth_equalityI)
    also have "\<dots> = ?r ! l" using i l by (auto simp: nth_list_update)
    finally show "els sz b base n ! l = ?r ! l" .
  qed simp
  ultimately show ?thesis using b(1) by (auto simp: swap_elements_def)
qed


section \<open>Partition\<close>

abbreviation below :: "(buf \<Rightarrow> buf \<Rightarrow> int) \<Rightarrow> buf \<Rightarrow> buf \<Rightarrow> bool" where
  "below compar x y \<equiv> compar x y \<le> 0"

lemma elem_els: "base + n * sz \<le> length a \<Longrightarrow> i < n \<Longrightarrow> elem sz a (base + i * sz) = Some (els sz a base n ! i)"
  using mult_le_mono1[of "i + 1" n sz] by (simp add: elem_def)

lemma partition_loop_ok:
  assumes "base + n * sz \<le> length a" and "1 \<le> i" and "i < j" and "j \<le> n" and "0 < sz"
    and "\<forall>k. 1 \<le> k \<and> k < i \<longrightarrow> below compar (els sz a base n ! k) (els sz a base n ! 0)"
    and "\<forall>k. j \<le> k \<and> k < n \<longrightarrow> \<not> below compar (els sz a base n ! k) (els sz a base n ! 0)"
  shows "\<exists>m b. partition_loop compar base sz a (base + i * sz) (base + j * sz) i = Some (base + m * sz, m, b) \<and>
    1 \<le> m \<and> m \<le> n \<and> same_outside base (base + n * sz) a b \<and> mset (els sz b base n) = mset (els sz a base n) \<and>
    (\<forall>k. 1 \<le> k \<and> k < m \<longrightarrow> below compar (els sz b base n ! k) (els sz b base n ! 0)) \<and>
    (\<forall>k. m \<le> k \<and> k < n \<longrightarrow> \<not> below compar (els sz b base n ! k) (els sz b base n ! 0))"
  using assms
proof (induction "j - i" arbitrary: i j a)
  case (Suc d)
  let ?E = "els sz a base n"
  have i: "i < n" "0 < n" using Suc.prems by auto
  have e: "elem sz a (base + i * sz) = Some (?E ! i)" "elem sz a base = Some (?E ! 0)"
    using elem_els[OF Suc.prems(1) i(1)] elem_els[OF Suc.prems(1) i(2)] by simp_all
  show ?case
  proof (cases "below compar (?E ! i) (?E ! 0)")
    case True
    then have lo: "\<forall>k. 1 \<le> k \<and> k < i + 1 \<longrightarrow> below compar (?E ! k) (?E ! 0)" using Suc.prems(6) by (auto simp: less_Suc_eq)
    show ?thesis
    proof (cases "i + 1 = j")
      case last: True
      then have "base + i * sz + sz = base + j * sz" by auto
      then have "partition_loop compar base sz a (base + i * sz) (base + j * sz) i = Some (base + j * sz, i + 1, a)"
        by (subst partition_loop.simps) (use e True last in simp)
      then show ?thesis using Suc.prems lo last by (intro exI[of _ j] exI[of _ a]) auto
    next
      case more: False
      then have "base + i * sz + sz \<noteq> base + j * sz" using Suc.prems(3,5) by (metis add.assoc add.commute add_left_cancel mult_Suc mult_cancel2 Suc_eq_plus1 not_gr_zero)
      then have "partition_loop compar base sz a (base + i * sz) (base + j * sz) i = partition_loop compar base sz a (base + (i + 1) * sz) (base + j * sz) (i + 1)"
        by (subst partition_loop.simps) (use e True in \<open>simp add: add_ac\<close>)
      moreover have "d = j - (i + 1)" using Suc.hyps(2) by simp
      ultimately show ?thesis using Suc.hyps(1)[of j "i + 1" a] Suc.prems more lo by auto
    qed
  next
    case False
    have j: "j - 1 < n" "base + j * sz - sz = base + (j - 1) * sz" using Suc.prems by (auto simp: diff_mult_distrib)
    from swap_elements_els[OF Suc.prems(1) i(1) j(1)] obtain b where
      b: "swap_elements a (base + i * sz) (base + (j - 1) * sz) sz = Some b" "same_outside base (base + n * sz) a b"
        "els sz b base n = ?E[i := ?E ! (j - 1), j - 1 := ?E ! i]" by blast
    have len: "base + n * sz \<le> length b" using b(2) Suc.prems(1) by (simp add: same_outside_def)
    have ms: "mset (els sz b base n) = mset ?E" unfolding b(3) by (rule mset_swap) (use i j in auto)
    have hd0: "els sz b base n ! 0 = ?E ! 0" unfolding b(3) using Suc.prems(2,3) by simp
    have lo: "\<forall>k. 1 \<le> k \<and> k < i \<longrightarrow> below compar (els sz b base n ! k) (els sz b base n ! 0)"
      using Suc.prems(3,6) unfolding hd0 unfolding b(3) by (auto simp: nth_list_update)
    have hi: "\<forall>k. j - 1 \<le> k \<and> k < n \<longrightarrow> \<not> below compar (els sz b base n ! k) (els sz b base n ! 0)"
      using Suc.prems(3,7) False i j(1) unfolding hd0 unfolding b(3) by (auto simp: nth_list_update)
    show ?thesis
    proof (cases "i = j - 1")
      case last: True
      then have "partition_loop compar base sz a (base + i * sz) (base + j * sz) i = Some (base + i * sz, i, b)"
        by (subst partition_loop.simps) (use e False b(1) j(2) in simp)
      then show ?thesis using Suc.prems lo hi last b(2) ms by (intro exI[of _ i] exI[of _ b]) auto
    next
      case more: False
      then have "base + i * sz \<noteq> base + (j - 1) * sz" using Suc.prems(5) by auto
      then have "partition_loop compar base sz a (base + i * sz) (base + j * sz) i = partition_loop compar base sz b (base + i * sz) (base + (j - 1) * sz) i"
        by (subst partition_loop.simps) (use e False b(1) j(2) in simp)
      moreover have "d = j - 1 - i" "i < j - 1" using Suc.hyps(2) Suc.prems(3) more by auto
      moreover note Suc.hyps(1)[of "j - 1" i b] len Suc.prems(2,4,5) lo hi ms
      ultimately show ?thesis using same_outside_trans[OF b(2)] by fastforce
    qed
  qed
qed simp

lemma qpartition_ok:
  assumes "base + n * sz \<le> length a" and "2 \<le> n" and "0 < sz"
  shows "\<exists>m b. qpartition compar a base n sz = Some (m, b) \<and> m < n \<and> same_outside base (base + n * sz) a b \<and>
    mset (els sz b base n) = mset (els sz a base n) \<and>
    (\<forall>k < m. below compar (els sz b base n ! k) (els sz b base n ! m)) \<and>
    (\<forall>k. m < k \<and> k < n \<longrightarrow> \<not> below compar (els sz b base n ! k) (els sz b base n ! m))"
proof -
  from partition_loop_ok[OF assms(1), of 1 n compar] assms obtain m b where
    l: "partition_loop compar base sz a (base + sz) (base + n * sz) 1 = Some (base + m * sz, m, b)" "1 \<le> m" "m \<le> n"
      "same_outside base (base + n * sz) a b" "mset (els sz b base n) = mset (els sz a base n)"
      "\<forall>k. 1 \<le> k \<and> k < m \<longrightarrow> below compar (els sz b base n ! k) (els sz b base n ! 0)"
      "\<forall>k. m \<le> k \<and> k < n \<longrightarrow> \<not> below compar (els sz b base n ! k) (els sz b base n ! 0)" by auto
  have m: "m - 1 < n" "0 < n" "base + m * sz - sz = base + (m - 1) * sz" using l(2,3) assms(2,3) by (auto simp: diff_mult_distrib)
  have len: "base + n * sz \<le> length b" using l(4) assms(1) by (simp add: same_outside_def)
  let ?E = "els sz b base n"
  from swap_elements_els[OF len m(1,2)] obtain c where
    c: "swap_elements b (base + (m - 1) * sz) base sz = Some c" "same_outside base (base + n * sz) b c"
      "els sz c base n = ?E[m - 1 := ?E ! 0, 0 := ?E ! (m - 1)]" by auto
  have "qpartition compar a base n sz = Some (m - 1, c)" using l(1) c(1) m(3) by (simp add: qpartition_def)
  moreover have "mset (els sz c base n) = mset (els sz a base n)" unfolding c(3) l(5)[symmetric] by (rule mset_swap) (use m in auto)
  moreover have p: "els sz c base n ! (m - 1) = ?E ! 0" unfolding c(3) using m l(2) by (cases "m = 1") auto
  moreover have "below compar (els sz c base n ! k) (?E ! 0)" if "k < m - 1" for k
    unfolding c(3) using that l(3,6) m by (cases "k = 0") auto
  moreover have "\<not> below compar (els sz c base n ! k) (?E ! 0)" if "m - 1 < k" "k < n" for k
    unfolding c(3) using that l(7) by auto
  ultimately show ?thesis using m(1) same_outside_trans[OF l(4) c(2)] by (intro exI[of _ "m - 1"] exI[of _ c]) auto
qed


section \<open>Sorting\<close>

lemma els_split: "m < n \<Longrightarrow> els sz a base n =
    els sz a base m @ take sz (drop (base + m * sz) a) # els sz a (base + (m + 1) * sz) (n - (m + 1))"
proof -
  assume m: "m < n"
  have "map f [0..<n] = map f [0..<m] @ f m # map (\<lambda>i. f (m + 1 + i)) [0..<n - (m + 1)]" for f :: "nat \<Rightarrow> buf"
  proof -
    have "[0..<n] = [0..<m] @ m # [Suc m..<n]" using m upt_add_eq_append[of 0 m "n - m"] by (simp add: upt_conv_Cons)
    moreover have "[Suc m..<n] = map (\<lambda>i. i + (m + 1)) [0..<n - (m + 1)]" using m map_add_upt[of "m + 1" "n - (m + 1)"] by simp
    ultimately show ?thesis by (simp add: add_ac)
  qed
  from this[of "\<lambda>i. take sz (drop (base + i * sz) a)"] show ?thesis
    unfolding els_def by (simp add: algebra_simps)
qed

text \<open>
  The call returns and permutes the elements whatever the callback answers; they are sorted if
  the callback is a total preorder on them.
\<close>

definition cmp_ok :: "(buf \<Rightarrow> buf \<Rightarrow> int) \<Rightarrow> bool" where
  "cmp_ok compar \<longleftrightarrow> (\<forall>x y z. below compar x y \<longrightarrow> below compar y z \<longrightarrow> below compar x z) \<and> (\<forall>x y. below compar x y \<or> below compar y x)"

lemma join_sorted:
  assumes "cmp_ok compar" and "sorted_wrt (below compar) xs" and "sorted_wrt (below compar) ys"
    and lo: "\<And>x. x \<in> set xs \<Longrightarrow> below compar x p" and hi: "\<And>y. y \<in> set ys \<Longrightarrow> \<not> below compar y p"
  shows "sorted_wrt (below compar) (xs @ p # ys)"
proof -
  have up: "below compar p y" if "y \<in> set ys" for y using assms(1) hi[OF that] unfolding cmp_ok_def by blast
  then have "below compar x y" if "x \<in> set xs" "y \<in> set ys" for x y
    using assms(1) lo[OF that(1)] that(2) unfolding cmp_ok_def by blast
  then show ?thesis using assms(2,3) lo up by (simp add: sorted_wrt_append)
qed

lemma qsort_ok:
  assumes "base + n * sz \<le> length a" and "0 < sz"
  shows "\<exists>b. qsort compar a base n sz = Some b \<and> same_outside base (base + n * sz) a b \<and>
    mset (els sz b base n) = mset (els sz a base n) \<and>
    (cmp_ok compar \<longrightarrow>
      sorted_wrt (below compar) (els sz b base n))"
  using assms
proof (induction n arbitrary: a base rule: less_induct)
  case (less n)
  show ?case
  proof (cases "1 < n")
    case False
    then have "qsort compar a base n sz = Some a" by (subst qsort.simps) simp
    moreover have "sorted_wrt (below compar) (els sz a base n)" using False by (cases n) (auto simp: els_def)
    ultimately show ?thesis by (intro exI[of _ a]) simp
  next
    case True
    from qpartition_ok[OF less.prems(1) _ less.prems(2), of compar] True obtain m b where
      p: "qpartition compar a base n sz = Some (m, b)" "m < n" "same_outside base (base + n * sz) a b"
        "mset (els sz b base n) = mset (els sz a base n)"
        "\<forall>k < m. below compar (els sz b base n ! k) (els sz b base n ! m)"
        "\<forall>k. m < k \<and> k < n \<longrightarrow> \<not> below compar (els sz b base n ! k) (els sz b base n ! m)" by auto
    let ?h = "base + (m + 1) * sz" and ?r = "n - (m + 1)" and ?pv = "els sz b base n ! m"
    have e: "?h + ?r * sz = base + n * sz" 
    proof -
      have "(m + 1 + (n - (m + 1))) * sz = n * sz" using p(2) by simp
      then show ?thesis by (simp only: distrib_right add.assoc)
    qed
    have lb: "base + n * sz \<le> length b" using p(3) less.prems(1) by (simp add: same_outside_def)
    have mm: "base + m * sz \<le> ?h" "?h \<le> base + n * sz" using e by auto
    from less.IH[OF p(2), of base b] lb mm less.prems(2) obtain c where
      c: "qsort compar b base m sz = Some c" "same_outside base (base + m * sz) b c" "mset (els sz c base m) = mset (els sz b base m)"
        "cmp_ok compar \<longrightarrow>
          sorted_wrt (below compar) (els sz c base m)" by auto
    have lc: "length c = length b" using c(2) by (simp add: same_outside_def)
    from less.IH[of ?r ?h c] p(2) lb lc e less.prems(2) obtain d where
      d: "qsort compar c ?h ?r sz = Some d" "same_outside ?h (base + n * sz) c d" "mset (els sz d ?h ?r) = mset (els sz c ?h ?r)"
        "cmp_ok compar \<longrightarrow>
          sorted_wrt (below compar) (els sz d ?h ?r)" unfolding e by auto
    have run: "qsort compar a base n sz = Some d" by (subst qsort.simps) (use True p(1) c(1) d(1) in simp)
    have out: "same_outside base (base + n * sz) a d"
      using same_outside_trans[OF p(3) same_outside_trans[OF same_outside_mono[OF c(2)] same_outside_mono[OF d(2)]]] mm p(2) by auto
    have cl: "els sz d base m = els sz c base m" by (rule same_outside_els[OF d(2)]) (use mm lb lc in auto)
    have ch: "els sz c ?h ?r = els sz b ?h ?r" by (rule same_outside_els[OF c(2)]) (use mm lb e in auto)
    have one: "els sz x (base + m * sz) 1 = [take sz (drop (base + m * sz) x)]" for x by (simp add: els_def)
    have "els sz d (base + m * sz) 1 = els sz c (base + m * sz) 1" by (rule same_outside_els[OF d(2)]) (use mm lb lc in auto)
    moreover have "els sz c (base + m * sz) 1 = els sz b (base + m * sz) 1" by (rule same_outside_els[OF c(2)]) (use mm lb in auto)
    ultimately have pv: "take sz (drop (base + m * sz) d) = ?pv" unfolding one using p(2) by simp
    note sb = els_split[OF p(2), of sz b base] and sd = els_split[OF p(2), of sz d base, unfolded pv cl]
    have ms: "mset (els sz d base n) = mset (els sz b base n)" unfolding sb sd using c(3) d(3) ch p(2) by (simp add: nth_append)
    have lo: "below compar x ?pv" if "x \<in> set (els sz c base m)" for x
    proof -
      have "x \<in> set (els sz b base m)" using that c(3) by (metis set_mset_mset)
      then obtain k where "k < m" "x = els sz b base n ! k" using p(2) by (auto simp: in_set_conv_nth)
      then show ?thesis using p(5) by blast
    qed
    have hi: "\<not> below compar x ?pv" if "x \<in> set (els sz d ?h ?r)" for x
    proof -
      have "x \<in> set (els sz b ?h ?r)" using that d(3) ch by (metis set_mset_mset)
      then obtain k where "k < ?r" "x = els sz b base n ! (m + 1 + k)" by (auto simp: in_set_conv_nth algebra_simps)
      then show ?thesis using p(6)[rule_format, of "m + 1 + k"] by simp
    qed
    have "sorted_wrt (below compar) (els sz d base n)" if "cmp_ok compar"
      unfolding sd using c(4) d(4) that lo hi by (intro join_sorted) auto
    then show ?thesis using run out ms p(4) by (intro exI[of _ d]) simp
  qed
qed


text \<open>C32.
  \<^verbatim>\<open>qsort\<close> returns for every callback, even one that is not an order: it never
  touches memory outside of the array and leaves there a permutation of the elements.
\<close>

theorem qsort_terminates:
  assumes "base + n * sz \<le> length a" and "0 < sz"
  shows "\<exists>b. qsort compar a base n sz = Some b \<and> same_outside base (base + n * sz) a b \<and>
    mset (els sz b base n) = mset (els sz a base n)"
  using qsort_ok[OF assms, of compar] by auto

theorem qsort_terminates_witness:
  "\<exists>b. qsort (\<lambda>x y. 1) [3, 1, 2, 9] 0 3 1 = Some b \<and> b ! 3 = 9 \<and> mset (els 1 b 0 3) = {#[3], [1], [2]#}"
proof -
  have "els 1 [3, 1, 2, 9] 0 3 = [[3], [1], [2]]" by (simp add: els_def upt_rec numeral_eq_Suc)
  moreover have "0 + 3 * 1 \<le> length [3, 1, 2, 9 :: u8]" "0 < (1 :: nat)" by simp_all
  note qsort_terminates[OF this, of "\<lambda>x y. 1"]
  ultimately show ?thesis by (auto simp: same_outside_def)
qed

text \<open>C31.
  \<^verbatim>\<open>qsort\<close> sorts: when the callback is a total preorder, the array ends in ascending order,
  with the same elements as before.
\<close>

theorem qsort_sorts:
  assumes "base + n * sz \<le> length a" and "0 < sz" and "cmp_ok compar"
  shows "\<exists>b. qsort compar a base n sz = Some b \<and> sorted_wrt (\<lambda>x y. compar x y \<le> 0) (els sz b base n) \<and>
    mset (els sz b base n) = mset (els sz a base n)"
  using qsort_ok[OF assms(1,2), of compar] assms(3) by auto

theorem qsort_sorts_witness:
  "\<exists>b. qsort (\<lambda>x y. char_diff (hd x) (hd y)) [3, 1, 2] 0 3 1 = Some b \<and>
    sorted_wrt (\<lambda>x y. char_diff (hd x) (hd y) \<le> 0) (els 1 b 0 3)"
proof -
  have "cmp_ok (\<lambda>x y. char_diff (hd x) (hd y))" by (auto simp: cmp_ok_def char_diff_def)
  moreover have "0 + 3 * 1 \<le> length [3, 1, 2 :: u8]" "0 < (1 :: nat)" by simp_all
  ultimately show ?thesis using qsort_sorts[of 0 3 1 "[3, 1, 2]" "\<lambda>x y. char_diff (hd x) (hd y)"] by auto
qed

end
