(* ===== verification/Ctype.thy ===== *)
theory Ctype
  imports Xinu_Base
begin

text \<open>
  Character classes (\<^verbatim>\<open>include/ctype.h\<close> and the table of \<^verbatim>\<open>lib/libxc/ctype_.c\<close>) and the
  small arithmetic routines of \<^verbatim>\<open>lib/libxc\<close>: \<^verbatim>\<open>abs\<close>, \<^verbatim>\<open>labs\<close>, \<^verbatim>\<open>srand\<close> and
  \<^verbatim>\<open>rand\<close>. An \<^verbatim>\<open>int\<close> of C is a 32-bit word that is read with its sign.
\<close>

section \<open>The table\<close>

definition CT_U :: u8 where "CT_U = 0x01"
definition CT_L :: u8 where "CT_L = 0x02"
definition CT_N :: u8 where "CT_N = 0x04"
definition CT_S :: u8 where "CT_S = 0x08"
definition CT_P :: u8 where "CT_P = 0x10"
definition CT_C :: u8 where "CT_C = 0x20"
definition CT_X :: u8 where "CT_X = 0x40"

lemmas ct_consts = CT_U_def CT_L_def CT_N_def CT_S_def CT_P_def CT_C_def CT_X_def

text \<open>The initialiser gives the first 128 entries; C fills the array with zeros.\<close>

definition ctype_tab :: "u8 list" where
  "ctype_tab =
     [CT_C, CT_C, CT_C, CT_C, CT_C, CT_C, CT_C, CT_C,
      CT_C, CT_C OR CT_S, CT_C OR CT_S, CT_C OR CT_S, CT_C OR CT_S, CT_C OR CT_S, CT_C, CT_C,
      CT_C, CT_C, CT_C, CT_C, CT_C, CT_C, CT_C, CT_C,
      CT_C, CT_C, CT_C, CT_C, CT_C, CT_C, CT_C, CT_C,
      CT_S, CT_P, CT_P, CT_P, CT_P, CT_P, CT_P, CT_P,
      CT_P, CT_P, CT_P, CT_P, CT_P, CT_P, CT_P, CT_P,
      CT_N, CT_N, CT_N, CT_N, CT_N, CT_N, CT_N, CT_N,
      CT_N, CT_N, CT_P, CT_P, CT_P, CT_P, CT_P, CT_P,
      CT_P, CT_U OR CT_X, CT_U OR CT_X, CT_U OR CT_X, CT_U OR CT_X, CT_U OR CT_X, CT_U OR CT_X,
      CT_U,
      CT_U, CT_U, CT_U, CT_U, CT_U, CT_U, CT_U, CT_U,
      CT_U, CT_U, CT_U, CT_U, CT_U, CT_U, CT_U, CT_U,
      CT_U, CT_U, CT_U, CT_P, CT_P, CT_P, CT_P, CT_P,
      CT_P, CT_L OR CT_X, CT_L OR CT_X, CT_L OR CT_X, CT_L OR CT_X, CT_L OR CT_X, CT_L OR CT_X,
      CT_L,
      CT_L, CT_L, CT_L, CT_L, CT_L, CT_L, CT_L, CT_L,
      CT_L, CT_L, CT_L, CT_L, CT_L, CT_L, CT_L, CT_L,
      CT_L, CT_L, CT_L, CT_P, CT_P, CT_P, CT_P, CT_C] @ replicate 128 0"

definition in_class :: "u8 \<Rightarrow> u8 \<Rightarrow> bool" where
  "in_class m c \<longleftrightarrow> (ctype_tab ! unat c) AND m \<noteq> 0"

definition isalpha :: "u8 \<Rightarrow> bool" where "isalpha = in_class (CT_U OR CT_L)"
definition isupper :: "u8 \<Rightarrow> bool" where "isupper = in_class CT_U"
definition islower :: "u8 \<Rightarrow> bool" where "islower = in_class CT_L"
definition isdigit :: "u8 \<Rightarrow> bool" where "isdigit = in_class CT_N"
definition isxdigit :: "u8 \<Rightarrow> bool" where "isxdigit = in_class (CT_N OR CT_X)"
definition isspace :: "u8 \<Rightarrow> bool" where "isspace = in_class CT_S"
definition ispunct :: "u8 \<Rightarrow> bool" where "ispunct = in_class CT_P"
definition isalnum :: "u8 \<Rightarrow> bool" where "isalnum = in_class (CT_U OR CT_L OR CT_N)"
definition isprint :: "u8 \<Rightarrow> bool" where "isprint = in_class (CT_P OR CT_U OR CT_L OR CT_N OR CT_S)"
definition iscntrl :: "u8 \<Rightarrow> bool" where "iscntrl = in_class CT_C"
definition isascii :: "u8 \<Rightarrow> bool" where "isascii c \<longleftrightarrow> c \<le> 0x7F"

definition toupper :: "u8 \<Rightarrow> int" where
  "toupper c = (if islower c then uint c + (65 - 97) else uint c)"

definition tolower :: "u8 \<Rightarrow> int" where
  "tolower c = (if isupper c then uint c + (97 - 65) else uint c)"

definition toascii :: "u8 \<Rightarrow> int" where
  "toascii c = uint c AND 0x7F"

lemmas class_defs = isalpha_def isupper_def islower_def isdigit_def isxdigit_def isspace_def ispunct_def isalnum_def isprint_def iscntrl_def

section \<open>The classes as ranges\<close>

definition class_of :: "nat \<Rightarrow> u8" where
  "class_of n =
     (if 48 \<le> n \<and> n \<le> 57 then CT_N
      else if 65 \<le> n \<and> n \<le> 90 then CT_U OR (if n \<le> 70 then CT_X else 0)
      else if 97 \<le> n \<and> n \<le> 122 then CT_L OR (if n \<le> 102 then CT_X else 0)
      else if n = 32 then CT_S
      else if 9 \<le> n \<and> n \<le> 13 then CT_C OR CT_S
      else if n < 32 \<or> n = 127 then CT_C
      else if n < 127 then CT_P else 0)"

lemma ctype_tab_class: "ctype_tab = map class_of [0..<256]"
  by code_simp

lemma in_class_of: "in_class m c \<longleftrightarrow> class_of (unat c) AND m \<noteq> 0"
proof -
  have "unat c < 256" using unsigned_less[of c, where ?'a = nat] by simp
  then show ?thesis by (simp add: in_class_def ctype_tab_class)
qed

lemma isdigit_range: "isdigit c \<longleftrightarrow> 48 \<le> unat c \<and> unat c \<le> 57"
  by (auto simp: isdigit_def in_class_of class_of_def ct_consts)

lemma isspace_range: "isspace c \<longleftrightarrow> unat c = 32 \<or> 9 \<le> unat c \<and> unat c \<le> 13"
  by (auto simp: isspace_def in_class_of class_of_def ct_consts)

lemma isupper_range: "isupper c \<longleftrightarrow> 65 \<le> unat c \<and> unat c \<le> 90"
  by (auto simp: isupper_def in_class_of class_of_def ct_consts)

lemma islower_range: "islower c \<longleftrightarrow> 97 \<le> unat c \<and> unat c \<le> 122"
  by (auto simp: islower_def in_class_of class_of_def ct_consts)


text \<open>C34.
  The table-driven character classes of \<^verbatim>\<open>ctype.h\<close> are the ASCII ranges, for all 256
  characters: digits, upper and lower case letters, hexadecimal digits, white space,
  punctuation and control characters; every class except the control characters and white space is disjoint
  from the others where it should be, nothing above 127 is in any class, and
  \<^verbatim>\<open>toupper\<close> and \<^verbatim>\<open>tolower\<close> move a letter by 32 and nothing else.
\<close>

theorem ctype_ranges:
  "isdigit c = (unat c \<in> {48..57}) \<and> isupper c = (unat c \<in> {65..90}) \<and> islower c = (unat c \<in> {97..122}) \<and>
   isalpha c = (isupper c \<or> islower c) \<and> isalnum c = (isalpha c \<or> isdigit c) \<and>
   isxdigit c = (isdigit c \<or> unat c \<in> {65..70} \<union> {97..102}) \<and> isspace c = (unat c \<in> {9..13} \<union> {32}) \<and>
   iscntrl c = (unat c < 32 \<or> unat c = 127) \<and> ispunct c = (unat c \<in> {33..126} \<and> \<not> isalnum c) \<and>
   isprint c = (unat c \<in> {9..13} \<union> {32..126}) \<and>
   toupper c = (if islower c then uint c - 32 else uint c) \<and> tolower c = (if isupper c then uint c + 32 else uint c)"
  by (auto simp: class_defs in_class_of class_of_def ct_consts toupper_def tolower_def)

section \<open>Absolute values and random numbers\<close>

definition c_abs :: "u32 \<Rightarrow> u32" where
  "c_abs j = (if sint j < 0 then - j else j)"

definition c_labs :: "u32 \<Rightarrow> u32" where
  "c_labs j = (if sint j < 0 then - j else j)"

definition RAND_MAX :: u32 where "RAND_MAX = 32767"

text \<open>\<^verbatim>\<open>seed\<close> is the static variable of \<^verbatim>\<open>rand.c\<close>, initially 1.\<close>

definition srand :: "u32 \<Rightarrow> u32 \<Rightarrow> u32" where
  "srand x seed = x"

definition rand :: "u32 \<Rightarrow> u32 \<times> u32" where
  "rand seed = (let seed = seed * 1103515245 + 12345 in (drop_bit 16 seed mod (RAND_MAX + 1), seed))"

lemma sint_small: "uint (w :: u32) < 2 ^ 31 \<Longrightarrow> sint w = uint w"
  unfolding sint_uint using uint_ge_0[of w] by (intro signed_take_bit_int_eq_self) (auto intro: order_trans[of _ 0])

lemma sint_uminus:
  fixes j :: u32
  assumes "sint j \<noteq> - (2 ^ 31)"
  shows "sint (- j) = - sint j"
proof -
  have b: "- (2 ^ 31) \<le> sint j" "sint j < 2 ^ 31" using sint_ge[of j] sint_lt[of j] by simp_all
  have "sint (- j) = signed_take_bit 31 (- sint j)" by (simp flip: sint_sbintrunc' word_of_int_minus add: sint_word_ariths)
  also have "\<dots> = - sint j" using assms b by (intro signed_take_bit_int_eq_self) auto
  finally show ?thesis .
qed



end
