(* ===== verification/Doprnt.thy ===== *)
theory Doprnt
  imports C_Strings
begin

text \<open>
  Formatted output: \<^verbatim>\<open>_doprnt\<close> and \<^verbatim>\<open>ulong_to_string\<close> (\<^verbatim>\<open>lib/libxc/doprnt.c\<close>).

  The pointer \<^verbatim>\<open>fmt\<close> is the list of the bytes from it to the end of the format's object. The variable
  arguments are a list of words and strings; taking an argument of the wrong kind or
  after the last one is \<open>None\<close>, as is reading past an object. \<^verbatim>\<open>putc_func\<close> is an argument: a
  function that changes a state of its own and returns a C \<^verbatim>\<open>int\<close>. An \<^verbatim>\<open>int\<close> variable is a
  32-bit word that is compared with its sign.

  Character codes: 32 space, 37 \<^verbatim>\<open>%\<close>, 42 \<^verbatim>\<open>*\<close>, 45 \<^verbatim>\<open>-\<close>, 46 \<^verbatim>\<open>.\<close>, 48 to 57 the digits,
  88 \<^verbatim>\<open>X\<close>, 98 \<^verbatim>\<open>b\<close>, 99 \<^verbatim>\<open>c\<close>, 100 \<^verbatim>\<open>d\<close>, 104 \<^verbatim>\<open>h\<close>, 108 \<^verbatim>\<open>l\<close>, 111 \<^verbatim>\<open>o\<close>, 115 \<^verbatim>\<open>s\<close>, 117 \<^verbatim>\<open>u\<close>, 120 \<^verbatim>\<open>x\<close>.
\<close>

section \<open>Numbers\<close>

definition LONG_BITS :: nat where "LONG_BITS = 32"

definition digits_lc :: buf where
  "digits_lc = [48, 49, 50, 51, 52, 53, 54, 55, 56, 57, 97, 98, 99, 100, 101, 102]"

definition digits_uc :: buf where
  "digits_uc = [48, 49, 50, 51, 52, 53, 54, 55, 56, 57, 65, 66, 67, 68, 69, 70]"

definition base_to_nbits :: "nat list" where
  "base_to_nbits = (replicate 17 0)[2 := 1, 4 := 2, 8 := 3, 16 := 4]"

text \<open>The two loops that fill \<^verbatim>\<open>temp\<close> from index 1 on, least significant digit first.\<close>

function uts_div :: "buf \<Rightarrow> u32 \<Rightarrow> u32 \<Rightarrow> nat \<Rightarrow> buf \<Rightarrow> (nat \<times> buf) option" where
  "uts_div digits base num i temp =
     do {
       d \<leftarrow> nget digits (unat (num mod base));
       temp \<leftarrow> nset temp i d;
       if num div base = 0 then Some (i, temp) else uts_div digits base (num div base) (i + 1) temp
     }"
  by pat_completeness auto
termination
  by (relation "measure (\<lambda>(d, b, n, i, t). length t - i)") (auto simp: nset_def split: if_splits)

function uts_shift :: "buf \<Rightarrow> nat \<Rightarrow> u32 \<Rightarrow> u32 \<Rightarrow> nat \<Rightarrow> buf \<Rightarrow> (nat \<times> buf) option" where
  "uts_shift digits shift msk num i temp =
     do {
       d \<leftarrow> nget digits (unat (num AND msk));
       temp \<leftarrow> nset temp i d;
       if drop_bit shift num = 0 then Some (i, temp) else uts_shift digits shift msk (drop_bit shift num) (i + 1) temp
     }"
  by pat_completeness auto
termination
  by (relation "measure (\<lambda>(d, s, m, n, i, t). length t - i)") (auto simp: nset_def split: if_splits)

declare uts_div.simps [simp del] uts_shift.simps [simp del]

text \<open>\<^verbatim>\<open>*str++ = temp[i--]\<close> until \<open>i\<close> is negative.\<close>

fun uts_copy :: "buf \<Rightarrow> nat \<Rightarrow> buf \<Rightarrow> nat \<Rightarrow> buf option" where
  "uts_copy temp i str k =
     do {
       c \<leftarrow> nget temp i;
       str \<leftarrow> nset str k c;
       (case i of 0 \<Rightarrow> Some str | Suc i \<Rightarrow> uts_copy temp i str (k + 1))
     }"

declare uts_copy.simps [simp del]

definition ulong_to_string :: "u32 \<Rightarrow> buf \<Rightarrow> u32 \<Rightarrow> bool \<Rightarrow> buf option" where
  "ulong_to_string num str base alt_digits =
     do {
       let digits = (if alt_digits then digits_uc else digits_lc);
       let temp = (replicate (LONG_BITS + 1) 0)[0 := 0];
       shift \<leftarrow> nget base_to_nbits (unat base);
       (i, temp) \<leftarrow> (if shift = 0 then uts_div digits base num 1 temp
                     else uts_shift digits shift (push_bit shift 1 - 1) num 1 temp);
       uts_copy temp i str 0
     }"

section \<open>Conversion specifications\<close>

datatype va = Va_word u32 | Va_str "buf option"

fun va_int :: "va list \<Rightarrow> (u32 \<times> va list) option" where
  "va_int (Va_word w # ap) = Some (w, ap)"
| "va_int _ = None"

fun va_ptr :: "va list \<Rightarrow> (buf option \<times> va list) option" where
  "va_ptr (Va_str p # ap) = Some (p, ap)"
| "va_ptr _ = None"

fun pf_flags :: "u8 \<Rightarrow> bool \<Rightarrow> buf \<Rightarrow> (u8 \<times> bool \<times> buf) option" where
  "pf_flags pad_char leftjust [] = None"
| "pf_flags pad_char leftjust (c # fmt) =
     (if c = 45 then pf_flags pad_char True fmt
      else if c = 48 then pf_flags 48 leftjust fmt
      else Some (pad_char, leftjust, c # fmt))"

fun pf_digits :: "u32 \<Rightarrow> buf \<Rightarrow> (u32 \<times> buf) option" where
  "pf_digits n [] = None"
| "pf_digits n (c # fmt) =
     (if 48 \<le> c \<and> c \<le> 57 then pf_digits (n * 10 + ucast (c - 48)) fmt else Some (n, c # fmt))"

definition pf_width :: "bool \<Rightarrow> va list \<Rightarrow> buf \<Rightarrow> (u32 \<times> bool \<times> va list \<times> buf) option" where
  "pf_width leftjust ap fmt =
     do {
       c \<leftarrow> nget fmt 0;
       if c = 42
       then do {
         (fmin, ap) \<leftarrow> va_int ap;
         if sint fmin < 0 then Some (- fmin, True, ap, tl fmt) else Some (fmin, leftjust, ap, tl fmt)
       }
       else do { (fmin, fmt) \<leftarrow> pf_digits 0 fmt; Some (fmin, leftjust, ap, fmt) }
     }"

definition pf_prec :: "va list \<Rightarrow> buf \<Rightarrow> (u32 \<times> va list \<times> buf) option" where
  "pf_prec ap fmt =
     do {
       c \<leftarrow> nget fmt 0;
       if c = 46
       then do {
         c \<leftarrow> nget (tl fmt) 0;
         if c = 42
         then do { (prec, ap) \<leftarrow> va_int ap; Some (prec, ap, tl (tl fmt)) }
         else do { (prec, fmt) \<leftarrow> pf_digits 0 (tl fmt); Some (prec, ap, fmt) }
       }
       else Some (- 1, ap, fmt)
     }"

datatype integer_size = SHORT_SHORT_SIZE | SHORT_SIZE | REGULAR_SIZE | LONG_SIZE

definition pf_size :: "buf \<Rightarrow> (integer_size \<times> buf) option" where
  "pf_size fmt =
     do {
       c \<leftarrow> nget fmt 0;
       if c = 108 then Some (LONG_SIZE, tl fmt)
       else if c = 104
       then do {
         c \<leftarrow> nget (tl fmt) 0;
         if c = 104 then Some (SHORT_SHORT_SIZE, tl (tl fmt)) else Some (SHORT_SIZE, tl fmt)
       }
       else Some (REGULAR_SIZE, fmt)
     }"

text \<open>
  The switch on the specifier character. The inner \<open>None\<close> is its default case. \<open>pf_base\<close> is 0
  for \<^verbatim>\<open>%c\<close> and \<^verbatim>\<open>%s\<close>. An \<^verbatim>\<open>int\<close> and a \<^verbatim>\<open>long\<close> argument are one word each.
\<close>

record pf_arg =
  pf_base :: u32
  pf_sign :: u8
  pf_ularg :: u32
  pf_alt :: bool
  pf_str :: buf

definition pf_string :: buf where "pf_string = replicate (LONG_BITS + 1) 0"

definition pf_unsigned :: "u32 \<Rightarrow> bool \<Rightarrow> integer_size \<Rightarrow> va list \<Rightarrow> (pf_arg \<times> va list) option" where
  "pf_unsigned base alt isize ap =
     do {
       (ularg, ap) \<leftarrow> (if isize = LONG_SIZE then va_int ap else va_int ap);
       Some (\<lparr>pf_base = base, pf_sign = 0, pf_ularg = ularg, pf_alt = alt, pf_str = pf_string\<rparr>, ap)
     }"

definition pf_signed :: "integer_size \<Rightarrow> va list \<Rightarrow> (pf_arg \<times> va list) option" where
  "pf_signed isize ap =
     do {
       (larg, ap) \<leftarrow> (if isize = LONG_SIZE then va_int ap else va_int ap);
       Some (\<lparr>pf_base = 10, pf_sign = (if sint larg < 0 then 45 else 0),
              pf_ularg = (if sint larg < 0 then - larg else larg), pf_alt = False, pf_str = pf_string\<rparr>, ap)
     }"

definition pf_conv :: "integer_size \<Rightarrow> va list \<Rightarrow> u8 \<Rightarrow> (pf_arg \<times> va list) option option" where
  "pf_conv isize ap c =
     (if c = 99
      then do {
        (a, ap) \<leftarrow> va_int ap;
        Some (Some (\<lparr>pf_base = 0, pf_sign = 0, pf_ularg = 0, pf_alt = False, pf_str = pf_string[0 := ucast a, 1 := 0]\<rparr>, ap))
      }
      else if c = 115
      then do {
        (p, ap) \<leftarrow> va_ptr ap;
        Some (Some (\<lparr>pf_base = 0, pf_sign = 0, pf_ularg = 0, pf_alt = False,
          pf_str = (case p of None \<Rightarrow> [40, 110, 117, 108, 108, 41, 0] | Some str \<Rightarrow> str)\<rparr>, ap))
      }
      else if c = 100 then map_option Some (pf_signed isize ap)
      else if c = 117 then map_option Some (pf_unsigned 10 False isize ap)
      else if c = 111 then map_option Some (pf_unsigned 8 False isize ap)
      else if c = 120 then map_option Some (pf_unsigned 16 False isize ap)
      else if c = 88 then map_option Some (pf_unsigned 16 True isize ap)
      else if c = 98 then map_option Some (pf_unsigned 2 False isize ap)
      else Some None)"

text \<open>The length computations: characters of the string, zeros, padding, padding character.\<close>

definition pf_layout :: "bool \<Rightarrow> u8 \<Rightarrow> u32 \<Rightarrow> u32 \<Rightarrow> u32 \<Rightarrow> u8 \<Rightarrow> u32 \<Rightarrow> u32 \<times> u32 \<times> u32 \<times> u8" where
  "pf_layout leftjust pad_char fmin prec base sign len_str =
     (let (len_str, num_zeroes, pad_char) =
        (if 0 \<le> sint prec
         then if base = 0 then (if sint prec < sint len_str then prec else len_str, 0, pad_char)
              else (len_str, if sint len_str < sint prec then prec - len_str else 0, 32)
         else (len_str, 0, pad_char));
        len_nonpadding = len_str + num_zeroes + (if sign \<noteq> 0 then 1 else 0);
        len_padding = (if sint len_nonpadding < sint fmin then fmin - len_nonpadding else 0)
      in if \<not> leftjust \<and> pad_char = 48 then (len_str, len_padding, 0, pad_char)
         else (len_str, num_zeroes, len_padding, pad_char))"

section \<open>Output\<close>

text \<open>One call of \<^verbatim>\<open>putc_func\<close> with the test for \<^verbatim>\<open>EOF\<close>; the number is \<^verbatim>\<open>chars_written\<close>.\<close>

type_synonym 'st putc = "u8 \<Rightarrow> 'st \<Rightarrow> int \<times> 'st"

definition put1 :: "'st putc \<Rightarrow> u8 \<Rightarrow> u32 \<Rightarrow> 'st \<Rightarrow> u32 option \<times> 'st" where
  "put1 putc c w st = (let (r, st) = putc c st in if r = EOF then (None, st) else (Some (w + 1), st))"

primrec put_times :: "'st putc \<Rightarrow> u8 \<Rightarrow> nat \<Rightarrow> u32 \<Rightarrow> 'st \<Rightarrow> u32 option \<times> 'st" where
  "put_times putc c 0 w st = (Some w, st)"
| "put_times putc c (Suc n) w st =
     (case put1 putc c w st of (None, st) \<Rightarrow> (None, st) | (Some w, st) \<Rightarrow> put_times putc c n w st)"

function put_str :: "'st putc \<Rightarrow> buf \<Rightarrow> nat \<Rightarrow> nat \<Rightarrow> u32 \<Rightarrow> 'st \<Rightarrow> (u32 option \<times> 'st) option" where
  "put_str putc str i n w st =
     (if i < n
      then do {
        c \<leftarrow> nget str i;
        (case put1 putc c w st of (None, st) \<Rightarrow> Some (None, st) | (Some w, st) \<Rightarrow> put_str putc str (i + 1) n w st)
      }
      else Some (Some w, st))"
  by pat_completeness auto
termination by (relation "measure (\<lambda>(p, s, i, n, w, t). n - i)") auto

declare put_str.simps [simp del]

text \<open>A C \<^verbatim>\<open>for\<close> loop from 0 below an \<^verbatim>\<open>int\<close> runs as often as its value, and not at all if it is negative.\<close>

definition loop_count :: "u32 \<Rightarrow> nat" where "loop_count n = nat (sint n)"

definition put_field :: "'st putc \<Rightarrow> bool \<Rightarrow> u8 \<Rightarrow> u8 \<Rightarrow> buf \<Rightarrow> u32 \<Rightarrow> u32 \<Rightarrow> u32 \<Rightarrow> u32 \<Rightarrow> 'st \<Rightarrow> (u32 option \<times> 'st) option" where
  "put_field putc leftjust pad_char sign str len_str num_zeroes len_padding w st =
     (case (if \<not> leftjust then put_times putc pad_char (loop_count len_padding) w st else (Some w, st)) of
        (None, st) \<Rightarrow> Some (None, st)
      | (Some w, st) \<Rightarrow>
        (case (if sign \<noteq> 0 then put1 putc sign w st else (Some w, st)) of
           (None, st) \<Rightarrow> Some (None, st)
         | (Some w, st) \<Rightarrow>
           (case put_times putc 48 (loop_count num_zeroes) w st of
              (None, st) \<Rightarrow> Some (None, st)
            | (Some w, st) \<Rightarrow>
              do {
                (r, st) \<leftarrow> put_str putc str 0 (loop_count len_str) w st;
                (case r of
                   None \<Rightarrow> Some (None, st)
                 | Some w \<Rightarrow> Some (if leftjust then put_times putc pad_char (loop_count len_padding) w st else (Some w, st)))
              })))"

text \<open>
  One conversion after the percent sign: the inner \<open>None\<close> is an unknown specifier. The other result is the outcome
  of the output and the rest of the format.
\<close>

definition pf_spec :: "va list \<Rightarrow> buf \<Rightarrow> ((u8 \<times> bool \<times> u32 \<times> u32 \<times> pf_arg) option \<times> va list \<times> buf) option" where
  "pf_spec ap fmt =
     do {
       (pad_char, leftjust, fmt) \<leftarrow> pf_flags 32 False fmt;
       (fmin, leftjust, ap, fmt) \<leftarrow> pf_width leftjust ap fmt;
       let pad_char = (if leftjust then 32 else pad_char);
       (prec, ap, fmt) \<leftarrow> pf_prec ap fmt;
       (isize, fmt) \<leftarrow> pf_size fmt;
       c \<leftarrow> nget fmt 0;
       r \<leftarrow> pf_conv isize ap c;
       (case r of None \<Rightarrow> Some (None, ap, fmt)
        | Some (a, ap) \<Rightarrow> Some (Some (pad_char, leftjust, fmin, prec, a), ap, tl fmt))
     }"

definition pf_output :: "'st putc \<Rightarrow> u8 \<Rightarrow> bool \<Rightarrow> u32 \<Rightarrow> u32 \<Rightarrow> pf_arg \<Rightarrow> u32 \<Rightarrow> 'st \<Rightarrow> (u32 option \<times> 'st) option" where
  "pf_output putc pad_char leftjust fmin prec a w st =
     do {
       str \<leftarrow> (if pf_base a \<noteq> 0 then ulong_to_string (pf_ularg a) (pf_str a) (pf_base a) (pf_alt a) else Some (pf_str a));
       len \<leftarrow> strlen str;
       let (len_str, num_zeroes, len_padding, pad_char) = pf_layout leftjust pad_char fmin prec (pf_base a) (pf_sign a) (of_nat len);
       put_field putc leftjust pad_char (pf_sign a) str len_str num_zeroes len_padding w st
     }"


text \<open>Every part of a specification leaves a rest of the format.\<close>

lemma pf_flags_rest: "pf_flags p l fmt = Some (p', l', fmt') \<Longrightarrow> length fmt' \<le> length fmt"
  by (induction p l fmt rule: pf_flags.induct) (auto split: if_splits)

lemma pf_digits_rest: "pf_digits n fmt = Some (n', fmt') \<Longrightarrow> length fmt' \<le> length fmt"
  by (induction n fmt rule: pf_digits.induct) (auto split: if_splits)

lemma pf_width_rest: "pf_width l ap fmt = Some (w, l', ap', fmt') \<Longrightarrow> length fmt' \<le> length fmt"
  by (auto simp: pf_width_def split: Option.bind_splits if_splits dest: pf_digits_rest)

lemma pf_prec_rest: "pf_prec ap fmt = Some (w, ap', fmt') \<Longrightarrow> length fmt' \<le> length fmt"
  by (fastforce simp: pf_prec_def split: Option.bind_splits if_splits dest: pf_digits_rest)

lemma pf_size_rest: "pf_size fmt = Some (z, fmt') \<Longrightarrow> length fmt' \<le> length fmt"
  by (auto simp: pf_size_def split: Option.bind_splits if_splits)

lemma pf_spec_rest: "pf_spec ap fmt = Some (r, ap', fmt') \<Longrightarrow> length fmt' \<le> length fmt"
  by (fastforce simp: pf_spec_def Let_def split: Option.bind_splits option.splits prod.splits
      dest!: pf_flags_rest pf_width_rest pf_prec_rest pf_size_rest)

text \<open>
  The loop over the format. An unknown specifier goes back to the percent sign, writes it
  as a literal character and continues behind it; the arguments it took are gone.
\<close>

function doprnt :: "'st putc \<Rightarrow> buf \<Rightarrow> va list \<Rightarrow> u32 \<Rightarrow> 'st \<Rightarrow> (u32 \<times> 'st) option" where
  "doprnt putc [] ap w st = None"
| "doprnt putc (c # fmt) ap w st =
     (if c = 0 then Some (w, st)
      else if c = 37
      then do {
        c1 \<leftarrow> nget fmt 0;
        if c1 = 37
        then (case put1 putc c1 w st of (None, st) \<Rightarrow> Some (u32_of EOF, st) | (Some w, st) \<Rightarrow> doprnt putc (tl fmt) ap w st)
        else do {
          (r, ap, rest) \<leftarrow> pf_spec ap fmt;
          (case r of
             None \<Rightarrow> (case put1 putc c w st of (None, st) \<Rightarrow> Some (u32_of EOF, st) | (Some w, st) \<Rightarrow> doprnt putc fmt ap w st)
           | Some (pad_char, leftjust, fmin, prec, a) \<Rightarrow>
             do {
               (r, st) \<leftarrow> pf_output putc pad_char leftjust fmin prec a w st;
               (case r of None \<Rightarrow> Some (u32_of EOF, st) | Some w \<Rightarrow> doprnt putc rest ap w st)
             })
        }
      }
      else (case put1 putc c w st of (None, st) \<Rightarrow> Some (u32_of EOF, st) | (Some w, st) \<Rightarrow> doprnt putc fmt ap w st))"
  by pat_completeness auto
termination
  by (relation "measure (\<lambda>(p, f, a, w, t). length f)") (auto dest!: pf_spec_rest)

declare doprnt.simps [simp del]

section \<open>Digits of a number\<close>

fun to_base :: "nat \<Rightarrow> nat \<Rightarrow> nat list" where
  "to_base b n = (if n < b \<or> b < 2 then [n] else to_base b (n div b) @ [n mod b])"

declare to_base.simps [simp del]

definition of_base :: "nat \<Rightarrow> nat list \<Rightarrow> nat" where
  "of_base b ds = foldl (\<lambda>v d. v * b + d) 0 ds"

lemma of_base_snoc [simp]: "of_base b [] = 0" "of_base b (ds @ [d]) = of_base b ds * b + d"
  by (simp_all add: of_base_def)

lemma to_base_ne [simp]: "to_base b n \<noteq> []" "0 < length (to_base b n)"
  by (subst to_base.simps, simp)+

lemma of_to_base: "of_base b (to_base b n) = n"
proof (induction b n rule: to_base.induct)
  case (1 b n)
  then show ?case by (subst to_base.simps) (auto simp: of_base_def)
qed

lemma to_base_digits: "2 \<le> b \<Longrightarrow> d \<in> set (to_base b n) \<Longrightarrow> d < b"
proof (induction b n rule: to_base.induct)
  case (1 b n)
  then show ?case using mod_less_divisor[of b n] by (subst (asm) (2) to_base.simps) (auto split: if_splits)
qed

lemma to_base_length: "2 \<le> b \<Longrightarrow> n < b ^ k \<Longrightarrow> 0 < k \<Longrightarrow> length (to_base b n) \<le> k"
proof (induction b n arbitrary: k rule: to_base.induct)
  case (1 b n)
  show ?case
  proof (cases "n < b")
    case True
    then show ?thesis using "1.prems" by (subst to_base.simps) auto
  next
    case False
    then obtain j where k: "k = Suc j" "0 < j" using "1.prems" by (cases k; cases "k - 1") auto
    then have "n div b < b ^ j" using "1.prems" by (simp add: less_mult_imp_div_less mult.commute)
    then show ?thesis using "1.IH"[of j] False "1.prems"(1) k by (subst to_base.simps) auto
  qed
qed

text \<open>No leading zeros.\<close>

lemma to_base_hd: "n \<noteq> 0 \<Longrightarrow> hd (to_base b n) \<noteq> 0"
proof (induction b n rule: to_base.induct)
  case (1 b n)
  then show ?case by (subst to_base.simps) (auto simp: div_eq_0_iff)
qed

section \<open>\<open>ulong_to_string\<close>\<close>

lemma and_low_bits: "(num :: u32) AND (2 ^ k - 1) = num mod 2 ^ k"
  by (simp add: take_bit_eq_mask mask_eq_exp_minus_1 flip: take_bit_eq_mod)

text \<open>Masking and shifting computes the same as dividing.\<close>

lemma uts_shift_div: "uts_shift digits k (push_bit k 1 - 1) num i temp = uts_div digits (2 ^ k) num i temp"
proof (induction "length temp - i" arbitrary: num i temp rule: less_induct)
  case less
  have "uts_shift digits k (push_bit k 1 - 1) (num div 2 ^ k) (i + 1) (temp[i := d]) = uts_div digits (2 ^ k) (num div 2 ^ k) (i + 1) (temp[i := d])"
    if "i < length temp" for d using that by (intro less) simp
  then show ?case
    by (subst uts_shift.simps, subst uts_div.simps) (auto simp: and_low_bits drop_bit_eq_div nset_def intro!: Option.bind_cong split: if_splits)
qed

definition digit_chars :: "bool \<Rightarrow> buf" where
  "digit_chars alt = (if alt then digits_uc else digits_lc)"

definition num_text :: "bool \<Rightarrow> nat \<Rightarrow> nat \<Rightarrow> buf" where
  "num_text alt b n = map (\<lambda>d. digit_chars alt ! d) (to_base b n)"

lemma digit_chars_length [simp]: "length (digit_chars alt) = 16"
  by (simp add: digit_chars_def digits_uc_def digits_lc_def)

lemma uts_div_ok:
  assumes "2 \<le> unat base" and "unat base \<le> 16" and "i + length (to_base (unat base) (unat num)) \<le> length temp"
  shows "uts_div (digit_chars alt) base num i temp =
    Some (i + length (to_base (unat base) (unat num)) - 1,
      take i temp @ rev (num_text alt (unat base) (unat num)) @ drop (i + length (to_base (unat base) (unat num))) temp)"
  using assms(3)
proof (induction "unat num" arbitrary: num i temp rule: less_induct)
  case less
  let ?b = "unat base"
  have i: "i < length temp" using less.prems to_base_ne(2)[of ?b "unat num"] by linarith
  have d: "unat (num mod base) < 16" 
  proof -
    have "unat num mod ?b < ?b" using assms(1) by (intro mod_less_divisor) simp
    then show ?thesis using assms(2) by (simp add: unat_mod)
  qed
  let ?t = "temp[i := digit_chars alt ! (unat num mod ?b)]"
  have step: "uts_div (digit_chars alt) base num i temp =
    (if num div base = 0 then Some (i, ?t) else uts_div (digit_chars alt) base (num div base) (i + 1) ?t)"
    using d i by (subst uts_div.simps) (simp add: nget_def nset_def unat_mod)
  have z: "num div base = 0 \<longleftrightarrow> unat num < ?b" using assms(1) by (simp add: word_unat_eq_iff unat_div div_eq_0_iff)
  show ?case
  proof (cases "unat num < ?b")
    case True
    then have "to_base ?b (unat num) = [unat num]" by (subst to_base.simps) simp
    then show ?thesis using step z True i by (simp add: num_text_def upd_conv_take_nth_drop)
  next
    case False
    have tb: "to_base ?b (unat num) = to_base ?b (unat (num div base)) @ [unat num mod ?b]"
      using False assms(1) by (subst to_base.simps) (simp add: unat_div)
    have "unat (num div base) < unat num" using False assms(1) by (simp add: unat_div)
    from less.hyps[OF this, of "i + 1" ?t] less.prems tb
    have "uts_div (digit_chars alt) base (num div base) (i + 1) ?t = Some (i + 1 + length (to_base ?b (unat (num div base))) - 1,
      take (i + 1) ?t @ rev (num_text alt ?b (unat (num div base))) @ drop (i + 1 + length (to_base ?b (unat (num div base)))) ?t)" by simp
    moreover have "take (i + 1) ?t = take i temp @ [digit_chars alt ! (unat num mod ?b)]" using i by (simp add: take_Suc_conv_app_nth)
    ultimately show ?thesis using step z False tb by (simp add: num_text_def)
  qed
qed

lemma uts_copy_ok:
  "i < length temp \<Longrightarrow> k + i < length str \<Longrightarrow>
   uts_copy temp i str k = Some (take k str @ rev (take (i + 1) temp) @ drop (k + i + 1) str)"
proof (induction i arbitrary: str k)
  case 0
  then show ?case
    by (subst uts_copy.simps) (simp add: nget_def nset_def upd_conv_take_nth_drop take_Suc_conv_app_nth)
next
  case (Suc i)
  have "take (Suc k) (str[k := temp ! Suc i]) = take k str @ [temp ! Suc i]" using Suc.prems by (simp add: take_Suc_conv_app_nth)
  moreover have "rev (take (Suc (Suc i)) temp) = temp ! Suc i # rev (take (Suc i) temp)" using Suc.prems by (simp add: take_Suc_conv_app_nth)
  ultimately show ?case using Suc
    by (subst uts_copy.simps) (simp add: nget_def nset_def)
qed

lemma digit_char_nonzero: "d < 16 \<Longrightarrow> digit_chars alt ! d \<noteq> 0"
proof -
  have "list_all (\<lambda>c. c \<noteq> 0) (digit_chars alt)" by (simp add: digit_chars_def digits_uc_def digits_lc_def)
  then show "d < 16 \<Longrightarrow> digit_chars alt ! d \<noteq> 0" by (simp add: list_all_length)
qed

lemma num_text_nonzero: "2 \<le> b \<Longrightarrow> b \<le> 16 \<Longrightarrow> 0 \<notin> set (num_text alt b n)"
  using to_base_digits[of b _ n] digit_char_nonzero[of _ alt] by (fastforce simp: num_text_def)

lemma num_text_length: "2 \<le> b \<Longrightarrow> length (num_text alt b (unat (n :: u32))) \<le> 32"
proof -
  assume b: "2 \<le> b"
  have "unat n < 2 ^ 32" using unsigned_less[of n, where ?'a = nat] by simp
  also have "\<dots> \<le> b ^ 32" using b by (rule power_mono) simp
  finally show ?thesis using to_base_length[OF b, of "unat n" 32] by (simp add: num_text_def)
qed

lemma ulong_to_string_ok:
  assumes "base \<in> {2, 8, 10, 16}" and "33 \<le> length str"
  shows "ulong_to_string num str base alt =
    Some (num_text alt (unat base) (unat num) @ 0 # drop (length (num_text alt (unat base) (unat num)) + 1) str)"
proof -
  let ?t = "num_text alt (unat base) (unat num)" and ?temp = "replicate 33 (0 :: u8)"
  have b: "2 \<le> unat base" "unat base \<le> 16" using assms(1) by auto
  have l: "length ?t = length (to_base (unat base) (unat num))" by (simp add: num_text_def)
  have n: "length ?t \<le> 32" "0 < length ?t" using num_text_length[OF b(1)] by (simp_all add: num_text_def)
  have d: "uts_div (digit_chars alt) base num 1 ?temp = Some (length ?t, take 1 ?temp @ rev ?t @ drop (1 + length ?t) ?temp)"
    using uts_div_ok[OF b, of 1 num ?temp alt] n unfolding l by simp
  have "\<exists>k. nget base_to_nbits (unat base) = Some k \<and> (if k = 0 then True else base = 2 ^ k)"
    using assms(1) by (auto simp: base_to_nbits_def nget_def)
  then obtain k where k: "nget base_to_nbits (unat base) = Some k" "k \<noteq> 0 \<Longrightarrow> base = 2 ^ k" by (auto split: if_splits)
  have c: "uts_copy (0 # rev ?t @ drop (1 + length ?t) ?temp) (length ?t) str 0 = Some (?t @ 0 # drop (length ?t + 1) str)"
    using n assms(2) by (subst uts_copy_ok) simp_all
  have u: "?temp[0 := 0] = ?temp" by (simp only: list_update_same_conv length_replicate nth_replicate)
  have "ulong_to_string num str base alt = do { (i, temp) \<leftarrow> uts_div (digit_chars alt) base num 1 ?temp; uts_copy temp i str 0 }"
    using k uts_shift_div[of "digit_chars alt" k num 1 ?temp]
    by (cases "k = 0") (simp_all add: ulong_to_string_def LONG_BITS_def u flip: digit_chars_def)
  then show ?thesis using d c by simp
qed

section \<open>Output as a text\<close>

text \<open>Writing the characters of a list until one fails.\<close>

primrec emit :: "'st putc \<Rightarrow> buf \<Rightarrow> u32 \<Rightarrow> 'st \<Rightarrow> u32 option \<times> 'st" where
  "emit putc [] w st = (Some w, st)"
| "emit putc (c # cs) w st = (case put1 putc c w st of (None, st) \<Rightarrow> (None, st) | (Some w, st) \<Rightarrow> emit putc cs w st)"

lemma emit_append:
  "emit putc (xs @ ys) w st = (case emit putc xs w st of (None, st) \<Rightarrow> (None, st) | (Some w, st) \<Rightarrow> emit putc ys w st)"
  by (induction xs arbitrary: w st) (auto split: option.splits prod.splits)

lemma put_times_emit: "put_times putc c n w st = emit putc (replicate n c) w st"
  by (induction n arbitrary: w st) (auto split: option.splits prod.splits)

lemma put_str_emit: "n \<le> length str \<Longrightarrow> put_str putc str i n w st = Some (emit putc (take (n - i) (drop i str)) w st)"
proof (induction "n - i" arbitrary: i w st)
  case 0
  then show ?case by (subst put_str.simps) simp
next
  case (Suc k)
  then have i: "i < n" "i < length str" by auto
  then have t: "take (n - i) (drop i str) = str ! i # take (n - (i + 1)) (drop (i + 1) str)"
    by (metis Cons_nth_drop_Suc Suc_diff_Suc Suc_eq_plus1 take_Suc_Cons)
  have "put_str putc str (i + 1) n w st = Some (emit putc (take (n - (i + 1)) (drop (i + 1) str)) w st)" for w st
    using Suc.hyps(2) Suc.prems by (intro Suc.hyps(1)) auto
  then show ?case using i unfolding t
    by (subst put_str.simps) (auto simp: nget_def split: option.splits prod.splits)
qed

lemma out_Some:
  "(case x of (None, st) \<Rightarrow> Some (None, st) | (Some w, st) \<Rightarrow> Some (f w st)) = Some (case x of (None, st) \<Rightarrow> (None, st) | (Some w, st) \<Rightarrow> f w st)"
  "Some x \<bind> (\<lambda>(r, st). case r of None \<Rightarrow> Some (None, st) | Some w \<Rightarrow> Some (f w st)) =
     Some (case x of (None, st) \<Rightarrow> (None, st) | (Some w, st) \<Rightarrow> f w st)"
  by (cases x; cases "fst x"; simp)+

lemma put_field_emit:
  assumes "loop_count len_str \<le> length str"
  shows "put_field putc leftjust pad_char sign str len_str num_zeroes len_padding w st =
    Some (emit putc ((if leftjust then [] else replicate (loop_count len_padding) pad_char) @ (if sign \<noteq> 0 then [sign] else []) @
      replicate (loop_count num_zeroes) 48 @ take (loop_count len_str) str @
      (if leftjust then replicate (loop_count len_padding) pad_char else [])) w st)"
proof -
  let ?pad = "replicate (loop_count len_padding) pad_char" and ?sg = "if sign \<noteq> 0 then [sign] else []"
  let ?z = "replicate (loop_count num_zeroes) (48 :: u8)" and ?s = "take (loop_count len_str) str"
  have p: "(if \<not> leftjust then put_times putc pad_char (loop_count len_padding) w st else (Some w, st)) = emit putc (if leftjust then [] else ?pad) w st"
    for w st by (simp add: put_times_emit)
  have g: "(if sign \<noteq> 0 then put1 putc sign w st else (Some w, st)) = emit putc ?sg w st" for w st
    by (auto split: option.splits prod.splits)
  have t: "put_str putc str 0 (loop_count len_str) w st = Some (emit putc ?s w st)" for w st using put_str_emit[OF assms, of putc 0] by simp
  have q: "(if leftjust then put_times putc pad_char (loop_count len_padding) w st else (Some w, st)) = emit putc (if leftjust then ?pad else []) w st"
    for w st by (simp add: put_times_emit)
  show ?thesis unfolding put_field_def p g q t unfolding put_times_emit emit_append out_Some ..
qed

text \<open>
  The text of one conversion: the value \<open>str\<close> with its \<open>sign\<close>, extended with zeros
  to the precision if it is a number and cut to the precision if not, in a field of at
  least \<open>width\<close> characters, filled with spaces on the right, with zeros after the sign, or with spaces on the left.
\<close>

definition field :: "bool \<Rightarrow> bool \<Rightarrow> nat \<Rightarrow> nat option \<Rightarrow> bool \<Rightarrow> buf \<Rightarrow> buf \<Rightarrow> buf" where
  "field left zero width prec numeric sign str =
     (let body = (case prec of None \<Rightarrow> str | Some p \<Rightarrow> if numeric then replicate (p - length str) 48 @ str else take p str);
          n = width - (length sign + length body)
      in if left then sign @ body @ replicate n 32
         else if zero \<and> \<not> (numeric \<and> prec \<noteq> None) then sign @ replicate n 48 @ body
         else replicate n 32 @ sign @ body)"

lemma sint_of_nat_small: "n < 2 ^ 31 \<Longrightarrow> sint (of_nat n :: u32) = int n"
proof -
  assume n: "n < 2 ^ 31"
  then have "uint (of_nat n :: u32) = int n" by (simp add: uint_nat unat_of_nat)
  then show ?thesis unfolding sint_uint using n by (subst signed_take_bit_int_eq_self) auto
qed

lemma loop_count_of_nat [simp]: "n < 2 ^ 31 \<Longrightarrow> loop_count (of_nat n) = n"
  by (simp add: loop_count_def sint_of_nat_small)

lemma word_as_nat: "0 \<le> sint (w :: u32) \<Longrightarrow> \<exists>n. w = of_nat n \<and> n = nat (sint w) \<and> n < 2 ^ 31"
proof -
  assume s: "0 \<le> sint w"
  have "w = of_int (sint w)" by simp
  also have "\<dots> = of_nat (nat (sint w))" using s by (metis of_int_of_nat_eq nat_0_le)
  finally show ?thesis using sint_lt[of w] s by (intro exI[of _ "nat (sint w)"]) (simp add: nat_less_iff)
qed

definition prec_of :: "u32 \<Rightarrow> nat option" where
  "prec_of prec = (if sint prec < 0 then None else Some (nat (sint prec)))"

text \<open>The computation of the lengths does not overflow, and gives these numbers.\<close>

lemma pf_layout_nat:
  fixes n :: nat and base :: u32 and sign pad_char :: u8
  assumes sz: "sint fmin < 2 ^ 30" "sint prec < 2 ^ 30" "n < 2 ^ 30"
  defines "L \<equiv> (if base = 0 then (case prec_of prec of None \<Rightarrow> n | Some p \<Rightarrow> min p n) else n)"
  defines "Z \<equiv> (if base = 0 then 0 else (case prec_of prec of None \<Rightarrow> 0 | Some p \<Rightarrow> p - n))"
  defines "P \<equiv> nat (sint fmin) - (L + Z + (if sign \<noteq> 0 then 1 else 0))"
  defines "pc0 \<equiv> (if prec_of prec \<noteq> None \<and> base \<noteq> 0 then 32 else pad_char)"
  shows "pf_layout leftjust pad_char fmin prec base sign (of_nat n) =
      (if \<not> leftjust \<and> pc0 = 48 then (of_nat L, of_nat P, 0, pc0) else (of_nat L, of_nat Z, of_nat P, pc0))"
    and "L \<le> n" "Z < 2 ^ 30" "P < 2 ^ 30"
proof -
  let ?s = "if sign \<noteq> 0 then 1 else (0 :: nat)"
  have b: "L \<le> n" "Z < 2 ^ 30" "L + Z + ?s < 2 ^ 31" "nat (sint fmin) < 2 ^ 30" "P < 2 ^ 30"
    using sz by (auto simp: L_def Z_def P_def prec_of_def split: option.splits)
  have fst: "(if 0 \<le> sint prec
         then if base = 0 then (if sint prec < sint (of_nat n :: u32) then prec else of_nat n, 0, pad_char)
              else (of_nat n, if sint (of_nat n :: u32) < sint prec then prec - of_nat n else 0, 32)
         else (of_nat n, 0, pad_char)) = (of_nat L :: u32, of_nat Z :: u32, pc0)"
  proof (cases "0 \<le> sint prec")
    case True
    then obtain p where p: "prec = of_nat p" "p = nat (sint prec)" "p < 2 ^ 31" using word_as_nat by blast
    have "sint prec = int p" using p True by simp
    then show ?thesis using True sz(3) p(3) sint_of_nat_small[of n] unfolding p(1) L_def Z_def pc0_def prec_of_def
      by (auto simp: sint_of_nat_small of_nat_diff min_def)
  qed (simp add: L_def Z_def pc0_def prec_of_def)
  have np: "(of_nat L + of_nat Z + (if sign \<noteq> 0 then 1 else 0) :: u32) = of_nat (L + Z + ?s)" by simp
  have pd: "(if sint (of_nat (L + Z + ?s) :: u32) < sint fmin then fmin - of_nat (L + Z + ?s) else 0) = (of_nat P :: u32)"
  proof (cases "0 \<le> sint fmin")
    case True
    then obtain f where f: "fmin = of_nat f" "f = nat (sint fmin)" "f < 2 ^ 31" using word_as_nat by blast
    then show ?thesis using sint_of_nat_small[OF b(3)] sint_of_nat_small[OF f(3)] unfolding P_def
      by (auto simp: of_nat_diff simp del: of_nat_add)
  qed (use sint_of_nat_small[OF b(3)] in \<open>auto simp: P_def simp del: of_nat_add\<close>)
  show "pf_layout leftjust pad_char fmin prec base sign (of_nat n) =
    (if \<not> leftjust \<and> pc0 = 48 then (of_nat L, of_nat P, 0, pc0) else (of_nat L, of_nat Z, of_nat P, pc0))"
    unfolding pf_layout_def fst Let_def prod.case np pd by simp
  show "L \<le> n" "Z < 2 ^ 30" "P < 2 ^ 30" using b by simp_all
qed

lemma pf_layout_field:
  assumes sz: "sint fmin < 2 ^ 30" "sint prec < 2 ^ 30" "length str < 2 ^ 30" and pad: "pad_char \<in> {32, 48}" "leftjust \<Longrightarrow> pad_char = 32"
    and l: "pf_layout leftjust pad_char fmin prec base sign (of_nat (length str)) = (len_str, num_zeroes, len_padding, pc)"
  shows "loop_count len_str \<le> length str \<and>
    (if leftjust then [] else replicate (loop_count len_padding) pc) @ (if sign \<noteq> 0 then [sign] else []) @
      replicate (loop_count num_zeroes) 48 @ take (loop_count len_str) str @ (if leftjust then replicate (loop_count len_padding) pc else []) =
    field leftjust (pad_char = 48) (nat (sint fmin)) (prec_of prec) (base \<noteq> 0) (if sign \<noteq> 0 then [sign] else []) str"
proof -
  let ?n = "length str"
  define L where "L = (if base = 0 then (case prec_of prec of None \<Rightarrow> ?n | Some p \<Rightarrow> min p ?n) else ?n)"
  define Z where "Z = (if base = 0 then 0 else (case prec_of prec of None \<Rightarrow> 0 | Some p \<Rightarrow> p - ?n))"
  define P where "P = nat (sint fmin) - (L + Z + (if sign \<noteq> 0 then 1 else 0))"
  define pc0 where "pc0 = (if prec_of prec \<noteq> None \<and> base \<noteq> 0 then 32 else pad_char)"
  note N = pf_layout_nat(1)[OF sz, where base = base and sign = sign and leftjust = leftjust and pad_char = pad_char, folded L_def Z_def, folded P_def pc0_def]
  note res = l[symmetric, unfolded N]
  have b: "L \<le> ?n" "Z < 2 ^ 30" "P < 2 ^ 30"
    using pf_layout_nat(2-3)[OF sz, where base = base] pf_layout_nat(4)[OF sz, where base = base and sign = sign] by (simp_all add: L_def Z_def P_def)
  have lc: "loop_count (of_nat L) = L" "loop_count (of_nat Z) = Z" "loop_count (of_nat P) = P" using b sz(3) by (auto intro: loop_count_of_nat)
  let ?sg = "if sign \<noteq> 0 then [sign] else []"
  have body: "(case prec_of prec of None \<Rightarrow> str | Some p \<Rightarrow> if base \<noteq> 0 then replicate (p - ?n) 48 @ str else take p str) = replicate Z 48 @ take L str"
    by (auto simp: L_def Z_def min_def split: option.split)
  have n: "nat (sint fmin) - (length ?sg + length (replicate Z (48 :: u8) @ take L str)) = P" using b(1) by (auto simp: P_def)
  have fld: "field leftjust (pad_char = 48) (nat (sint fmin)) (prec_of prec) (base \<noteq> 0) ?sg str =
    (if leftjust then ?sg @ (replicate Z 48 @ take L str) @ replicate P 32
     else if pc0 = 48 then ?sg @ replicate P 48 @ replicate Z 48 @ take L str
     else replicate P 32 @ ?sg @ replicate Z 48 @ take L str)"
    unfolding field_def Let_def body n by (auto simp: pc0_def)
  have z: "Z = 0" if "pc0 = 48" using that by (auto simp: pc0_def Z_def split: option.splits if_splits)
  have pc: "pc0 = 32 \<or> pc0 = 48" "leftjust \<Longrightarrow> pc0 = 32" using pad by (auto simp: pc0_def)
  have zero: "loop_count 0 = 0" by (simp add: loop_count_def)
  show ?thesis unfolding fld
  proof (cases "\<not> leftjust \<and> pc0 = 48")
    case True
    then have "len_str = of_nat L" "num_zeroes = of_nat P" "len_padding = 0" "pc = pc0" using res by simp_all
    then show "loop_count len_str \<le> length str \<and> (if leftjust then [] else replicate (loop_count len_padding) pc) @ ?sg @
        replicate (loop_count num_zeroes) 48 @ take (loop_count len_str) str @ (if leftjust then replicate (loop_count len_padding) pc else []) =
      (if leftjust then ?sg @ (replicate Z 48 @ take L str) @ replicate P 32
       else if pc0 = 48 then ?sg @ replicate P 48 @ replicate Z 48 @ take L str else replicate P 32 @ ?sg @ replicate Z 48 @ take L str)"
      using True z b(1) lc zero by simp
  next
    case False
    then have v: "len_str = of_nat L" "num_zeroes = of_nat Z" "len_padding = of_nat P" "pc = pc0" using res by (simp_all split: if_splits)
    show "loop_count len_str \<le> length str \<and> (if leftjust then [] else replicate (loop_count len_padding) pc) @ ?sg @
        replicate (loop_count num_zeroes) 48 @ take (loop_count len_str) str @ (if leftjust then replicate (loop_count len_padding) pc else []) =
      (if leftjust then ?sg @ (replicate Z 48 @ take L str) @ replicate P 32
       else if pc0 = 48 then ?sg @ replicate P 48 @ replicate Z 48 @ take L str else replicate P 32 @ ?sg @ replicate Z 48 @ take L str)"
      unfolding v lc using False pc b(1) by (cases leftjust) simp_all
  qed
qed

section \<open>The text of a format\<close>

text \<open>
  The characters that a format and its arguments stand for, by the rules of the
  documentation of \<^verbatim>\<open>_doprnt\<close>. \<open>None\<close>: the arguments do not fit the format, an object is not
  terminated, or a width, precision or string is of 2^30 characters or more.
\<close>

definition arg_text :: "pf_arg \<Rightarrow> buf option" where
  "arg_text a =
     (if pf_base a \<noteq> 0 then Some (num_text (pf_alt a) (unat (pf_base a)) (unat (pf_ularg a)))
      else if is_cstr (pf_str a) then Some (cstr (pf_str a)) else None)"

definition sign_text :: "pf_arg \<Rightarrow> buf" where
  "sign_text a = (if pf_sign a \<noteq> 0 then [pf_sign a] else [])"

function fmt_text :: "buf \<Rightarrow> va list \<Rightarrow> buf option" where
  "fmt_text [] ap = None"
| "fmt_text (c # fmt) ap =
     (if c = 0 then Some []
      else if c = 37
      then do {
        c1 \<leftarrow> nget fmt 0;
        if c1 = 37 then map_option (Cons 37) (fmt_text (tl fmt) ap)
        else do {
          (r, ap, rest) \<leftarrow> pf_spec ap fmt;
          (case r of
             None \<Rightarrow> map_option (Cons 37) (fmt_text fmt ap)
           | Some (pad_char, leftjust, fmin, prec, a) \<Rightarrow>
             do {
               str \<leftarrow> arg_text a;
               t \<leftarrow> fmt_text rest ap;
               if sint fmin < 2 ^ 30 \<and> sint prec < 2 ^ 30 \<and> length str < 2 ^ 30
               then Some (field leftjust (pad_char = 48) (nat (sint fmin)) (prec_of prec) (pf_base a \<noteq> 0) (sign_text a) str @ t)
               else None
             })
        }
      }
      else map_option (Cons c) (fmt_text fmt ap))"
  by pat_completeness auto
termination by (relation "measure (\<lambda>(f, a). length f)") (auto dest!: pf_spec_rest)

declare fmt_text.simps [simp del]

lemma pf_flags_pad: "pf_flags p l fmt = Some (p', l', fmt') \<Longrightarrow> p \<in> {32, 48} \<Longrightarrow> p' \<in> {32, 48}"
  by (induction p l fmt rule: pf_flags.induct) (auto split: if_splits)

lemma pf_conv_arg: "pf_conv z ap c = Some (Some (a, ap')) \<Longrightarrow> pf_base a \<in> {0, 2, 8, 10, 16} \<and> (pf_base a \<noteq> 0 \<longrightarrow> pf_str a = pf_string)"
  by (auto simp: pf_conv_def pf_signed_def pf_unsigned_def split: if_splits Option.bind_splits)

lemma pf_spec_arg:
  assumes "pf_spec ap fmt = Some (Some (pad_char, leftjust, fmin, prec, a), ap', rest)"
  shows "pad_char \<in> {32, 48}" "leftjust \<Longrightarrow> pad_char = 32" "pf_base a \<in> {0, 2, 8, 10, 16}" "pf_base a \<noteq> 0 \<Longrightarrow> pf_str a = pf_string"
  using assms pf_conv_arg
  by (auto simp: pf_spec_def Let_def split: Option.bind_splits option.splits prod.splits if_splits dest!: pf_flags_pad)

lemma pf_output_emit:
  assumes sp: "pf_spec ap fmt = Some (Some (pad_char, leftjust, fmin, prec, a), ap', rest)" and str: "arg_text a = Some str"
    and sz: "sint fmin < 2 ^ 30" "sint prec < 2 ^ 30" "length str < 2 ^ 30"
  shows "pf_output putc pad_char leftjust fmin prec a w st =
    Some (emit putc (field leftjust (pad_char = 48) (nat (sint fmin)) (prec_of prec) (pf_base a \<noteq> 0) (sign_text a) str) w st)"
proof -
  note A = pf_spec_arg[OF sp]
  have "\<exists>s. (if pf_base a \<noteq> 0 then ulong_to_string (pf_ularg a) (pf_str a) (pf_base a) (pf_alt a) else Some (pf_str a)) = Some s \<and> is_cstr s \<and> cstr s = str"
  proof (cases "pf_base a = 0")
    case True
    then show ?thesis using str by (auto simp: arg_text_def split: if_splits)
  next
    case False
    let ?t = "num_text (pf_alt a) (unat (pf_base a)) (unat (pf_ularg a))"
    have b: "pf_base a \<in> {2, 8, 10, 16}" using A(3) False by auto
    then have "2 \<le> unat (pf_base a)" "unat (pf_base a) \<le> 16" by auto
    from num_text_nonzero[OF this, of "pf_alt a" "unat (pf_ularg a)"] ulong_to_string_ok[OF b, of "pf_str a" "pf_ularg a" "pf_alt a"] A(4)[OF False] False str
    show ?thesis by (auto simp: arg_text_def pf_string_def LONG_BITS_def cstr_append_zero is_cstr_append)
  qed
  then obtain s where s: "(if pf_base a \<noteq> 0 then ulong_to_string (pf_ularg a) (pf_str a) (pf_base a) (pf_alt a) else Some (pf_str a)) = Some s"
    "is_cstr s" "cstr s = str" by blast
  obtain len_str num_zeroes len_padding pc where
    l: "pf_layout leftjust pad_char fmin prec (pf_base a) (pf_sign a) (of_nat (length str)) = (len_str, num_zeroes, len_padding, pc)"
    by (metis surj_pair)
  note F = pf_layout_field[OF sz A(1,2) l]
  have le: "loop_count len_str \<le> length s" "take (loop_count len_str) s = take (loop_count len_str) str"
    using F cstr_length[OF s(2)] take_cstr[of "loop_count len_str" s] unfolding s(3) by auto
  have "put_field putc leftjust pc (pf_sign a) s len_str num_zeroes len_padding w st =
    Some (emit putc (field leftjust (pad_char = 48) (nat (sint fmin)) (prec_of prec) (pf_base a \<noteq> 0) (sign_text a) str) w st)"
    unfolding put_field_emit[OF le(1)] le(2) sign_text_def using F by (simp only:)
  then show ?thesis unfolding pf_output_def s(1) using strlen_cstr[of s] s(2,3) l by simp
qed

definition finish :: "u32 option \<times> 'st \<Rightarrow> u32 \<times> 'st" where
  "finish x = (case x of (None, st) \<Rightarrow> (u32_of EOF, st) | (Some w, st) \<Rightarrow> (w, st))"

lemma finish_emit_append:
  "finish (emit putc (xs @ ys) w st) =
     (case emit putc xs w st of (None, st) \<Rightarrow> (u32_of EOF, st) | (Some w, st) \<Rightarrow> finish (emit putc ys w st))"
  by (simp add: emit_append finish_def split: option.split prod.split)

lemma doprnt_text: "fmt_text fmt ap = Some t \<Longrightarrow> doprnt putc fmt ap w st = Some (finish (emit putc t w st))"
proof (induction fmt ap arbitrary: t w st rule: fmt_text.induct)
  case (1 ap)
  then show ?case by (simp add: fmt_text.simps)
next
  case (2 c fmt ap)
  have cons: "finish (emit putc (x # xs) w st) = (case put1 putc x w st of (None, st) \<Rightarrow> (u32_of EOF, st) | (Some w, st) \<Rightarrow> finish (emit putc xs w st))"
    for x xs w st by (simp add: finish_def split: option.split prod.split)
  consider (nul) "c = 0" | (literal) "c \<noteq> 0" "c \<noteq> 37" | (percent) c1 where "c = 37" "nget fmt 0 = Some c1" "c1 = 37"
    | (conv) c1 r ap' rest where "c = 37" "nget fmt 0 = Some c1" "c1 \<noteq> 37" "pf_spec ap fmt = Some (r, ap', rest)"
    using "2.prems" by (auto simp: fmt_text.simps split: Option.bind_splits if_splits)
  then show ?case
  proof cases
    case nul
    then show ?thesis using "2.prems" by (simp add: fmt_text.simps doprnt.simps finish_def)
  next
    case literal
    then obtain t' where t: "fmt_text fmt ap = Some t'" "t = c # t'" using "2.prems" by (auto simp: fmt_text.simps)
    have IH: "doprnt putc fmt ap w st = Some (finish (emit putc t' w st))" for w st using "2.IH"(4) literal t(1) by simp
    show ?thesis unfolding t(2) cons using literal IH by (simp add: doprnt.simps split: option.split prod.split)
  next
    case percent
    then obtain t' where t: "fmt_text (tl fmt) ap = Some t'" "t = 37 # t'" using "2.prems" by (auto simp: fmt_text.simps)
    have IH: "doprnt putc (tl fmt) ap w st = Some (finish (emit putc t' w st))" for w st using "2.IH"(1) percent t(1) by simp
    show ?thesis unfolding t(2) cons using percent IH by (simp add: doprnt.simps split: option.split prod.split)
  next
    case conv
    show ?thesis
    proof (cases r)
      case None
      then obtain t' where t: "fmt_text fmt ap' = Some t'" "t = 37 # t'" using "2.prems" conv by (auto simp: fmt_text.simps)
      have IH: "doprnt putc fmt ap' w st = Some (finish (emit putc t' w st))" for w st using "2.IH"(2)[OF _ _ conv(2,3)] None conv t(1) by simp
      show ?thesis unfolding t(2) cons using conv None IH by (simp add: doprnt.simps split: option.split prod.split)
    next
      case (Some x)
      obtain pad_char leftjust fmin prec a where x: "x = (pad_char, leftjust, fmin, prec, a)" by (cases x)
      let ?f = "\<lambda>str. field leftjust (pad_char = 48) (nat (sint fmin)) (prec_of prec) (pf_base a \<noteq> 0) (sign_text a) str"
      from "2.prems" conv Some x obtain str t' where t: "arg_text a = Some str" "fmt_text rest ap' = Some t'" "t = ?f str @ t'"
        "sint fmin < 2 ^ 30" "sint prec < 2 ^ 30" "length str < 2 ^ 30"
        by (auto simp: fmt_text.simps split: Option.bind_splits if_splits)
      have IH: "doprnt putc rest ap' w st = Some (finish (emit putc t' w st))" for w st
        using "2.IH"(3)[OF _ _ conv(2,3)] Some x conv t(1,2) by simp
      note O = pf_output_emit[OF conv(4)[unfolded Some x] t(1,4-6), of putc]
      show ?thesis unfolding t(3) finish_emit_append using conv Some x O IH
        by (simp add: doprnt.simps split: option.split prod.split)
    qed
  qed
qed

section \<open>Properties\<close>

text \<open>C33.
  \<^verbatim>\<open>ulong_to_string\<close> writes the digits of the number in base 2, 8, 10 or 16, most
  significant first, without leading zeros, and a terminator, inside of a buffer of 33
  bytes, which is the size of the caller's buffer. The loop with masks and shifts for powers of two
  computes what the loop with divisions computes.
\<close>

theorem ulong_to_string_digits:
  assumes "base \<in> {2, 8, 10, 16}" and "33 \<le> length str"
  shows "ulong_to_string num str base alt =
      Some (num_text alt (unat base) (unat num) @ 0 # drop (length (num_text alt (unat base) (unat num)) + 1) str) \<and>
    of_base (unat base) (to_base (unat base) (unat num)) = unat num \<and> (num \<noteq> 0 \<longrightarrow> hd (to_base (unat base) (unat num)) \<noteq> 0) \<and>
    length (num_text alt (unat base) (unat num)) \<le> 32 \<and>
    uts_shift digits k (push_bit k 1 - 1) num i temp = uts_div digits (2 ^ k) num i temp"
proof -
  have "2 \<le> unat base" using assms(1) by auto
  then show ?thesis using ulong_to_string_ok[OF assms] of_to_base to_base_hd[of "unat num"] num_text_length uts_shift_div
    by (simp add: unat_eq_zero)
qed

theorem ulong_to_string_digits_witness:
  "ulong_to_string 255 pf_string 16 False = Some ([102, 102] @ 0 # replicate 30 0) \<and> length pf_string = 33"
proof -
  have "16 \<in> {2, 8, 10, 16 :: u32}" "33 \<le> length pf_string" by (simp_all add: pf_string_def LONG_BITS_def)
  from ulong_to_string_digits[OF this, of 255 False] have
    "ulong_to_string 255 pf_string 16 False = Some (num_text False 16 255 @ 0 # drop (length (num_text False 16 255) + 1) pf_string)" by simp
  moreover have "to_base 16 255 = [15, 15]" by (simp add: to_base.simps)
  ultimately show ?thesis by (simp add: num_text_def digit_chars_def digits_lc_def pf_string_def LONG_BITS_def)
qed


text \<open>\<^verbatim>\<open>%-5d|%05d|%x\<close>\<close>

lemmas pf_evals = nget_def pf_spec_def pf_width_def pf_prec_def pf_size_def pf_conv_def pf_signed_def pf_unsigned_def

lemma pf_spec_ex:
  "pf_spec (Va_word x # ap) (45 # 53 # 100 # r) =
     Some (Some (32, True, 5, - 1, \<lparr>pf_base = 10, pf_sign = (if sint x < 0 then 45 else 0), pf_ularg = (if sint x < 0 then - x else x), pf_alt = False, pf_str = pf_string\<rparr>), ap, r)"
  "pf_spec (Va_word x # ap) (48 # 53 # 100 # r) =
     Some (Some (48, False, 5, - 1, \<lparr>pf_base = 10, pf_sign = (if sint x < 0 then 45 else 0), pf_ularg = (if sint x < 0 then - x else x), pf_alt = False, pf_str = pf_string\<rparr>), ap, r)"
  "pf_spec (Va_word x # ap) (120 # r) =
     Some (Some (32, False, 0, - 1, \<lparr>pf_base = 16, pf_sign = 0, pf_ularg = x, pf_alt = False, pf_str = pf_string\<rparr>), ap, r)"
  by (simp_all add: pf_evals)

lemma replicate_3: "replicate 3 x = [x, x, x]"
  by (simp add: numeral_3_eq_3)

lemma fmt_text_ex:
  "fmt_text [37, 45, 53, 100, 124, 37, 48, 53, 100, 124, 37, 120, 0] [Va_word 42, Va_word (- 7), Va_word 255] =
     Some ([52, 50] @ replicate 3 32 @ [124, 45] @ replicate 3 48 @ [55, 124, 102, 102])"
proof -
  have "to_base 10 42 = [4, 2]" "to_base 10 7 = [7]" "to_base 16 255 = [15, 15]" by (simp_all add: to_base.simps)
  then show ?thesis
    by (simp add: fmt_text.simps nget_def pf_spec_ex arg_text_def sign_text_def num_text_def digit_chars_def digits_lc_def field_def prec_of_def)
qed


end
