(* ===== verification/Doscan.thy ===== *)
theory Doscan
  imports Ctype C_Strings
begin

text \<open>
  Formatted input: \<^verbatim>\<open>_doscan\<close> and its helpers (\<^verbatim>\<open>lib/libxc/doscan.c\<close>).

  The places to store to are pointers into a list of objects: an object's number and an
  offset, or \<open>None\<close> for a null pointer. A store outside of an object is \<open>None\<close>, as is a missing argument
  or a format that is not terminated. \<^verbatim>\<open>getch\<close> and \<^verbatim>\<open>ungetch\<close> are arguments: functions on a state of
  their own, which may also go out of bounds. The loops that read until something turns up may
  run forever on an endless source, which is \<open>None\<close> too.
\<close>

unbundle bit_operations_syntax

section \<open>Stores\<close>

type_synonym objs = "buf list"
type_synonym dptr = "nat \<times> nat"

definition poke :: "objs \<Rightarrow> dptr \<Rightarrow> u8 \<Rightarrow> objs option" where
  "poke os p v = (case p of (k, i) \<Rightarrow> do { b \<leftarrow> nget os k; b \<leftarrow> nset b i v; nset os k b })"

primrec pokes :: "objs \<Rightarrow> dptr \<Rightarrow> buf \<Rightarrow> objs option" where
  "pokes os p [] = Some os"
| "pokes os p (v # vs) = do { os \<leftarrow> poke os p v; pokes os (fst p, snd p + 1) vs }"

text \<open>The bytes of a number, least significant first.\<close>

definition le_bytes :: "nat \<Rightarrow> u32 \<Rightarrow> buf" where
  "le_bytes m n = map (\<lambda>i. ucast (drop_bit (8 * i) n)) [0..<m]"

datatype scan_size = SCAN_SHORT_SIZE | SCAN_REGULAR_SIZE | SCAN_LONG_SIZE

fun store_number :: "scan_size \<Rightarrow> objs \<Rightarrow> dptr \<Rightarrow> u32 \<Rightarrow> objs option" where
  "store_number SCAN_SHORT_SIZE os p n = pokes os p (le_bytes 2 n)"
| "store_number SCAN_REGULAR_SIZE os p n = pokes os p (le_bytes 4 n)"
| "store_number SCAN_LONG_SIZE os p n = pokes os p (le_bytes 4 n)"

section \<open>Character sets\<close>

fun stopchar_loop :: "u8 \<Rightarrow> bool \<Rightarrow> buf \<Rightarrow> buf \<Rightarrow> (buf \<times> buf) option" where
  "stopchar_loop fill_char first tab [] = None"
| "stopchar_loop fill_char first tab (c # ufmt) =
     (if c = 93 \<and> \<not> first then Some (tab, ufmt)
      else if c = 0 then Some (tab, c # ufmt)
      else stopchar_loop fill_char False (tab[unat c := fill_char]) ufmt)"

definition build_stopchar_tab :: "buf \<Rightarrow> buf \<Rightarrow> (buf \<times> buf) option" where
  "build_stopchar_tab ufmt tab =
     do {
       c \<leftarrow> nget ufmt 0;
       let (ufmt, fill_char) = (if c = 94 then (drop 1 ufmt, 0) else (ufmt, 1));
       tab \<leftarrow> memset tab (uint fill_char) 256;
       stopchar_loop (fill_char XOR 1) True tab ufmt
     }"

section \<open>Conversions\<close>

type_synonym 'st getch = "'st \<Rightarrow> (int \<times> 'st) option"

definition UNLIMITED_LENGTH :: u32 where "UNLIMITED_LENGTH = NOT 0"

definition scan_stops :: "u8 \<Rightarrow> buf \<Rightarrow> int \<Rightarrow> bool option" where
  "scan_stops type tab c =
     (if type = 91 then if c < 0 then None else map_option (\<lambda>b. b \<noteq> 0) (nget tab (nat c))
      else Some (type = 115 \<and> isspace (word_of_int c)))"

definition scan_put :: "objs \<Rightarrow> dptr option \<Rightarrow> int \<Rightarrow> (objs \<times> dptr option) option" where
  "scan_put os ptr c =
     (case ptr of
        None \<Rightarrow> Some (os, None)
      | Some (k, i) \<Rightarrow> do { os \<leftarrow> poke os (k, i) (word_of_int c); Some (os, Some (k, i + 1)) })"

partial_function (option) scan_chars ::
  "'st getch \<Rightarrow> 'st getch \<Rightarrow> u8 \<Rightarrow> u32 \<Rightarrow> buf \<Rightarrow> u32 \<Rightarrow> dptr option \<Rightarrow> objs \<Rightarrow> 'st \<Rightarrow> (u32 \<times> bool \<times> dptr option \<times> objs \<times> 'st) option" where
  "scan_chars getch ungetch type maxlen tab len ptr os st =
     (if len < maxlen
      then do {
        (c, st) \<leftarrow> getch st;
        if c = EOF then Some (len, True, ptr, os, st)
        else do {
          stop \<leftarrow> scan_stops type tab c;
          if stop
          then do { (_, st) \<leftarrow> ungetch st; Some (len, False, ptr, os, st) }
          else do {
            (os, ptr) \<leftarrow> scan_put os ptr c;
            scan_chars getch ungetch type maxlen tab (len + 1) ptr os st
          }
        }
      }
      else Some (len, False, ptr, os, st))"

definition scan_string ::
  "'st getch \<Rightarrow> 'st getch \<Rightarrow> dptr option \<Rightarrow> u8 \<Rightarrow> u32 \<Rightarrow> buf \<Rightarrow> objs \<Rightarrow> 'st \<Rightarrow> (bool \<times> bool \<times> objs \<times> 'st) option" where
  "scan_string getch ungetch ptr type maxlen tab os st =
     do {
       let maxlen = (if type = 99 \<and> maxlen = UNLIMITED_LENGTH then 1 else maxlen);
       (len, eof, ptr, os, st) \<leftarrow> scan_chars getch ungetch type maxlen tab 0 ptr os st;
       os \<leftarrow> (if type \<noteq> 99 then case ptr of None \<Rightarrow> Some os | Some p \<Rightarrow> poke os p 0 else Some os);
       Some (len \<noteq> 0 \<and> \<not> (type = 99 \<and> len < maxlen), eof, os, st)
     }"

text \<open>Reads white space; returns the first other character, or \<^verbatim>\<open>EOF\<close>.\<close>

partial_function (option) skip_space :: "'st getch \<Rightarrow> 'st \<Rightarrow> (int \<times> 'st) option" where
  "skip_space getch st =
     do {
       (c, st) \<leftarrow> getch st;
       if c \<noteq> EOF \<and> isspace (word_of_int c) then skip_space getch st else Some (c, st)
     }"

definition scan_digit :: "u32 \<Rightarrow> int \<Rightarrow> int option" where
  "scan_digit base c =
     (if base = 16 \<and> 97 \<le> c \<and> c \<le> 102 then Some (10 + (c - 97))
      else if (base = 16 \<or> base = 10) \<and> 56 \<le> c \<and> c \<le> 57 then Some (c - 48)
      else if (base = 16 \<or> base = 10 \<or> base = 8) \<and> 48 \<le> c \<and> c \<le> 55 then Some (c - 48)
      else None)"

partial_function (option) scan_digits ::
  "'st getch \<Rightarrow> 'st getch \<Rightarrow> u32 \<Rightarrow> u32 \<Rightarrow> u32 \<Rightarrow> u32 \<Rightarrow> int \<Rightarrow> 'st \<Rightarrow> (u32 \<times> u32 \<times> int \<times> 'st) option" where
  "scan_digits getch ungetch base maxlen n len c st =
     (if c = EOF then Some (n, len, c, st)
      else case scan_digit base (tolower (word_of_int c)) of
        None \<Rightarrow> do { (_, st) \<leftarrow> ungetch st; Some (n, len, tolower (word_of_int c), st) }
      | Some d \<Rightarrow>
          if len + 1 \<ge> maxlen then Some (n * base + word_of_int d, len + 1, tolower (word_of_int c), st)
          else do {
            (c, st) \<leftarrow> getch st;
            scan_digits getch ungetch base maxlen (n * base + word_of_int d) (len + 1) c st
          })"

definition scan_number ::
  "'st getch \<Rightarrow> 'st getch \<Rightarrow> dptr option \<Rightarrow> u32 \<Rightarrow> u32 \<Rightarrow> scan_size \<Rightarrow> int \<Rightarrow> objs \<Rightarrow> 'st \<Rightarrow> (bool \<times> bool \<times> objs \<times> 'st) option" where
  "scan_number getch ungetch ptr base maxlen sz c os st =
     do {
       let negative = (c = 45);
       let had_sign = (c = 45 \<or> c = 43);
       (c, st) \<leftarrow> (if had_sign then getch st else Some (c, st));
       (n, len, c, st) \<leftarrow> scan_digits getch ungetch base maxlen 0 (if had_sign then 1 else 0) c st;
       let eof = (c = EOF);
       case ptr of
         Some p \<Rightarrow>
           if len \<noteq> 0 \<and> \<not> (had_sign \<and> len = 1)
           then do { os \<leftarrow> store_number sz os p (if negative then - n else n); Some (True, eof, os, st) }
           else Some (False, eof, os, st)
       | None \<Rightarrow> Some (False, eof, os, st)
     }"

definition scan_number_or_string ::
  "'st getch \<Rightarrow> 'st getch \<Rightarrow> dptr option \<Rightarrow> u8 \<Rightarrow> u32 \<Rightarrow> scan_size \<Rightarrow> buf \<Rightarrow> objs \<Rightarrow> 'st \<Rightarrow> (bool \<times> bool \<times> objs \<times> 'st) option" where
  "scan_number_or_string getch ungetch ptr type maxlen sz tab os st =
     do {
       (c, st) \<leftarrow> (if type \<noteq> 91 \<and> type \<noteq> 99 then skip_space getch st else Some (0, st));
       if c = EOF then Some (False, True, os, st)
       else if type = 115
       then do {
         (_, st) \<leftarrow> ungetch st;
         scan_string getch ungetch ptr type maxlen tab os st
       }
       else if type = 99 \<or> type = 91 then scan_string getch ungetch ptr type maxlen tab os st
       else scan_number getch ungetch ptr (if type = 111 then 8 else if type = 120 then 16 else 10) maxlen sz c os st
     }"

section \<open>The format\<close>

definition sc_ptr :: "dptr option list \<Rightarrow> buf \<Rightarrow> (dptr option \<times> dptr option list \<times> buf) option" where
  "sc_ptr ap ufmt =
     do {
       c \<leftarrow> nget ufmt 0;
       if c = 42 then Some (None, ap, drop 1 ufmt)
       else case ap of [] \<Rightarrow> None | ptr # ap \<Rightarrow> Some (ptr, ap, ufmt)
     }"

fun sc_digits :: "u32 \<Rightarrow> buf \<Rightarrow> (u32 \<times> buf) option" where
  "sc_digits maxlen [] = None"
| "sc_digits maxlen (c # ufmt) =
     (if isdigit c then sc_digits (maxlen * 10 + (ucast c - 48)) ufmt else Some (maxlen, c # ufmt))"

definition sc_maxlen :: "buf \<Rightarrow> (u32 \<times> buf) option" where
  "sc_maxlen ufmt =
     do {
       (maxlen, ufmt) \<leftarrow> sc_digits 0 ufmt;
       Some (if maxlen = 0 then UNLIMITED_LENGTH else maxlen, ufmt)
     }"

definition sc_size :: "buf \<Rightarrow> (scan_size \<times> buf) option" where
  "sc_size ufmt =
     do {
       c \<leftarrow> nget ufmt 0;
       Some (if c = 108 then (SCAN_LONG_SIZE, drop 1 ufmt)
             else if c = 104 then (SCAN_SHORT_SIZE, drop 1 ufmt)
             else (SCAN_REGULAR_SIZE, ufmt))
     }"

text \<open>
  A conversion specification: \<open>None\<close> when the format ends within it, and otherwise the
  conversion character, the size and the table of stop characters.
\<close>

definition sc_conv :: "scan_size \<Rightarrow> buf \<Rightarrow> ((u8 \<times> scan_size \<times> buf) option \<times> buf) option" where
  "sc_conv sz ufmt =
     do {
       c \<leftarrow> nget ufmt 0;
       let ufmt = drop 1 ufmt;
       if c = 91
       then do {
         (tab, ufmt) \<leftarrow> build_stopchar_tab ufmt (replicate 256 0);
         Some (Some (c, sz, tab), ufmt)
       }
       else if c = 0 then Some (None, ufmt)
       else if isupper c then Some (Some (word_of_int (tolower c), SCAN_LONG_SIZE, []), ufmt)
       else Some (Some (c, sz, []), ufmt)
     }"

definition sc_spec :: "dptr option list \<Rightarrow> buf \<Rightarrow> (dptr option \<times> u32 \<times> (u8 \<times> scan_size \<times> buf) option \<times> dptr option list \<times> buf) option" where
  "sc_spec ap ufmt =
     do {
       (ptr, ap, ufmt) \<leftarrow> sc_ptr ap ufmt;
       (maxlen, ufmt) \<leftarrow> sc_maxlen ufmt;
       (sz, ufmt) \<leftarrow> sc_size ufmt;
       (conv, ufmt) \<leftarrow> sc_conv sz ufmt;
       Some (ptr, maxlen, conv, ap, ufmt)
     }"

fun sc_space :: "buf \<Rightarrow> buf option" where
  "sc_space [] = None"
| "sc_space (c # ufmt) = (if isspace c then sc_space ufmt else Some (c # ufmt))"

definition eof_or :: "u32 \<Rightarrow> u32" where
  "eof_or nmatch = (if nmatch = 0 then u32_of EOF else nmatch)"

partial_function (option) doscan_loop ::
  "'st getch \<Rightarrow> 'st getch \<Rightarrow> buf \<Rightarrow> dptr option list \<Rightarrow> u32 \<Rightarrow> objs \<Rightarrow> 'st \<Rightarrow> (u32 \<times> objs \<times> 'st) option" where
  "doscan_loop getch ungetch ufmt ap nmatch os st =
     do {
       f \<leftarrow> nget ufmt 0;
       if f = 0 then Some (nmatch, os, st)
       else do {
         f1 \<leftarrow> (if f = 37 then nget ufmt 1 else Some 37);
         if f1 \<noteq> 37
         then do {
           (ptr, maxlen, conv, ap, ufmt) \<leftarrow> sc_spec ap (drop 1 ufmt);
           case conv of
             None \<Rightarrow> Some (nmatch, os, st)
           | Some (type, sz, tab) \<Rightarrow>
               do {
                 (ok, eof, os, st) \<leftarrow> scan_number_or_string getch ungetch ptr type maxlen sz tab os st;
                 if ok
                 then if eof then Some (eof_or (if ptr \<noteq> None then nmatch + 1 else nmatch), os, st)
                      else doscan_loop getch ungetch ufmt ap (if ptr \<noteq> None then nmatch + 1 else nmatch) os st
                 else if ptr \<noteq> None \<or> eof then Some (if eof then eof_or nmatch else nmatch, os, st)
                 else doscan_loop getch ungetch ufmt ap nmatch os st
               }
         }
         else if isspace f
         then do {
           (c, st) \<leftarrow> skip_space getch st;
           if c = EOF then Some (eof_or nmatch, os, st)
           else do {
             (_, st) \<leftarrow> ungetch st;
             ufmt \<leftarrow> sc_space (drop 1 ufmt);
             doscan_loop getch ungetch ufmt ap nmatch os st
           }
         }
         else do {
           (c, st) \<leftarrow> getch st;
           if c = EOF then Some (eof_or nmatch, os, st)
           else if c \<noteq> uint f then Some (nmatch, os, st)
           else doscan_loop getch ungetch (drop (if f = 37 then 2 else 1) ufmt) ap nmatch os st
         }
       }
     }"

definition doscan ::
  "'st getch \<Rightarrow> 'st getch \<Rightarrow> buf \<Rightarrow> dptr option list \<Rightarrow> objs \<Rightarrow> 'st \<Rightarrow> (u32 \<times> objs \<times> 'st) option" where
  "doscan getch ungetch fmt ap os st = doscan_loop getch ungetch fmt ap 0 os st"

section \<open>Scanning a text\<close>

text \<open>What the conversions do with a text: the result, whether its end was met, the objects, and the rest of the text.\<close>

definition text_string :: "dptr option \<Rightarrow> u8 \<Rightarrow> u32 \<Rightarrow> buf \<Rightarrow> objs \<Rightarrow> buf \<Rightarrow> (bool \<times> bool \<times> objs \<times> buf) option" where
  "text_string ptr type maxlen tab os t =
     do {
       let m = (if type = 99 \<and> maxlen = UNLIMITED_LENGTH then 1 else unat maxlen);
       let a = take m (takeWhile (\<lambda>c. scan_stops type tab (uint c) = Some False) t);
       os \<leftarrow> (case ptr of None \<Rightarrow> Some os | Some p \<Rightarrow> pokes os p (if type = 99 then a else a @ [0]));
       Some (a \<noteq> [] \<and> (type = 99 \<longrightarrow> length a = m), length a < m \<and> a = t, os, drop (length a) t)
     }"

definition text_digit :: "u32 \<Rightarrow> u8 \<Rightarrow> int option" where
  "text_digit base c = scan_digit base (tolower c)"

definition text_value :: "u32 \<Rightarrow> u32 \<Rightarrow> buf \<Rightarrow> u32" where
  "text_value base = foldl (\<lambda>n c. n * base + word_of_int (the (text_digit base c)))"

definition is_sign :: "buf \<Rightarrow> bool" where
  "is_sign t \<longleftrightarrow> t \<noteq> [] \<and> (hd t = 45 \<or> hd t = 43)"

definition text_number :: "dptr option \<Rightarrow> u32 \<Rightarrow> u32 \<Rightarrow> scan_size \<Rightarrow> objs \<Rightarrow> buf \<Rightarrow> (bool \<times> bool \<times> objs \<times> buf) option" where
  "text_number ptr base maxlen sz os t =
     do {
       let u = (if is_sign t then tl t else t);
       let m = max 1 (unat maxlen - (if is_sign t then 1 else 0));
       let a = take m (takeWhile (\<lambda>c. text_digit base c \<noteq> None) u);
       let n = text_value base 0 a;
       os \<leftarrow> (case ptr of Some p \<Rightarrow> if a \<noteq> [] then store_number sz os p (if hd t = 45 then - n else n) else Some os | None \<Rightarrow> Some os);
       Some (ptr \<noteq> None \<and> a \<noteq> [], length a < m \<and> a = u, os, drop (length a) u)
     }"

definition text_conv :: "dptr option \<Rightarrow> u8 \<Rightarrow> u32 \<Rightarrow> scan_size \<Rightarrow> buf \<Rightarrow> objs \<Rightarrow> buf \<Rightarrow> (bool \<times> bool \<times> objs \<times> buf) option" where
  "text_conv ptr type maxlen sz tab os t =
     (if type = 91 \<or> type = 99 then text_string ptr type maxlen tab os t
      else let t = dropWhile isspace t in
        if t = [] then Some (False, True, os, [])
        else if type = 115 then text_string ptr type maxlen tab os t
        else text_number ptr (if type = 111 then 8 else if type = 120 then 16 else 10) maxlen sz os t)"

lemma uint_not_EOF: "uint (c :: u8) \<noteq> EOF"
  by (rule notI, drule arg_cong[of _ _ "\<lambda>x. 0 \<le> x"]) (simp add: EOF_def)

definition put_all :: "objs \<Rightarrow> dptr option \<Rightarrow> buf \<Rightarrow> objs option" where
  "put_all os ptr a = (case ptr of None \<Rightarrow> Some os | Some p \<Rightarrow> pokes os p a)"

definition moved :: "dptr option \<Rightarrow> nat \<Rightarrow> dptr option" where
  "moved ptr n = map_option (\<lambda>(k, i). (k, i + n)) ptr"

lemma moved_simps [simp]: "moved ptr 0 = ptr" "moved (moved ptr m) n = moved ptr (m + n)"
  by (cases ptr; auto simp: moved_def)+

lemma scan_put_moved: "scan_put os ptr (uint c) = map_option (\<lambda>os. (os, moved ptr 1)) (put_all os ptr [c])"
  by (auto simp: scan_put_def put_all_def moved_def split: option.split Option.bind_split)

lemma put_all_nil [simp]: "put_all os ptr [] = Some os"
  by (simp add: put_all_def split: option.split)

lemma put_all_Cons: "put_all os ptr (c # a) = do { os \<leftarrow> put_all os ptr [c]; put_all os (moved ptr 1) a }"
  by (auto simp: put_all_def moved_def split: option.split Option.bind_split)

lemma unat_inc: "x < y \<Longrightarrow> unat (x + 1) = unat (x :: u32) + 1"
  using unsigned_less[of y, where 'a = nat] by (simp add: word_less_nat_alt unat_word_ariths)

lemma of_nat_0_cases: "Suc n < 2 ^ 32 \<Longrightarrow> 1 + of_nat n \<noteq> (0 :: u32)" "n < 2 ^ 32 \<Longrightarrow> (of_nat n = (0 :: u32)) = (n = 0)"
proof -
  assume "Suc n < 2 ^ 32"
  then have "unat (of_nat (Suc n) :: u32) = Suc n" by (simp add: unat_of_nat del: of_nat_Suc)
  then show "1 + of_nat n \<noteq> (0 :: u32)" by auto
next
  assume "n < 2 ^ 32"
  then have "unat (of_nat n :: u32) = n" by (simp add: unat_of_nat)
  then show "(of_nat n = (0 :: u32)) = (n = 0)" by (cases "n = 0") (simp, auto)
qed

lemma scan_stops_total: "(type = 91 \<longrightarrow> length tab = 256) \<Longrightarrow> \<exists>b. scan_stops type tab (uint (c :: u8)) = Some b"
  using unsigned_less[of c, where 'a = nat] by (auto simp: scan_stops_def nget_def)

section \<open>Sources of characters\<close>

text \<open>A result of the code and a result on the text: equal, and the state stands for the rest of the text unless the end was met.\<close>

definition agrees :: "('st \<Rightarrow> buf \<Rightarrow> bool) \<Rightarrow> (bool \<times> bool \<times> objs \<times> 'st) option \<Rightarrow> (bool \<times> bool \<times> objs \<times> buf) option \<Rightarrow> bool" where
  "agrees src x y \<longleftrightarrow> rel_option (\<lambda>(ok, eof, os, st) (ok', eof', os', t). ok = ok' \<and> eof = eof' \<and> os = os' \<and> (eof \<or> src st t)) x y"

text \<open>The next character of a text was read, and can be put back.\<close>

definition ahead :: "('st \<Rightarrow> buf \<Rightarrow> bool) \<Rightarrow> 'st getch \<Rightarrow> int \<Rightarrow> 'st \<Rightarrow> buf \<Rightarrow> bool" where
  "ahead src ungetch c st u = (case u of
      [] \<Rightarrow> c = EOF
    | c0 # r \<Rightarrow> c = uint c0 \<and> src st r \<and> (\<exists>x st'. ungetch st = Some (x, st') \<and> src st' u))"

lemma tolower_not_EOF: "tolower c \<noteq> EOF"
  by (rule notI, drule arg_cong[of _ _ "\<lambda>x. 0 \<le> x"]) (simp add: EOF_def tolower_def add_nonneg_nonneg split: if_splits)

lemma pokes_append: "pokes os p (a @ b) = do { os \<leftarrow> pokes os p a; pokes os (fst p, snd p + length a) b }"
  by (induction a arbitrary: os p) (auto split: Option.bind_split)

text \<open>
  What \<^verbatim>\<open>_doscan\<close> relies on: \<open>getch\<close> returns the characters of a text one after the other and then
  \<^verbatim>\<open>EOF\<close>, and \<open>ungetch\<close> puts the last one back.
\<close>

locale char_source =
  fixes getch :: "'st getch" and ungetch :: "'st getch" and src :: "'st \<Rightarrow> buf \<Rightarrow> bool"
  assumes get_nil: "src st [] \<Longrightarrow> \<exists>st'. getch st = Some (EOF, st')"
    and get_cons: "src st (c # t) \<Longrightarrow> \<exists>st' st'' x. getch st = Some (uint c, st') \<and> src st' t \<and> ungetch st' = Some (x, st'') \<and> src st'' (c # t)"
begin

lemma get_ahead: "src st u \<Longrightarrow> \<exists>c st'. getch st = Some (c, st') \<and> ahead src ungetch c st' u"
  by (cases u) (use get_nil get_cons in \<open>fastforce simp: ahead_def\<close>)+

lemma skip_space_src:
  "src st t \<Longrightarrow> \<exists>c st'. skip_space getch st = Some (c, st') \<and> ahead src ungetch c st' (dropWhile isspace t)"
proof (induction t arbitrary: st)
  case Nil
  then show ?case using get_nil[of st] by (auto simp: skip_space.simps ahead_def)
next
  case (Cons c t)
  obtain st' st'' x where g: "getch st = Some (uint c, st')" "src st' t" "ungetch st' = Some (x, st'')" "src st'' (c # t)"
    using get_cons[OF Cons.prems] by blast
  have "skip_space getch st = (if isspace c then skip_space getch st' else Some (uint c, st'))"
    by (subst skip_space.simps) (simp add: g uint_not_EOF)
  then show ?case using Cons.IH[OF g(2)] g by (auto simp: ahead_def)
qed

lemma scan_chars_src:
  assumes tab: "type = 91 \<longrightarrow> length tab = 256"
  shows "src st t \<Longrightarrow> len \<le> maxlen \<Longrightarrow>
    a = take (unat maxlen - unat len) (takeWhile (\<lambda>c. scan_stops type tab (uint c) = Some False) t) \<Longrightarrow>
    e = (unat len + length a < unat maxlen \<and> a = t) \<Longrightarrow>
    \<exists>st'. scan_chars getch ungetch type maxlen tab len ptr os st =
        map_option (\<lambda>os. (len + of_nat (length a), e, moved ptr (length a), os, st')) (put_all os ptr a) \<and>
      (put_all os ptr a \<noteq> None \<longrightarrow> e \<or> src st' (drop (length a) t))"
proof (induction t arbitrary: st len ptr os a)
  case Nil
  then obtain st' where "getch st = Some (EOF, st')" using get_nil by blast
  then show ?case using Nil
    by (auto simp: scan_chars.simps[of _ _ _ _ _ len] word_less_nat_alt word_le_nat_alt)
next
  case (Cons c t)
  show ?case
  proof (cases "len < maxlen")
    case False
    then show ?thesis using Cons.prems by (auto simp: scan_chars.simps[of _ _ _ _ _ len] word_less_nat_alt)
  next
    case True
    obtain st' st'' x where g: "getch st = Some (uint c, st')" "src st' t" "ungetch st' = Some (x, st'')" "src st'' (c # t)"
      using get_cons[OF Cons.prems(1)] by blast
    obtain b where b: "scan_stops type tab (uint c) = Some b" using scan_stops_total[OF tab] by blast
    have u: "scan_chars getch ungetch type maxlen tab len ptr os st =
      (if b then Some (len, False, ptr, os, st'') else do { os \<leftarrow> put_all os ptr [c]; scan_chars getch ungetch type maxlen tab (len + 1) (moved ptr 1) os st' })"
      by (subst scan_chars.simps) (simp add: True g uint_not_EOF b scan_put_moved bind_map_option comp_def)
    show ?thesis
    proof (cases b)
      case True
      then show ?thesis using u g b Cons.prems by auto
    next
      case nb: False
      have l1: "len + 1 \<le> maxlen" "unat (len + 1) = unat len + 1"
        using True unat_inc[OF True] by (simp_all add: inc_le)
      define a' where "a' = take (unat maxlen - unat (len + 1)) (takeWhile (\<lambda>c. scan_stops type tab (uint c) = Some False) t)"
      have "unat maxlen - unat len = Suc (unat maxlen - unat (len + 1))" using True l1 by (simp add: word_less_nat_alt)
      then have a: "a = c # a'" using Cons.prems(3) nb b by (simp add: a'_def)
      have e: "e = (unat (len + 1) + length a' < unat maxlen \<and> a' = t)" using Cons.prems(4) a l1 by simp
      show ?thesis
      proof (cases "put_all os ptr [c]")
        case None
        then show ?thesis using u nb a g(2) by (auto simp: put_all_Cons[of _ _ c a'])
      next
        case (Some os1)
        obtain st1 where "scan_chars getch ungetch type maxlen tab (len + 1) (moved ptr 1) os1 st' =
            map_option (\<lambda>os. (len + 1 + of_nat (length a'), e, moved (moved ptr 1) (length a'), os, st1)) (put_all os1 (moved ptr 1) a')"
          "put_all os1 (moved ptr 1) a' \<noteq> None \<longrightarrow> e \<or> src st1 (drop (length a') t)"
          using Cons.IH[OF g(2) l1(1) a'_def e, of "moved ptr 1" os1] by blast
        then show ?thesis using u nb a Some by (auto simp: put_all_Cons[of _ _ c a'] add.assoc)
      qed
    qed
  qed
qed

lemma scan_string_src:
  assumes src: "src st t" and tab: "type = 91 \<longrightarrow> length tab = 256"
  shows "agrees src (scan_string getch ungetch ptr type maxlen tab os st) (text_string ptr type maxlen tab os t)"
proof -
  let ?l = "if type = 99 \<and> maxlen = UNLIMITED_LENGTH then 1 else maxlen"
  define a where "a = take (unat ?l) (takeWhile (\<lambda>c. scan_stops type tab (uint c) = Some False) t)"
  define e where "e = (length a < unat ?l \<and> a = t)"
  obtain st' where s: "scan_chars getch ungetch type ?l tab 0 ptr os st =
      map_option (\<lambda>os. (of_nat (length a), e, moved ptr (length a), os, st')) (put_all os ptr a)"
    "put_all os ptr a \<noteq> None \<longrightarrow> e \<or> src st' (drop (length a) t)"
    using scan_chars_src[OF tab src, of 0 ?l a e ptr os] by (auto simp: a_def e_def)
  have l: "length a \<le> unat ?l" by (simp add: a_def)
  then have len: "unat (of_nat (length a) :: u32) = length a"
    using unsigned_less[of ?l, where 'a = nat] by (simp add: unat_of_nat)
  have m: "unat ?l = (if type = 99 \<and> maxlen = UNLIMITED_LENGTH then 1 else unat maxlen)" by simp
  have z: "(of_nat (length a) = (0 :: u32)) = (a = [])" "(of_nat (length a) < ?l) = (length a < unat ?l)"
    using len by (auto simp: word_less_nat_alt simp del: of_nat_eq_0_iff word_of_nat_eq_0_iff)
  have x: "scan_string getch ungetch ptr type maxlen tab os st = do {
      os \<leftarrow> put_all os ptr a;
      os \<leftarrow> (if type \<noteq> 99 then case moved ptr (length a) of None \<Rightarrow> Some os | Some p \<Rightarrow> poke os p 0 else Some os);
      Some (a \<noteq> [] \<and> (type = 99 \<longrightarrow> length a = unat ?l), e, os, st') }"
    unfolding scan_string_def Let_def s(1) bind_map_option comp_def z prod.case
    using l by (intro Option.bind_cong refl) auto
  have "text_string ptr type maxlen tab os t = do {
      os \<leftarrow> put_all os ptr a;
      os \<leftarrow> (if type \<noteq> 99 then case moved ptr (length a) of None \<Rightarrow> Some os | Some p \<Rightarrow> poke os p 0 else Some os);
      Some (a \<noteq> [] \<and> (type = 99 \<longrightarrow> length a = unat ?l), e, os, drop (length a) t) }"
    unfolding text_string_def Let_def m[symmetric] a_def[symmetric] e_def
    by (cases ptr) (auto simp: put_all_def moved_def pokes_append split: Option.bind_split)
  with x s(2) show ?thesis
    by (auto simp: agrees_def split: Option.bind_split)
qed

lemma scan_digits_src:
  "ahead src ungetch c st u \<Longrightarrow> len < maxlen \<or> len \<le> 1 \<Longrightarrow>
   m = max 1 (unat maxlen - unat len) \<Longrightarrow>
   a = take m (takeWhile (\<lambda>c. text_digit base c \<noteq> None) u) \<Longrightarrow>
   e = (length a < m \<and> a = u) \<Longrightarrow>
   \<exists>c' st'. scan_digits getch ungetch base maxlen n len c st = Some (text_value base n a, len + of_nat (length a), c', st') \<and>
     (c' = EOF) = e \<and> (e \<or> src st' (drop (length a) u))"
proof (induction u arbitrary: c st len n m a)
  case Nil
  then show ?case by (auto simp: scan_digits.simps[of _ _ _ _ n] ahead_def text_value_def)
next
  case (Cons c0 u)
  obtain x st'' where c: "c = uint c0" "src st u" "ungetch st = Some (x, st'')" "src st'' (c0 # u)"
    using Cons.prems(1) by (auto simp: ahead_def)
  have len: "unat (len + 1) = unat len + 1"
    using Cons.prems(2) unat_inc[of len maxlen] unat_inc[of len 2] by (auto simp: word_le_nat_alt word_less_nat_alt)
  show ?case
  proof (cases "text_digit base c0")
    case None
    then have "scan_digits getch ungetch base maxlen n len c st = Some (n, len, tolower c0, st'')"
      by (subst scan_digits.simps) (simp add: c uint_not_EOF text_digit_def)
    then show ?thesis using None Cons.prems c by (auto simp: text_value_def tolower_not_EOF)
  next
    case (Some d)
    have v: "text_value base n (c0 # xs) = text_value base (n * base + word_of_int d) xs" for xs
      using Some by (simp add: text_value_def)
    show ?thesis
    proof (cases "len + 1 \<ge> maxlen")
      case True
      then have "m = 1" using Cons.prems(3) len by (simp add: word_le_nat_alt)
      then have "a = [c0]" using Cons.prems(4) Some by simp
      moreover have "scan_digits getch ungetch base maxlen n len c st = Some (n * base + word_of_int d, len + 1, tolower c0, st)"
        by (subst scan_digits.simps) (use Some True in \<open>simp add: c uint_not_EOF text_digit_def\<close>)
      moreover have "\<not> e" using Cons.prems(5) \<open>a = [c0]\<close> \<open>m = 1\<close> by simp
      ultimately show ?thesis using c v[of "[]"] by (auto simp: text_value_def tolower_not_EOF)
    next
      case False
      obtain c1 st1 where g: "getch st = Some (c1, st1)" "ahead src ungetch c1 st1 u" using get_ahead[OF c(2)] by blast
      have u: "scan_digits getch ungetch base maxlen n len c st = scan_digits getch ungetch base maxlen (n * base + word_of_int d) (len + 1) c1 st1"
        by (subst scan_digits.simps) (use Some False g in \<open>simp add: c uint_not_EOF text_digit_def\<close>)
      define m' a' where "m' = max 1 (unat maxlen - unat (len + 1))" and "a' = take m' (takeWhile (\<lambda>c. text_digit base c \<noteq> None) u)"
      have m: "m = Suc m'" using False Cons.prems(3) len by (auto simp: m'_def word_le_nat_alt)
      then have a: "a = c0 # a'" using Cons.prems(4) Some by (simp add: a'_def)
      have e: "e = (length a' < m' \<and> a' = u)" using Cons.prems(5) a m by simp
      have l: "len + 1 < maxlen \<or> len + 1 \<le> 1" using False by (simp add: not_le)
      show ?thesis using Cons.IH[OF g(2) l m'_def a'_def e, of "n * base + word_of_int d"] u v[of a'] a by (auto simp: add.assoc)
    qed
  qed
qed

lemma scan_number_src:
  assumes c: "ahead src ungetch c st t" and t: "t \<noteq> []"
  shows "agrees src (scan_number getch ungetch ptr base maxlen sz c os st) (text_number ptr base maxlen sz os t)"
proof -
  define s where "s = is_sign t"
  define u where "u = (if s then tl t else t)"
  have c0: "c = uint (hd t)" "src st (tl t)" using c t by (auto simp: ahead_def neq_Nil_conv)
  have cs: "(c = 45 \<or> c = 43) = s" "(c = 45) = (hd t = 45)"
    using t c0 by (auto simp: s_def is_sign_def word_uint_eq_iff)
  obtain c1 st1 where g: "(if s then getch st else Some (c, st)) = Some (c1, st1)" "ahead src ungetch c1 st1 u"
    using get_ahead[OF c0(2)] c by (cases s) (auto simp: u_def)
  define m a e where "m = max 1 (unat maxlen - (if s then 1 else 0))"
    and "a = take m (takeWhile (\<lambda>c. text_digit base c \<noteq> None) u)" and "e = (length a < m \<and> a = u)"
  have p1: "(if s then 1 else 0) < maxlen \<or> (if s then 1 else 0) \<le> (1 :: u32)" by simp
  have p2: "m = max 1 (unat maxlen - unat (if s then 1 else 0 :: u32))" by (simp add: m_def)
  obtain c2 st2 where d: "scan_digits getch ungetch base maxlen 0 (if s then 1 else 0) c1 st1 =
      Some (text_value base 0 a, (if s then 1 else 0) + of_nat (length a), c2, st2)" "(c2 = EOF) = e" "e \<or> src st2 (drop (length a) u)"
    using scan_digits_src[OF g(2) p1 p2 a_def e_def, of 0] by blast
  have l: "length a \<le> m" by (simp add: a_def)
  have "Suc (length a) < 2 ^ 32 \<or> \<not> s \<and> length a < 2 ^ 32"
    using l unsigned_less[of maxlen, where 'a = nat] by (auto simp: m_def max_def split: if_splits)
  then have nz: "(if s then 1 else 0) + of_nat (length a) \<noteq> (0 :: u32) \<and> \<not> (s \<and> (if s then 1 else 0) + of_nat (length a) = (1 :: u32)) \<longleftrightarrow> a \<noteq> []"
    using of_nat_0_cases[of "length a"] by auto
  have "scan_number getch ungetch ptr base maxlen sz c os st = (case ptr of
      Some p \<Rightarrow> if a \<noteq> [] then do { os \<leftarrow> store_number sz os p (if hd t = 45 then - text_value base 0 a else text_value base 0 a); Some (True, e, os, st2) }
        else Some (False, e, os, st2)
    | None \<Rightarrow> Some (False, e, os, st2))"
    unfolding scan_number_def Let_def cs(1)
    unfolding cs(2) g(1) bind.bind_lunit prod.case d(1)
    unfolding bind.bind_lunit prod.case d(2) nz by (rule refl)
  moreover have "text_number ptr base maxlen sz os t = (case ptr of
      Some p \<Rightarrow> if a \<noteq> [] then do { os \<leftarrow> store_number sz os p (if hd t = 45 then - text_value base 0 a else text_value base 0 a); Some (True, e, os, drop (length a) u) }
        else Some (False, e, os, drop (length a) u)
    | None \<Rightarrow> Some (False, e, os, drop (length a) u))"
    unfolding text_number_def Let_def s_def[symmetric] u_def[symmetric] m_def[symmetric] a_def[symmetric] e_def[symmetric]
    by (cases ptr) auto
  ultimately show ?thesis using d(3) by (auto simp: agrees_def split: option.split Option.bind_split)
qed

lemma scan_conv_src:
  assumes "src st t" and tab: "type = 91 \<longrightarrow> length tab = 256"
  shows "agrees src (scan_number_or_string getch ungetch ptr type maxlen sz tab os st) (text_conv ptr type maxlen sz tab os t)"
proof (cases "type = 91 \<or> type = 99")
  case True
  then show ?thesis using scan_string_src[OF assms]
    by (auto simp: scan_number_or_string_def text_conv_def EOF_def)
next
  case False
  obtain c st' where s: "skip_space getch st = Some (c, st')" "ahead src ungetch c st' (dropWhile isspace t)"
    using skip_space_src[OF assms(1)] by blast
  show ?thesis
  proof (cases "dropWhile isspace t")
    case Nil
    then have "c = EOF" using s(2) by (simp only: ahead_def list.case)
    then show ?thesis using False s(1) Nil by (simp add: scan_number_or_string_def text_conv_def agrees_def Let_def del: dropWhile_eq_Nil_conv)
  next
    case (Cons c0 r)
    then obtain x st'' where c: "c = uint c0" "ungetch st' = Some (x, st'')" "src st'' (dropWhile isspace t)"
      using s(2) by (auto simp: ahead_def)
    have n: "dropWhile isspace t \<noteq> []" using Cons by simp
    have "scan_number_or_string getch ungetch ptr type maxlen sz tab os st = (if type = 115 then scan_string getch ungetch ptr type maxlen tab os st''
        else scan_number getch ungetch ptr (if type = 111 then 8 else if type = 120 then 16 else 10) maxlen sz c os st')"
      using False s(1) c by (simp add: scan_number_or_string_def uint_not_EOF)
    then show ?thesis using False n scan_string_src[OF c(3) tab] scan_number_src[OF s(2) n]
      by (cases "type = 115") (simp_all add: text_conv_def Let_def del: dropWhile_eq_Nil_conv)
  qed
qed

end

section \<open>Formats\<close>

lemma stopchar_loop_rest: "stopchar_loop f first tab u = Some (tab', u') \<Longrightarrow> length u' \<le> length u \<and> length tab' = length tab"
  by (induction f first tab u rule: stopchar_loop.induct) (auto split: if_splits)

lemma build_stopchar_tab_rest: "build_stopchar_tab u tab = Some (tab', u') \<Longrightarrow> 256 \<le> length tab \<Longrightarrow> length u' \<le> length u \<and> length tab' = length tab"
  by (auto simp: build_stopchar_tab_def memset_take Let_def split: if_splits dest!: stopchar_loop_rest split: Option.bind_splits)

lemma sc_digits_rest: "sc_digits n u = Some (n', u') \<Longrightarrow> length u' \<le> length u"
  by (induction n u rule: sc_digits.induct) (auto split: if_splits)

lemma sc_conv_rest:
  "sc_conv sz u = Some (conv, u') \<Longrightarrow> length u' < length u \<and> (\<forall>sz tab. conv = Some (91, sz, tab) \<longrightarrow> length tab = 256)"
proof -
  assume a: "sc_conv sz u = Some (conv, u')"
  then obtain c r where u: "u = c # r" by (cases u) (auto simp: sc_conv_def nget_def)
  have "word_of_int (tolower c) \<noteq> (91 :: u8)" if "isupper c"
  proof
    assume "word_of_int (tolower c) = (91 :: u8)"
    with that have "c + 32 = 91" by (simp add: tolower_def)
    then have "c = 59" by (simp add: eq_diff_eq[symmetric])
    with that show False by (simp add: isupper_range)
  qed
  with a u show ?thesis
    by (auto simp: sc_conv_def nget_def split: if_splits Option.bind_splits dest!: build_stopchar_tab_rest)
qed

lemma sc_ptr_rest: "sc_ptr ap u = Some (ptr, ap', u') \<Longrightarrow> length u' \<le> length u"
  by (auto simp: sc_ptr_def split: if_splits Option.bind_splits list.splits)

lemma sc_maxlen_rest: "sc_maxlen u = Some (n, u') \<Longrightarrow> length u' \<le> length u"
  by (auto simp: sc_maxlen_def split: Option.bind_splits dest!: sc_digits_rest)

lemma sc_size_rest: "sc_size u = Some (sz, u') \<Longrightarrow> length u' \<le> length u"
  by (auto simp: sc_size_def split: Option.bind_splits if_splits)

lemma sc_spec_rest:
  assumes "sc_spec ap u = Some (ptr, maxlen, conv, ap', u')"
  shows "length u' < length u" "conv = Some (91, sz, tab) \<Longrightarrow> length tab = 256"
proof -
  obtain ap1 u1 u2 sz1 u3 where s: "sc_ptr ap u = Some (ptr, ap1, u1)" "sc_maxlen u1 = Some (maxlen, u2)" "sc_size u2 = Some (sz1, u3)" "sc_conv sz1 u3 = Some (conv, u')"
    using assms by (auto simp: sc_spec_def split: Option.bind_splits)
  then show "length u' < length u" "conv = Some (91, sz, tab) \<Longrightarrow> length tab = 256"
    using sc_ptr_rest[OF s(1)] sc_maxlen_rest[OF s(2)] sc_size_rest[OF s(3)] sc_conv_rest[OF s(4)] by auto
qed

lemma sc_space_rest: "sc_space u = Some u' \<Longrightarrow> length u' \<le> length u"
  by (induction u) (auto split: if_splits)

text \<open>What a format does with a text: the returned number and the objects.\<close>

function scan_text :: "buf \<Rightarrow> dptr option list \<Rightarrow> u32 \<Rightarrow> objs \<Rightarrow> buf \<Rightarrow> (u32 \<times> objs) option" where
  "scan_text ufmt ap nmatch os t =
     do {
       f \<leftarrow> nget ufmt 0;
       if f = 0 then Some (nmatch, os)
       else if f = 37 \<and> nget ufmt 1 \<noteq> Some 37
       then do {
         (ptr, maxlen, conv, ap, ufmt) \<leftarrow> sc_spec ap (drop 1 ufmt);
         case conv of
           None \<Rightarrow> Some (nmatch, os)
         | Some (type, sz, tab) \<Rightarrow>
             do {
               (ok, eof, os, t) \<leftarrow> text_conv ptr type maxlen sz tab os t;
               let nmatch = (if ok \<and> ptr \<noteq> None then nmatch + 1 else nmatch);
               if eof then Some (eof_or nmatch, os)
               else if ok \<or> ptr = None then scan_text ufmt ap nmatch os t
               else Some (nmatch, os)
             }
       }
       else if isspace f
       then if dropWhile isspace t = [] then Some (eof_or nmatch, os)
            else do { ufmt \<leftarrow> sc_space (drop 1 ufmt); scan_text ufmt ap nmatch os (dropWhile isspace t) }
       else case t of
              [] \<Rightarrow> Some (eof_or nmatch, os)
            | c # t \<Rightarrow> if c \<noteq> f then Some (nmatch, os) else scan_text (drop (if f = 37 then 2 else 1) ufmt) ap nmatch os t
     }"
  by pat_completeness auto
termination
  by (relation "measure (\<lambda>(ufmt, ap, nmatch, os, t). length ufmt)")
    (auto simp: nget_def split: if_splits dest!: sc_spec_rest(1) sc_space_rest)

declare scan_text.simps [simp del]

definition scan_result :: "(u32 \<times> objs \<times> 'st) option \<Rightarrow> (u32 \<times> objs) option" where
  "scan_result = map_option (\<lambda>(r, os, st). (r, os))"

lemma scan_result_simps [simp]:
  "scan_result None = None"
  "scan_result (Some (r, os, st)) = Some (r, os)"
  "scan_result (Option.bind x g) = Option.bind x (\<lambda>y. scan_result (g y))"
  by (simp_all add: scan_result_def map_option_bind comp_def)

lemma agrees_cases:
  assumes "agrees src x y"
  obtains "x = None" "y = None"
    | ok eof os st t where "x = Some (ok, eof, os, st)" "y = Some (ok, eof, os, t)" "eof \<or> src st t"
  using assms by (cases x; cases y) (auto simp: agrees_def)

context char_source
begin

lemma doscan_conv_src:
  assumes src: "src st t" and f: "f = 37" "nget ufmt 0 = Some f" "nget ufmt 1 \<noteq> Some 37"
    and IH: "\<And>ufmt' ap nmatch os st t. length ufmt' < length ufmt \<Longrightarrow> src st t \<Longrightarrow>
      scan_result (doscan_loop getch ungetch ufmt' ap nmatch os st) = scan_text ufmt' ap nmatch os t"
  shows "scan_result (doscan_loop getch ungetch ufmt ap nmatch os st) = scan_text ufmt ap nmatch os t"
proof (cases "nget ufmt 1")
  case None
  then have "sc_spec ap (drop 1 ufmt) = None" by (simp add: sc_spec_def sc_ptr_def nget_def split: if_splits)
  then show ?thesis using f None by (simp add: doscan_loop.simps[of _ _ ufmt] scan_text.simps[of ufmt])
next
  case (Some f1)
  show ?thesis
  proof (cases "sc_spec ap (drop 1 ufmt)")
    case None
    then show ?thesis using f Some by (simp add: doscan_loop.simps[of _ _ ufmt] scan_text.simps[of ufmt])
  next
    case sp: (Some r)
    obtain ptr maxlen conv ap' u' where r: "r = (ptr, maxlen, conv, ap', u')" by (cases r)
    have l: "length u' < length ufmt" using sc_spec_rest(1)[OF sp[unfolded r]] by simp
    show ?thesis
    proof (cases conv)
      case None
      then show ?thesis using f Some sp r by (simp add: doscan_loop.simps[of _ _ ufmt] scan_text.simps[of ufmt])
    next
      case c: (Some k)
      obtain type sz tab where k: "k = (type, sz, tab)" by (cases k)
      have tab: "type = 91 \<longrightarrow> length tab = 256" using sc_spec_rest(2)[OF sp[unfolded r]] c k by auto
      note fs = f Some sp r c k
      note u = doscan_loop.simps[of _ _ ufmt] scan_text.simps[of ufmt]
      show ?thesis
      proof (cases rule: agrees_cases[OF scan_conv_src[OF src tab, of ptr maxlen sz os]])
        case 1
        then show ?thesis using fs by (simp add: u)
      next
        case (2 ok eof os' st' t')
        show ?thesis
        proof (cases eof)
          case True
          then show ?thesis using 2 fs by (simp add: u)
        next
          case False
          then show ?thesis using 2 fs IH[OF l, of st' t'] by (simp add: u)
        qed
      qed
    qed
  qed
qed

lemma doscan_loop_src:
  "src st t \<Longrightarrow> scan_result (doscan_loop getch ungetch ufmt ap nmatch os st) = scan_text ufmt ap nmatch os t"
proof (induction "length ufmt" arbitrary: ufmt ap nmatch os st t rule: less_induct)
  case less
  show ?case
  proof (cases "nget ufmt 0")
    case None
    then show ?thesis by (simp add: doscan_loop.simps[of _ _ ufmt] scan_text.simps[of ufmt])
  next
    case f: (Some f)
    have l: "length (drop (if f = 37 then 2 else 1) ufmt) < length ufmt" using f by (auto simp: nget_def split: if_splits)
    note u = f doscan_loop.simps[of _ _ ufmt] scan_text.simps[of ufmt]
    consider "f = 0" | "f = 37" "nget ufmt 1 \<noteq> Some 37" | "isspace f" "f \<noteq> 0" "f \<noteq> 37" | "\<not> isspace f" "f \<noteq> 0" "f = 37 \<longrightarrow> nget ufmt 1 = Some 37"
      by (cases "f = 37") (auto simp: isspace_range)
    then show ?thesis
    proof cases
      case 1
      then show ?thesis by (simp add: u)
    next
      case 2
      then show ?thesis using doscan_conv_src[OF less.prems _ f] less.hyps by blast
    next
      case 3
      obtain c st' where s: "skip_space getch st = Some (c, st')" "ahead src ungetch c st' (dropWhile isspace t)"
        using skip_space_src[OF less.prems] by blast
      show ?thesis
      proof (cases "dropWhile isspace t")
        case Nil
        then have "c = EOF" using s(2) by (simp only: ahead_def list.case)
        then show ?thesis using 3 s(1) Nil by (simp add: u del: dropWhile_eq_Nil_conv)
      next
        case (Cons c0 r)
        then obtain x st'' where c: "c = uint c0" "ungetch st' = Some (x, st'')" "src st'' (dropWhile isspace t)"
          using s(2) by (auto simp: ahead_def)
        have "scan_result (doscan_loop getch ungetch u' ap nmatch os st'') = scan_text u' ap nmatch os (dropWhile isspace t)"
          if "sc_space (drop 1 ufmt) = Some u'" for u'
        proof -
          have "length u' < length ufmt" using sc_space_rest[OF that] l 3 by simp
          from less.hyps[OF this c(3)] show ?thesis .
        qed
        then have "Option.bind (sc_space (drop 1 ufmt)) (\<lambda>u'. scan_result (doscan_loop getch ungetch u' ap nmatch os st'')) =
          Option.bind (sc_space (drop 1 ufmt)) (\<lambda>u'. scan_text u' ap nmatch os (dropWhile isspace t))"
          by (intro Option.bind_cong) auto
        then show ?thesis using 3 s(1) c(1,2) Cons by (simp add: u uint_not_EOF del: dropWhile_eq_Nil_conv)
      qed
    next
      case 4
      have f1: "(if f = 37 then nget ufmt 1 else Some 37) = Some 37" using 4 by simp
      show ?thesis
      proof (cases t)
        case Nil
        then obtain st' where "getch st = Some (EOF, st')" using get_nil less.prems by blast
        then show ?thesis using 4 f1 Nil by (cases "f = 37") (simp_all add: u)
      next
        case (Cons c t')
        then obtain st' where g: "getch st = Some (uint c, st')" "src st' t'" using get_cons less.prems by blast
        have "(uint c = uint f) = (c = f)" "(uint c = 37) = (c = 37)" by (simp_all add: word_uint_eq_iff)
        then show ?thesis using 4 f1 g Cons less.hyps[OF l g(2)] by (cases "f = 37") (simp_all add: u uint_not_EOF)
      qed
    qed
  qed
qed

lemma doscan_src: "src st t \<Longrightarrow> scan_result (doscan getch ungetch fmt ap os st) = scan_text fmt ap 0 os t"
  unfolding doscan_def by (rule doscan_loop_src)

end

end
