(* ===== verification/Stdio.thy ===== *)
theory Stdio
  imports Doprnt Doscan
begin

text \<open>
  The standard input and output routines of \<^verbatim>\<open>lib/libxc\<close> on top of \<^verbatim>\<open>_doprnt\<close> and \<^verbatim>\<open>_doscan\<close>:
  \<^verbatim>\<open>fputc\<close>, \<^verbatim>\<open>fgetc\<close>, \<^verbatim>\<open>fputs\<close>, \<^verbatim>\<open>fgets\<close>, \<^verbatim>\<open>printf\<close>, \<^verbatim>\<open>fprintf\<close>, \<^verbatim>\<open>sprintf\<close>, \<^verbatim>\<open>sscanf\<close>,
  \<^verbatim>\<open>fscanf\<close>, \<^verbatim>\<open>atol\<close> and \<^verbatim>\<open>atoi\<close>.

  A device is an argument: the driver's \<^verbatim>\<open>getc\<close> or \<^verbatim>\<open>putc\<close> on a state of its own, returning a C
  \<^verbatim>\<open>int\<close>. Objects that a call gets pointers to are different objects.
\<close>

unbundle bit_operations_syntax

section \<open>Characters and lines\<close>

type_synonym 'd getc = "'d \<Rightarrow> int \<times> 'd"

definition fputc :: "'d putc \<Rightarrow> u8 \<Rightarrow> 'd \<Rightarrow> int \<times> 'd" where
  "fputc putc c d =
     (let (ret, d) = putc c d in (if ret = SYSERR \<or> ret = EOF then EOF else uint (word_of_int ret :: u8), d))"

definition fgetc :: "'d getc \<Rightarrow> 'd \<Rightarrow> int \<times> 'd" where
  "fgetc getc d =
     (let (c, d) = getc d in (if c = SYSERR \<or> c = EOF then EOF else uint (word_of_int c :: u8), d))"

fun fputs :: "'d putc \<Rightarrow> buf \<Rightarrow> 'd \<Rightarrow> (int \<times> 'd) option" where
  "fputs putc [] d = None"
| "fputs putc (c # s) d =
     (if c \<noteq> 0
      then let (r, d) = fputc putc c d in if r = EOF then Some (EOF, d) else fputs putc s d
      else Some (0, d))"

function fgets_loop :: "'d getc \<Rightarrow> buf \<Rightarrow> u32 \<Rightarrow> nat \<Rightarrow> int \<Rightarrow> 'd \<Rightarrow> (int \<times> nat \<times> buf \<times> 'd) option" where
  "fgets_loop getc s n cs c d =
     (if sint (n - 1) > 0
      then let (c, d) = fgetc getc d in
        if c \<noteq> EOF
        then do {
          s \<leftarrow> nset s cs (word_of_int c);
          if c = 10 then Some (c, cs + 1, s, d) else fgets_loop getc s (n - 1) (cs + 1) c d
        }
        else Some (c, cs, s, d)
      else Some (c, cs, s, d))"
  by pat_completeness auto
termination
proof (relation "measure (\<lambda>(getc, s, n, cs, c, d). unat n)")
  fix n :: u32
  assume "0 < sint (n - 1)"
  then have "n \<noteq> 0" by auto
  then show "((getc, s', n - 1, cs', c', d'), getc, s, n, cs, c, d) \<in> measure (\<lambda>(getc, s, n, cs, c, d). unat n)" for getc s' cs' c' d' s cs c d
    by (simp add: unat_minus_one unat_gt_0)
qed simp

declare fgets_loop.simps [simp del]

text \<open>The result is whether \<^verbatim>\<open>s\<close> is returned and not a null pointer.\<close>

definition fgets :: "'d getc \<Rightarrow> buf \<Rightarrow> u32 \<Rightarrow> 'd \<Rightarrow> (bool \<times> buf \<times> 'd) option" where
  "fgets getc s n d =
     do {
       (c, cs, s, d) \<leftarrow> fgets_loop getc s n 0 EOF d;
       if c = EOF \<and> cs = 0 then Some (False, s, d)
       else do { s \<leftarrow> nset s cs 0; Some (True, s, d) }
     }"

section \<open>Formatted output\<close>

definition fprintf :: "'d putc \<Rightarrow> buf \<Rightarrow> va list \<Rightarrow> 'd \<Rightarrow> (u32 \<times> 'd) option" where
  "fprintf putc fmt ap d = doprnt (fputc putc) fmt ap 0 d"

definition printf :: "'d putc \<Rightarrow> buf \<Rightarrow> va list \<Rightarrow> 'd \<Rightarrow> (u32 \<times> 'd) option" where
  "printf putc_stdout fmt ap d = doprnt (fputc putc_stdout) fmt ap 0 d"

text \<open>The state of \<^verbatim>\<open>sprntf\<close>: the string and the place of the pointer in it, \<open>None\<close> after a store past its end.\<close>

definition sprntf :: "u8 \<Rightarrow> (buf \<times> nat) option \<Rightarrow> int \<times> (buf \<times> nat) option" where
  "sprntf c st = (uint c, do { (str, s) \<leftarrow> st; str \<leftarrow> nset str s c; Some (str, s + 1) })"

definition sprintf :: "buf \<Rightarrow> buf \<Rightarrow> va list \<Rightarrow> (u32 \<times> buf) option" where
  "sprintf str fmt ap =
     do {
       (_, st) \<leftarrow> doprnt sprntf fmt ap 0 (Some (str, 0));
       (str, s) \<leftarrow> st;
       str \<leftarrow> nset str s 0;
       Some (of_nat s, str)
     }"

section \<open>Formatted input\<close>

type_synonym strsrc = "buf \<times> nat"

definition sgetch :: "strsrc getch" where
  "sgetch st =
     (case st of (str, s) \<Rightarrow> do {
        c \<leftarrow> nget str s;
        if c = 0 then Some (EOF, str, s) else Some (uint c, str, s + 1)
      })"

definition sungetch :: "strsrc getch" where
  "sungetch st =
     (case st of (str, s) \<Rightarrow>
        if s = 0 then None
        else do { c \<leftarrow> nget str (s - 1); Some (uint c, str, s - 1) })"

definition sscanf :: "buf \<Rightarrow> buf \<Rightarrow> dptr option list \<Rightarrow> objs \<Rightarrow> (u32 \<times> objs) option" where
  "sscanf str fmt ap os = do { (ret, os, _) \<leftarrow> doscan sgetch sungetch fmt ap os (str, 0); Some (ret, os) }"

record ch_buf =
  ch_avail :: bool
  ch_c :: u8

definition dev_getch :: "'d getc \<Rightarrow> (ch_buf \<times> 'd) getch" where
  "dev_getch getc st =
     (case st of (b, d) \<Rightarrow>
        if ch_avail b then Some (uint (ch_c b), b\<lparr>ch_avail := False\<rparr>, d)
        else let (c, d) = fgetc getc d in
          if c \<noteq> EOF then Some (c, b\<lparr>ch_c := word_of_int c\<rparr>, d) else Some (c, b, d))"

definition dev_ungetch :: "(ch_buf \<times> 'd) getch" where
  "dev_ungetch st = (case st of (b, d) \<Rightarrow> Some (uint (ch_c b), b\<lparr>ch_avail := True\<rparr>, d))"

text \<open>The character of a fresh \<^verbatim>\<open>ch_buf\<close> is not initialised: it is an argument.\<close>

definition fscanf :: "u8 \<Rightarrow> 'd getc \<Rightarrow> buf \<Rightarrow> dptr option list \<Rightarrow> objs \<Rightarrow> 'd \<Rightarrow> (u32 \<times> objs \<times> 'd) option" where
  "fscanf junk getc fmt ap os d =
     do {
       (ret, os, _, d) \<leftarrow> doscan (dev_getch getc) dev_ungetch fmt ap os (\<lparr>ch_avail = False, ch_c = junk\<rparr>, d);
       Some (ret, os, d)
     }"

primrec le_word :: "buf \<Rightarrow> u32" where
  "le_word [] = 0"
| "le_word (b # bs) = ucast b OR push_bit 8 (le_word bs)"

definition atol :: "buf \<Rightarrow> u32 option" where
  "atol nptr =
     do {
       (_, os) \<leftarrow> sscanf nptr [37, 108, 100, 0] [Some (0, 0)] [[0, 0, 0, 0]];
       n \<leftarrow> nget os 0;
       Some (le_word n)
     }"

definition atoi :: "buf \<Rightarrow> u32 option" where
  "atoi nptr = atol nptr"

section \<open>Strings and devices as sources\<close>

definition str_src :: "strsrc \<Rightarrow> buf \<Rightarrow> bool" where
  "str_src st t \<longleftrightarrow> is_cstr (drop (snd st) (fst st)) \<and> cstr (drop (snd st) (fst st)) = t"

lemma str_src_Cons: "str_src (str, s) (c # t) \<longleftrightarrow> s < length str \<and> str ! s = c \<and> c \<noteq> 0 \<and> str_src (str, Suc s) t"
  by (cases "s < length str") (auto simp: str_src_def drop_Cons)

interpretation string_source: char_source sgetch sungetch str_src
proof
  fix st assume "str_src st []"
  then show "\<exists>st'. sgetch st = Some (EOF, st')"
    by (cases st, cases "snd st < length (fst st)") (auto simp: str_src_def sgetch_def nget_def drop_Cons split: if_splits)
next
  fix st c t assume "str_src st (c # t)"
  then show "\<exists>st' st'' x. sgetch st = Some (uint c, st') \<and> str_src st' t \<and> sungetch st' = Some (x, st'') \<and> str_src st'' (c # t)"
    by (cases st) (auto simp: str_src_Cons sgetch_def sungetch_def nget_def)
qed

text \<open>A device delivers the characters of a text and then reports the end or an error.\<close>

fun dev_text :: "'d getc \<Rightarrow> 'd \<Rightarrow> buf \<Rightarrow> bool" where
  "dev_text getc d [] \<longleftrightarrow> fst (fgetc getc d) = EOF"
| "dev_text getc d (c # t) \<longleftrightarrow> fst (fgetc getc d) = uint c \<and> dev_text getc (snd (fgetc getc d)) t"

fun dev_src :: "'d getc \<Rightarrow> ch_buf \<times> 'd \<Rightarrow> buf \<Rightarrow> bool" where
  "dev_src getc (b, d) t \<longleftrightarrow> (if ch_avail b then t \<noteq> [] \<and> hd t = ch_c b \<and> dev_text getc d (tl t) else dev_text getc d t)"

interpretation device_source: char_source "dev_getch getc" dev_ungetch "dev_src getc" for getc :: "'d getc"
proof
  fix st assume "dev_src getc st []"
  then show "\<exists>st'. dev_getch getc st = Some (EOF, st')"
    by (cases st) (auto simp: dev_getch_def split: prod.split if_splits)
next
  fix st c t assume "dev_src getc st (c # t)"
  then show "\<exists>st' st'' x. dev_getch getc st = Some (uint c, st') \<and> dev_src getc st' t \<and> dev_ungetch st' = Some (x, st'') \<and> dev_src getc st'' (c # t)"
  proof (cases st)
    case (Pair b d)
    define st' where "st' = (if ch_avail b then (b\<lparr>ch_avail := False\<rparr>, d) else (b\<lparr>ch_c := c\<rparr>, snd (fgetc getc d)))"
    have g: "dev_getch getc st = Some (uint c, st') \<and> dev_src getc st' t"
      using \<open>dev_src getc st (c # t)\<close> unfolding Pair
      by (cases "ch_avail b") (auto simp: st'_def dev_getch_def case_prod_beta uint_not_EOF)
    have "dev_ungetch st' = Some (uint c, (fst st')\<lparr>ch_avail := True\<rparr>, snd st') \<and> dev_src getc ((fst st')\<lparr>ch_avail := True\<rparr>, snd st') (c # t)"
      using \<open>dev_src getc st (c # t)\<close> unfolding Pair
      by (cases "ch_avail b") (auto simp: st'_def dev_ungetch_def)
    with g show ?thesis by blast
  qed
qed

lemma scan_result_bind: "Option.bind x (\<lambda>(r, os, st). Some (r, os)) = scan_result x"
  by (cases x) (auto simp: scan_result_def)

lemma sscanf_text: "is_cstr str \<Longrightarrow> sscanf str fmt ap os = scan_text fmt ap 0 os (cstr str)"
  using string_source.doscan_src[of "(str, 0)" "cstr str" fmt ap os]
  by (simp add: sscanf_def str_src_def scan_result_bind)

lemma fscanf_text: "dev_text getc d t \<Longrightarrow> map_option (\<lambda>(r, os, d). (r, os)) (fscanf junk getc fmt ap os d) = scan_text fmt ap 0 os t"
  using device_source.doscan_src[of getc "(\<lparr>ch_avail = False, ch_c = junk\<rparr>, d)" t fmt ap os]
  by (auto simp: fscanf_def scan_result_def map_option_case split: Option.bind_split option.splits)

section \<open>Output into a string\<close>

lemma emit_sprntf:
  "s + length t \<le> length str \<Longrightarrow> emit sprntf t w (Some (str, s)) = (Some (w + of_nat (length t)), Some (take s str @ t @ drop (s + length t) str, s + length t))"
proof (induction t arbitrary: w str s)
  case Nil
  then show ?case by simp
next
  case (Cons c t)
  have "put1 sprntf c w (Some (str, s)) = (Some (w + 1), Some (str[s := c], s + 1))"
    using Cons.prems by (simp add: put1_def sprntf_def nset_def uint_not_EOF)
  then show ?case using Cons.prems Cons.IH[of "s + 1" "str[s := c]" "w + 1"]
    by (simp add: take_Suc_conv_app_nth drop_update_cancel)
qed

lemma emit_sprntf_None: "\<exists>w'. emit sprntf t w None = (Some w', None)"
  by (induction t arbitrary: w) (auto simp: put1_def sprntf_def uint_not_EOF)

lemma emit_sprntf_overflow:
  "length str < s + length t \<Longrightarrow> s \<le> length str \<Longrightarrow> \<exists>w'. emit sprntf t w (Some (str, s)) = (Some w', None)"
proof (induction t arbitrary: w str s)
  case (Cons c t)
  show ?case
  proof (cases "s < length str")
    case True
    then have "put1 sprntf c w (Some (str, s)) = (Some (w + 1), Some (str[s := c], s + 1))"
      by (simp add: put1_def sprntf_def nset_def uint_not_EOF)
    then show ?thesis using Cons.prems Cons.IH[of "str[s := c]" "s + 1" "w + 1"] True by simp
  next
    case False
    then have "put1 sprntf c w (Some (str, s)) = (Some (w + 1), None)"
      by (simp add: put1_def sprntf_def nset_def uint_not_EOF)
    then show ?thesis using emit_sprntf_None[of t "w + 1"] by simp
  qed
qed simp

lemma sprintf_fmt:
  assumes "fmt_text fmt ap = Some t"
  shows "sprintf str fmt ap = (if length t < length str then Some (of_nat (length t), t @ 0 # drop (length t + 1) str) else None)"
proof (cases "length t \<le> length str")
  case True
  have "doprnt sprntf fmt ap 0 (Some (str, 0)) = Some (of_nat (length t), Some (t @ drop (length t) str, length t))"
    using doprnt_text[OF assms, of sprntf 0 "Some (str, 0)"] emit_sprntf[of 0 t str 0] True by (simp add: finish_def)
  then show ?thesis using True by (simp add: sprintf_def nset_def list_update_append C_Strings.drop_Cons)
next
  case False
  then obtain w where "emit sprntf t 0 (Some (str, 0)) = (Some w, None)" using emit_sprntf_overflow[of str 0 t 0] by auto
  then have "doprnt sprntf fmt ap 0 (Some (str, 0)) = Some (w, None)"
    using doprnt_text[OF assms, of sprntf 0 "Some (str, 0)"] by (simp add: finish_def)
  then show ?thesis using False by (simp add: sprintf_def)
qed

section \<open>Numbers\<close>

text \<open>The digits that are printed are read back.\<close>

lemma text_digit_char:
  assumes "base \<in> {8, 10, 16}" and "d < unat base"
  shows "text_digit base (digit_chars False ! d) = Some (int d)"
proof -
  have "d < 16" using assms by auto
  then have "d \<in> {0, 1, 2, 3, 4, 5, 6, 7, 8, 9, 10, 11, 12, 13, 14, 15}" by (simp only: insert_iff empty_iff) presburger
  with assms show ?thesis
    by (elim insertE emptyE)
      (simp_all add: text_digit_def digit_chars_def digits_lc_def scan_digit_def tolower_def isupper_range)
qed

lemma num_text_digits:
  assumes "base \<in> {8, 10, 16}"
  shows "\<forall>c \<in> set (num_text False (unat base) k). text_digit base c \<noteq> None"
  using to_base_digits[of "unat base" _ k] assms text_digit_char[OF assms]
  by (fastforce simp: num_text_def)

lemma text_value_map:
  assumes "base \<in> {8, 10, 16}" and "\<forall>d \<in> set ds. d < unat base"
  shows "text_value base 0 (map (\<lambda>d. digit_chars False ! d) ds) = of_nat (of_base (unat base) ds)"
  using assms(2)
proof (induction ds rule: rev_induct)
  case (snoc d ds)
  then show ?case using text_digit_char[OF assms(1), of d] by (simp add: text_value_def)
qed (simp add: text_value_def)

lemma text_value_num:
  assumes "base \<in> {8, 10, 16}"
  shows "text_value base 0 (num_text False (unat base) k) = of_nat k"
proof -
  have "\<forall>d \<in> set (to_base (unat base) k). d < unat base" using to_base_digits[of "unat base" _ k] assms by auto
  then show ?thesis using text_value_map[OF assms] by (simp add: num_text_def of_to_base)
qed

lemma isspace_uint: "isspace c \<longleftrightarrow> uint c = 32 \<or> 9 \<le> uint c \<and> uint c \<le> 13"
  unfolding isspace_range unat_eq_nat_uint by (safe; linarith)

lemma text_digit_not_special: "text_digit base c \<noteq> None \<Longrightarrow> base \<in> {8, 10, 16} \<Longrightarrow> c \<noteq> 0 \<and> c \<noteq> 45 \<and> c \<noteq> 43 \<and> \<not> isspace c"
  by (auto simp: text_digit_def scan_digit_def tolower_def isspace_uint isupper_range split: if_splits)

lemma le_bytes_4: "le_bytes 4 n = [ucast n, ucast (drop_bit 8 n), ucast (drop_bit 16 n), ucast (drop_bit 24 n)]"
  by (simp add: le_bytes_def upt_rec)

lemma le_word_bytes: "le_word (le_bytes 4 n) = n"
proof -
  have "bit (le_word (le_bytes 4 n)) i = bit n i" if "i < 32" for i
  proof -
    have "i < 8 \<or> 8 \<le> i \<and> i < 16 \<or> 16 \<le> i \<and> i < 24 \<or> 24 \<le> i \<and> i < 32" using that by linarith
    then show ?thesis
      by (auto simp: le_bytes_4 bit_or_iff bit_push_bit_iff bit_ucast_iff bit_drop_bit_eq possible_bit_def)
  qed
  then show ?thesis by (intro bit_word_eqI) simp
qed

lemma store_number_word: "sz \<noteq> SCAN_SHORT_SIZE \<Longrightarrow> store_number sz [[0, 0, 0, 0]] (0, 0) n = Some [le_bytes 4 n]"
  by (cases sz) (simp_all add: le_bytes_4 poke_def nget_def nset_def)

text \<open>A sign, as it is printed, and the digits of a number.\<close>

lemma text_number_digits:
  assumes base: "base \<in> {8, 10, 16}" and ds: "ds \<noteq> []" "\<forall>c \<in> set ds. text_digit base c \<noteq> None" "length ds < 2 ^ 31"
    and sz: "sz \<noteq> SCAN_SHORT_SIZE"
  shows "text_number (Some (0, 0)) base UNLIMITED_LENGTH sz [[0, 0, 0, 0]] ((if neg then [45] else []) @ ds) =
    Some (True, True, [le_bytes 4 (if neg then - text_value base 0 ds else text_value base 0 ds)], [])"
proof -
  have h: "hd ds \<noteq> 45" "\<not> is_sign ds" using text_digit_not_special[OF _ base, of "hd ds"] ds by (auto simp: is_sign_def)
  have m: "unat UNLIMITED_LENGTH = 2 ^ 32 - 1" by (simp add: UNLIMITED_LENGTH_def unsigned_minus_1_eq_mask mask_eq_exp_minus_1)
  have t: "takeWhile (\<lambda>c. \<exists>y. text_digit base c = Some y) ds = ds" using ds(2) by (auto simp: takeWhile_eq_all_conv)
  have n: "is_sign (45 # ds)" by (simp add: is_sign_def)
  show ?thesis
    using ds(1,3) h n store_number_word[OF sz] by (cases neg) (simp_all add: text_number_def m t Let_def)
qed

lemma text_conv_digits:
  assumes base: "base \<in> {8, 10, 16}" "type \<in> {100, 111, 120}" "base = (if type = 111 then 8 else if type = 120 then 16 else 10)"
    and ds: "ds \<noteq> []" "\<forall>c \<in> set ds. text_digit base c \<noteq> None" "length ds < 2 ^ 31"
    and sz: "sz \<noteq> SCAN_SHORT_SIZE"
  shows "text_conv (Some (0, 0)) type UNLIMITED_LENGTH sz tab [[0, 0, 0, 0]] ((if neg then [45] else []) @ ds) =
    Some (True, True, [le_bytes 4 (if neg then - text_value base 0 ds else text_value base 0 ds)], [])"
proof -
  let ?t = "(if neg then [45] else []) @ ds"
  have "\<not> isspace (hd ?t)" using text_digit_not_special[OF _ base(1), of "hd ds"] ds by (auto simp: isspace_range)
  then have "dropWhile isspace ?t = ?t" using ds(1) by (cases ?t) auto
  then show ?thesis using text_number_digits[OF base(1) ds sz, of neg] ds(1) base(2,3)
    by (auto simp: text_conv_def Let_def)
qed

lemma sc_spec_number: "sc_spec [p] [108, 100, 0] = Some (p, UNLIMITED_LENGTH, Some (100, SCAN_LONG_SIZE, []), [], [0])"
  "sc_spec [p] [120, 0] = Some (p, UNLIMITED_LENGTH, Some (120, SCAN_REGULAR_SIZE, []), [], [0])"
  by (simp_all add: sc_spec_def sc_ptr_def sc_maxlen_def sc_size_def sc_conv_def nget_def isdigit_range isupper_range)

lemma num_text_len: "length (num_text False 10 (unat (n :: u32))) \<le> 10" "length (num_text False 16 (unat n)) \<le> 8"
  using to_base_length[of 10 "unat n" 10] to_base_length[of 16 "unat n" 8] unsigned_less[of n, where 'a = nat]
  by (simp_all add: num_text_def)

lemma fmt_text_number:
  "fmt_text [37, 100, 0] [Va_word n] = Some ((if sint n < 0 then [45] else []) @ num_text False 10 (unat (if sint n < 0 then - n else n)))"
  "fmt_text [37, 120, 0] [Va_word n] = Some (num_text False 16 (unat n))"
  using num_text_len[of n] num_text_len[of "- n"]
  by (simp_all add: fmt_text.simps pf_evals pf_flags.simps pf_digits.simps arg_text_def sign_text_def field_def prec_of_def Let_def)

section \<open>Lines\<close>

text \<open>The characters of the next line of a device, at most \<open>k\<close>, with its newline.\<close>

fun dev_line :: "'d getc \<Rightarrow> nat \<Rightarrow> 'd \<Rightarrow> buf \<times> 'd" where
  "dev_line getc 0 d = ([], d)"
| "dev_line getc (Suc k) d =
     (let (c, d) = fgetc getc d in
      if c = EOF then ([], d)
      else if c = 10 then ([10], d)
      else let (l, d) = dev_line getc k d in (word_of_int c # l, d))"

fun first_line :: "nat \<Rightarrow> buf \<Rightarrow> buf" where
  "first_line 0 t = []"
| "first_line (Suc k) [] = []"
| "first_line (Suc k) (c # t) = (if c = 10 then [c] else c # first_line k t)"

lemma dev_line_length: "length (fst (dev_line getc k d)) \<le> k"
  by (induction k arbitrary: d) (auto simp: case_prod_beta)

lemma dev_line_text: "dev_text getc d t \<Longrightarrow> fst (dev_line getc k d) = first_line k t"
proof (induction k t arbitrary: d rule: first_line.induct)
  case (3 k c t)
  have "(uint c = 10) = (c = 10)" by (simp add: word_uint_eq_iff)
  then show ?case using 3 by (auto simp: case_prod_beta Let_def uint_not_EOF)
qed (auto simp: case_prod_beta Let_def)

lemma sint_dec: "sint (n :: u32) = int k + 1 \<Longrightarrow> sint (n - 1) = int k"
proof -
  assume n: "sint n = int k + 1"
  have "int k + 1 < 2 ^ 31" using sint_lt[of n] n by simp
  moreover have "n = of_nat (k + 1)" using word_as_nat[of n] n by (auto simp: nat_add_distrib)
  ultimately show ?thesis using sint_of_nat_small[of k] by simp
qed

lemma fgets_loop_line:
  "sint n = int k + 1 \<Longrightarrow> cs + k \<le> length s \<Longrightarrow> dev_line getc k d = (l, d') \<Longrightarrow>
   \<exists>c'. fgets_loop getc s n cs c d = Some (c', cs + length l, take cs s @ l @ drop (cs + length l) s, d') \<and> (l = [] \<longrightarrow> c' = c \<or> c' = EOF)"
proof (induction k arbitrary: n cs s c d l)
  case 0
  then show ?case using sint_dec[OF 0(1)] by (auto simp: fgets_loop.simps[of _ _ n])
next
  case (Suc k)
  obtain c1 d1 where g: "fgetc getc d = (c1, d1)" by (cases "fgetc getc d")
  have n: "sint (n - 1) = int k + 1" using sint_dec[OF Suc.prems(1)] by simp
  have cs: "cs < length s" using Suc.prems(2) by simp
  then have upd: "take cs s @ v # drop (Suc cs) s = s[cs := v]" for v by (simp add: upd_conv_take_nth_drop)
  consider "c1 = EOF" | "c1 = 10" | "c1 \<noteq> EOF" "c1 \<noteq> 10" by blast
  then show ?case
  proof cases
    case 1
    then show ?thesis using Suc.prems(3) g n by (auto simp: fgets_loop.simps[of _ _ n])
  next
    case 2
    then show ?thesis using Suc.prems(3) g n cs upd by (auto simp: fgets_loop.simps[of _ _ n] EOF_def nset_def)
  next
    case 3
    obtain l1 where l: "dev_line getc k d1 = (l1, d')" "l = word_of_int c1 # l1"
      using Suc.prems(3) 3 g by (cases "dev_line getc k d1") auto
    have "fgets_loop getc s n cs c d = fgets_loop getc (s[cs := word_of_int c1]) (n - 1) (cs + 1) c1 d1"
      using 3 g n cs by (simp add: fgets_loop.simps[of _ _ n] nset_def)
    moreover have "cs + 1 + k \<le> length (s[cs := word_of_int c1])" using Suc.prems(2) by simp
    ultimately show ?thesis using Suc.IH[OF n _ l(1), of "cs + 1" "s[cs := word_of_int c1]" c1] l(2) cs
      by (auto simp: take_Suc_conv_app_nth)
  qed
qed

lemma fgets_dev_line:
  assumes "0 < sint n" and "nat (sint n) \<le> length s" and l: "dev_line getc (nat (sint n) - 1) d = (l, d')"
  shows "fgets getc s n d = Some (if l = [] then (False, s, d') else (True, l @ 0 # drop (length l + 1) s, d'))"
proof -
  define k where "k = nat (sint n) - 1"
  have n: "sint n = int k + 1" "k < length s" using assms(1,2) by (auto simp: k_def)
  have "length l \<le> k" using dev_line_length[of getc k d] l by (simp add: k_def)
  moreover obtain c' where "fgets_loop getc s n 0 EOF d = Some (c', length l, l @ drop (length l) s, d')" "l = [] \<longrightarrow> c' = EOF"
    using fgets_loop_line[OF n(1), of 0 s getc d l d' EOF] n(2) l by (auto simp: k_def)
  ultimately show ?thesis using n(2)
    by (cases "l = []") (auto simp: fgets_def nset_def list_update_append C_Strings.drop_Cons[of "length l" s] EOF_def)
qed

lemma fputs_emit:
  "is_cstr s \<Longrightarrow> fputs putc s d = Some (case emit (fputc putc) (cstr s) 0 d of (None, d) \<Rightarrow> (EOF, d) | (Some _, d) \<Rightarrow> (0, d))"
proof -
  have "is_cstr s \<Longrightarrow> fputs putc s d = Some (case emit (fputc putc) (cstr s) w d of (None, d) \<Rightarrow> (EOF, d) | (Some _, d) \<Rightarrow> (0, d))" for w
  proof (induction s arbitrary: w d)
    case (Cons c s)
    then show ?case by (cases "fputc putc c d") (auto simp: put1_def)
  qed simp
  then show "is_cstr s \<Longrightarrow> ?thesis" .
qed

section \<open>Character sets of a format\<close>

lemma stopchar_loop_set:
  assumes "0 \<notin> set S" and "93 \<notin> set (if first then tl S else S)" and "first \<longrightarrow> S \<noteq> []"
  shows "stopchar_loop fill first tab (S @ 93 # r) = Some (foldl (\<lambda>tab c. tab[unat c := fill]) tab S, r)"
  using assms
proof (induction S arbitrary: first tab)
  case Nil
  then show ?case by simp
next
  case (Cons c S)
  have "\<not> (c = 93 \<and> \<not> first)" using Cons.prems(2) by (cases first) auto
  moreover have "93 \<notin> set S" using Cons.prems(2) by (cases first) auto
  ultimately show ?case using Cons.IH[of False "tab[unat c := fill]"] Cons.prems(1) by simp
qed

lemma fold_fill: "length tab = 256 \<Longrightarrow> foldl (\<lambda>tab c. tab[unat c := v]) tab S ! unat (x :: u8) = (if x \<in> set S then v else tab ! unat x)"
proof (induction S arbitrary: tab)
  case (Cons c S)
  have "unat x < length tab" using Cons.prems unsigned_less[of x, where 'a = nat] by simp
  then have "tab[unat c := v] ! unat x = (if x = c then v else tab ! unat x)" by (simp add: nth_list_update word_unat_eq_iff)
  then show ?case using Cons.IH[of "tab[unat c := v]"] Cons.prems by (cases "x = c") simp_all
qed simp

lemma fold_fill_length [simp]: "length (foldl (\<lambda>tab c. tab[unat (c :: u8) := v]) tab S) = length tab"
  by (induction S arbitrary: tab) simp_all

definition scanset :: "bool \<Rightarrow> buf \<Rightarrow> buf" where
  "scanset caret S = (if caret then [94] else []) @ S @ [93]"

definition is_scanset :: "bool \<Rightarrow> buf \<Rightarrow> bool" where
  "is_scanset caret S \<longleftrightarrow> S \<noteq> [] \<and> 0 \<notin> set S \<and> 93 \<notin> set (tl S) \<and> (caret \<or> hd S \<noteq> 94)"

lemma build_stopchar_tab_set:
  assumes "is_scanset caret S"
  shows "\<exists>tab. build_stopchar_tab (scanset caret S @ r) (replicate 256 0) = Some (tab, r) \<and> length tab = 256 \<and>
    (\<forall>c. tab ! unat c = (if (c \<in> set S) = caret then 1 else 0))"
proof -
  obtain c S' where S: "S = c # S'" using assms by (cases S) (auto simp: is_scanset_def)
  let ?f = "if caret then 0 else 1 :: u8"
  have "build_stopchar_tab (scanset caret S @ r) (replicate 256 0) = stopchar_loop (?f XOR 1) True (replicate 256 ?f) (S @ 93 # r)"
    using assms by (cases caret) (simp_all add: build_stopchar_tab_def scanset_def is_scanset_def S nget_def memset_take)
  also have "\<dots> = Some (foldl (\<lambda>tab c. tab[unat c := ?f XOR 1]) (replicate 256 ?f) S, r)"
    using assms by (intro stopchar_loop_set) (auto simp: is_scanset_def)
  finally have b: "build_stopchar_tab (scanset caret S @ r) (replicate 256 0) = Some (foldl (\<lambda>tab c. tab[unat c := ?f XOR 1]) (replicate 256 ?f) S, r)" .
  have "foldl (\<lambda>tab c. tab[unat c := ?f XOR 1]) (replicate 256 ?f) S ! unat x = (if (x \<in> set S) = caret then 1 else 0)" for x :: u8
    using unsigned_less[of x, where 'a = nat] by (subst fold_fill) auto
  with b show ?thesis by simp
qed

lemma scan_stops_set:
  "length tab = 256 \<Longrightarrow> \<forall>c. tab ! unat c = (if (c \<in> set S) = caret then 1 else 0) \<Longrightarrow> scan_stops 91 tab (uint (c :: u8)) = Some ((c \<in> set S) = caret)"
  using unsigned_less[of c, where 'a = nat] by (auto simp: scan_stops_def nget_def)

lemma pokes_0: "length a \<le> length b \<Longrightarrow> pokes [take i c @ b] (0, i) a = Some [take i c @ a @ drop (length a) b]" if "i \<le> length c"
  using that
proof (induction a arbitrary: i c b)
  case (Cons x a)
  then obtain y b' where b: "b = y # b'" by (cases b) auto
  have "poke [take i c @ b] (0, i) x = Some [take (i + 1) (take i c @ [x]) @ b']"
    using Cons.prems by (simp add: b poke_def nget_def nset_def list_update_append min_def)
  then show ?case using Cons.IH[of b' "i + 1" "take i c @ [x]"] Cons.prems b by simp
qed simp

lemma pokes_start: "length a \<le> length b \<Longrightarrow> pokes [b] (0, 0) a = Some [a @ drop (length a) b]"
  using pokes_0[of 0 "[]" a b] by simp

lemma sscanf_scanset:
  assumes S: "is_scanset caret S" and str: "is_cstr str" and a: "a = takeWhile (\<lambda>c. (c \<in> set S) \<noteq> caret) (cstr str)"
    and room: "length a < length b" "length b < 2 ^ 32"
  shows "sscanf str (37 # 91 # scanset caret S @ [0]) [Some (0, 0)] [b] =
    Some (if a \<noteq> [] then 1 else if cstr str = [] then u32_of EOF else 0, [a @ 0 # drop (length a + 1) b])"
proof -
  obtain tab where tab: "build_stopchar_tab (scanset caret S @ [0]) (replicate 256 0) = Some (tab, [0])" "length tab = 256"
    "\<forall>c. tab ! unat c = (if (c \<in> set S) = caret then 1 else 0)"
    using build_stopchar_tab_set[OF S, of "[0]"] by blast
  have m: "unat UNLIMITED_LENGTH = 2 ^ 32 - 1" by (simp add: UNLIMITED_LENGTH_def unsigned_minus_1_eq_mask mask_eq_exp_minus_1)
  have sp: "sc_spec [Some (0, 0)] (91 # scanset caret S @ [0]) = Some (Some (0, 0), UNLIMITED_LENGTH, Some (91, SCAN_REGULAR_SIZE, tab), [], [0])"
    by (simp add: sc_spec_def sc_ptr_def sc_maxlen_def sc_size_def sc_conv_def nget_def isdigit_range tab(1))
  have tw: "takeWhile (\<lambda>c. scan_stops 91 tab (uint c) = Some False) (cstr str) = a"
    using scan_stops_set[OF tab(2,3)] by (simp add: a)
  have c: "text_conv (Some (0, 0)) 91 UNLIMITED_LENGTH SCAN_REGULAR_SIZE tab [b] (cstr str) =
      Some (a \<noteq> [], a = cstr str, [a @ 0 # drop (length a + 1) b], drop (length a) (cstr str))"
    using room pokes_start[of "a @ [0]" b] by (simp add: text_conv_def text_string_def tw m)
  have e: "scan_text [0] ap n os t = Some (n, os)" for ap n os t by (simp add: scan_text.simps nget_def)
  have "a = [] \<Longrightarrow> (a = cstr str) = (cstr str = [])" by auto
  then show ?thesis
    by (simp add: sscanf_text[OF str] scan_text.simps[of "37 # _"] nget_def sp c e Let_def eof_or_def)
qed

section \<open>Properties\<close>


text \<open>A device with a buffer of characters, which reports \<^verbatim>\<open>EOF\<close> when it is empty.\<close>

definition queue_getc :: "buf getc" where
  "queue_getc q = (case q of [] \<Rightarrow> (EOF, []) | c # q \<Rightarrow> (uint c, q))"

lemma fgetc_queue: "fgetc queue_getc [] = (EOF, [])" "fgetc queue_getc (c # q) = (uint c, q)"
proof -
  have "uint c \<noteq> SYSERR"
    by (rule notI, drule arg_cong[of _ _ "\<lambda>x. 0 \<le> x"]) (simp add: SYSERR_def)
  then show "fgetc queue_getc [] = (EOF, [])" "fgetc queue_getc (c # q) = (uint c, q)"
    by (simp_all add: fgetc_def queue_getc_def uint_not_EOF)
qed

lemma dev_text_queue: "dev_text queue_getc q q"
  by (induction q) (simp_all add: fgetc_queue)

text \<open>\<^verbatim>\<open>%x\<close> on the text \<^verbatim>\<open> -1f\<close>\<close>

lemma scan_text_ex: "scan_text [37, 120, 0] [Some (0, 0)] 0 [[0, 0, 0, 0]] [45, 49, 102] = Some (1, [le_bytes 4 (- 31)])"
proof -
  have d: "text_digit 16 49 = Some 1" "text_digit 16 102 = Some 15"
    by (simp_all add: text_digit_def scan_digit_def tolower_def isupper_range)
  have c: "text_conv (Some (0, 0)) 120 UNLIMITED_LENGTH SCAN_REGULAR_SIZE [] [[0, 0, 0, 0]] [45, 49, 102] = Some (True, True, [le_bytes 4 (- 31)], [])"
    using text_conv_digits[of 16 120 "[49, 102]" SCAN_REGULAR_SIZE "[]" True] d by (simp add: text_value_def)
  show ?thesis
    by (simp add: scan_text.simps[of "37 # _"] nget_def sc_spec_number c eof_or_def)
qed


lemma sscanf_number:
  fixes base :: u32
  assumes base: "base \<in> {8, 10, 16}" "type \<in> {100, 111, 120}" "base = (if type = 111 then 8 else if type = 120 then 16 else 10)"
    and spec: "sc_spec [Some (0, 0)] f = Some (Some (0, 0), UNLIMITED_LENGTH, Some (type, sz, []), [], [0])" "nget f 0 \<noteq> Some 37"
    and sz: "sz \<noteq> SCAN_SHORT_SIZE" and k: "length (num_text False (unat base) k) < 2 ^ 31"
  shows "sscanf (((if neg then [45] else []) @ num_text False (unat base) k) @ 0 # r) (37 # f) [Some (0, 0)] [[0, 0, 0, 0]] =
    Some (1, [le_bytes 4 (if neg then - of_nat k else of_nat k)])"
proof -
  let ?ds = "num_text False (unat base) k" let ?t = "(if neg then [45] else []) @ ?ds"
  have ds: "?ds \<noteq> []" by (simp add: num_text_def)
  have "0 \<notin> set ?ds" using num_text_digits[OF base(1), of k] text_digit_not_special[OF _ base(1)] by blast
  then have s: "cstr (?t @ 0 # r) = ?t" by (intro cstr_append_zero) auto
  have c: "text_conv (Some (0, 0)) type UNLIMITED_LENGTH sz [] [[0, 0, 0, 0]] ?t = Some (True, True, [le_bytes 4 (if neg then - of_nat k else of_nat k)], [])"
    using text_conv_digits[OF base ds num_text_digits[OF base(1)] k sz, of "[]" neg] text_value_num[OF base(1), of k] by simp
  have "scan_text (37 # f) [Some (0, 0)] 0 [[0, 0, 0, 0]] ?t = Some (1, [le_bytes 4 (if neg then - of_nat k else of_nat k)])"
    using spec by (simp add: scan_text.simps[of "37 # _"] nget_def c eof_or_def split: if_splits)
  then show ?thesis using sscanf_text[OF is_cstr_append, of ?t r] s by simp
qed

text \<open>C8.
  Printing and reading back: for every 32-bit number, \<^verbatim>\<open>atol\<close> and \<^verbatim>\<open>atoi\<close> on what \<^verbatim>\<open>sprintf\<close> wrote
  with \<^verbatim>\<open>%d\<close> into a buffer of at least 12 bytes return the number, the smallest negative one included, and
  \<^verbatim>\<open>sscanf\<close> with \<^verbatim>\<open>%x\<close> reads back what \<^verbatim>\<open>%x\<close> wrote.
\<close>

theorem sprintf_atol_roundtrip:
  assumes b: "12 \<le> length b"
  shows "(\<exists>w s. sprintf b [37, 100, 0] [Va_word n] = Some (w, s) \<and> atol s = Some n \<and> atoi s = Some n) \<and>
    (\<exists>w s. sprintf b [37, 120, 0] [Va_word n] = Some (w, s) \<and>
      sscanf s [37, 120, 0] [Some (0, 0)] [[0, 0, 0, 0]] = Some (1, [le_bytes 4 n]))"
proof
  define neg where "neg = (sint n < 0)"
  define k where "k = unat (if neg then - n else n)"
  define t where "t = (if neg then [45] else []) @ num_text False 10 k"
  have n: "(if neg then - of_nat k else of_nat k) = n" by (simp add: k_def)
  have k: "length (num_text False 10 k) \<le> 10" unfolding k_def by (rule num_text_len)
  then have "length t < length b" using b by (simp add: t_def)
  then have p: "sprintf b [37, 100, 0] [Va_word n] = Some (of_nat (length t), t @ 0 # drop (length t + 1) b)"
    using sprintf_fmt[OF fmt_text_number(1)[of n], of b] by (simp add: t_def k_def neg_def)
  have "sscanf (t @ 0 # drop (length t + 1) b) [37, 108, 100, 0] [Some (0, 0)] [[0, 0, 0, 0]] = Some (1, [le_bytes 4 n])"
    using sscanf_number[of 10 100 "[108, 100, 0]" SCAN_LONG_SIZE k neg] sc_spec_number(1) k n by (simp add: t_def nget_def)
  then have "atol (t @ 0 # drop (length t + 1) b) = Some n" by (simp add: atol_def nget_def le_word_bytes)
  with p show "\<exists>w s. sprintf b [37, 100, 0] [Va_word n] = Some (w, s) \<and> atol s = Some n \<and> atoi s = Some n" by (simp add: atoi_def)
next
  let ?t = "num_text False 16 (unat n)"
  have k: "length ?t \<le> 8" by (rule num_text_len)
  then have "sprintf b [37, 120, 0] [Va_word n] = Some (of_nat (length ?t), ?t @ 0 # drop (length ?t + 1) b)"
    using sprintf_fmt[OF fmt_text_number(2)[of n], of b] b by simp
  moreover have "sscanf (?t @ 0 # drop (length ?t + 1) b) [37, 120, 0] [Some (0, 0)] [[0, 0, 0, 0]] = Some (1, [le_bytes 4 n])"
    using sscanf_number[of 16 120 "[120, 0]" SCAN_REGULAR_SIZE "unat n" False] sc_spec_number(2) k by (simp add: nget_def)
  ultimately show "\<exists>w s. sprintf b [37, 120, 0] [Va_word n] = Some (w, s) \<and>
      sscanf s [37, 120, 0] [Some (0, 0)] [[0, 0, 0, 0]] = Some (1, [le_bytes 4 n])" by blast
qed

theorem sprintf_atol_roundtrip_witness:
  "\<exists>w s. sprintf (replicate 12 0) [37, 100, 0] [Va_word 0x80000000] = Some (w, s) \<and> atol s = Some 0x80000000"
  using sprintf_atol_roundtrip[of "replicate 12 0" "0x80000000"] by auto

lemma dev_line_newline: "10 \<notin> set (butlast (fst (dev_line getc k d)))"
proof (induction k arbitrary: d)
  case (Suc k)
  obtain c d1 where g: "fgetc getc d = (c, d1)" by (cases "fgetc getc d")
  have c: "c \<noteq> EOF \<Longrightarrow> c = uint (word_of_int c :: u8)" using g by (auto simp: fgetc_def case_prod_beta Let_def split: if_splits)
  have "word_of_int c \<noteq> (10 :: u8)" if "c \<noteq> EOF" "c \<noteq> 10"
  proof
    assume "word_of_int c = (10 :: u8)"
    with c[OF that(1)] have "c = 10" by simp
    with that(2) show False ..
  qed
  then have "c \<noteq> EOF \<Longrightarrow> c \<noteq> 10 \<Longrightarrow> 10 \<notin> set (butlast (word_of_int c # fst (dev_line getc k d1)))" using Suc[of d1] by auto
  then show ?case by (simp add: g case_prod_beta)
qed simp



lemma emit_count: "emit putc t w d = (Some w', d') \<Longrightarrow> w' = w + of_nat (length t)"
proof (induction t arbitrary: w d)
  case (Cons c t)
  obtain d1 where "emit putc t (w + 1) d1 = (Some w', d')"
    using Cons.prems by (auto simp: put1_def Let_def split: option.splits prod.splits if_splits)
  from Cons.IH[OF this] show ?case by simp
qed simp

lemma fmt_text_s: "is_cstr s \<Longrightarrow> length (cstr s) < 2 ^ 30 \<Longrightarrow> fmt_text [37, 115, 0] [Va_str (Some s)] = Some (cstr s)"
  by (simp add: fmt_text.simps pf_evals arg_text_def sign_text_def field_def prec_of_def Let_def)

lemma fputs_fprintf:
  assumes s: "is_cstr s" "length (cstr s) < 2 ^ 30"
  shows "map_option snd (fputs putc s d) = map_option snd (fprintf putc [37, 115, 0] [Va_str (Some s)] d)"
    and "fputs putc s d = Some (EOF, d') \<longleftrightarrow> fprintf putc [37, 115, 0] [Va_str (Some s)] d = Some (u32_of EOF, d')"
proof -
  have p: "fprintf putc [37, 115, 0] [Va_str (Some s)] d = Some (finish (emit (fputc putc) (cstr s) 0 d))"
    unfolding fprintf_def by (rule doprnt_text[OF fmt_text_s[OF s]])
  have "of_nat (length (cstr s)) \<noteq> u32_of EOF"
  proof
    assume "of_nat (length (cstr s)) = u32_of EOF"
    then have "unat (of_nat (length (cstr s)) :: u32) = unat (0xFFFFFFFE :: u32)" by (simp add: u32_of_def EOF_def)
    then show False using s(2) by (simp add: unat_of_nat)
  qed
  moreover obtain r d1 where e: "emit (fputc putc) (cstr s) 0 d = (r, d1)" by (cases "emit (fputc putc) (cstr s) 0 d")
  ultimately show "map_option snd (fputs putc s d) = map_option snd (fprintf putc [37, 115, 0] [Va_str (Some s)] d)"
    "fputs putc s d = Some (EOF, d') \<longleftrightarrow> fprintf putc [37, 115, 0] [Va_str (Some s)] d = Some (u32_of EOF, d')"
    using emit_count[of "fputc putc" "cstr s" 0 d _ d1] fputs_emit[OF s(1), of putc d]
    by (cases r; simp add: p finish_def EOF_def)+
qed

text \<open>C38.
  \<^verbatim>\<open>sprintf\<close> stores the text of its format and a terminator exactly when they fit, and returns the
  number of characters before it; otherwise it writes past the buffer. \<^verbatim>\<open>printf\<close> and \<^verbatim>\<open>fprintf\<close> write
  the same text to a device until the device fails, and \<^verbatim>\<open>fputs\<close> does to a device what
  \<^verbatim>\<open>fprintf\<close> with \<^verbatim>\<open>%s\<close> does.
\<close>

theorem formatted_output:
  assumes "fmt_text fmt ap = Some t"
  shows "sprintf b fmt ap = (if length t < length b then Some (of_nat (length t), t @ 0 # drop (length t + 1) b) else None) \<and>
    fprintf putc fmt ap d = Some (finish (emit (fputc putc) t 0 d)) \<and> printf putc fmt ap d = fprintf putc fmt ap d \<and>
    (is_cstr s \<and> length (cstr s) < 2 ^ 30 \<longrightarrow>
      map_option snd (fputs putc s d) = map_option snd (fprintf putc [37, 115, 0] [Va_str (Some s)] d) \<and>
      (fputs putc s d = Some (EOF, d') \<longleftrightarrow> fprintf putc [37, 115, 0] [Va_str (Some s)] d = Some (u32_of EOF, d')))"
  using sprintf_fmt[OF assms, of b] doprnt_text[OF assms, of "fputc putc" 0 d] fputs_fprintf[of s putc d]
  by (simp add: fprintf_def printf_def)

theorem formatted_output_witness:
  "sprintf (replicate 16 1) [37, 45, 53, 100, 124, 37, 48, 53, 100, 124, 37, 120, 0] [Va_word 42, Va_word (- 7), Va_word 255] =
     Some (14, [52, 50, 32, 32, 32, 124, 45, 48, 48, 48, 55, 124, 102, 102, 0, 1]) \<and>
   sprintf (replicate 14 1) [37, 45, 53, 100, 124, 37, 48, 53, 100, 124, 37, 120, 0] [Va_word 42, Va_word (- 7), Va_word 255] = None \<and>
   map_option snd (fputs (\<lambda>c out. (uint c, out @ [c])) [104, 105, 0] []) =
     map_option snd (fprintf (\<lambda>c out. (uint c, out @ [c])) [37, 115, 0] [Va_str (Some [104, 105, 0])] [])"
  using formatted_output[OF fmt_text_ex, of "replicate 16 1" "\<lambda>c out. (uint c, out @ [c])" "[]" "[104, 105, 0]" undefined]
    formatted_output[OF fmt_text_ex, of "replicate 14 1" "\<lambda>c out. (uint c, out @ [c])" "[]" "[104, 105, 0]" undefined]
  by (simp add: replicate_3)

text \<open>C37.
  \<^verbatim>\<open>%[\<close> reads the longest run of characters from the set, or outside of it after a caret,
  where \<^verbatim>\<open>]\<close> belongs to the set when it comes first: it stores the run and a terminator, and returns 1
  for a nonempty run, \<^verbatim>\<open>EOF\<close> at the end of the string and 0 otherwise.
\<close>

theorem scanset_reads_run:
  assumes "is_scanset caret S" and "is_cstr str" and "a = takeWhile (\<lambda>c. (c \<in> set S) \<noteq> caret) (cstr str)"
    and "length a < length b" and "length b < 2 ^ 32"
  shows "sscanf str (37 # 91 # scanset caret S @ [0]) [Some (0, 0)] [b] =
    Some (if a \<noteq> [] then 1 else if cstr str = [] then u32_of EOF else 0, [a @ 0 # drop (length a + 1) b])"
  using assms by (rule sscanf_scanset)

theorem scanset_reads_run_witness:
  "sscanf [97, 98, 93, 99, 0] [37, 91, 94, 93, 99, 93, 0] [Some (0, 0)] [[1, 2, 3, 4]] = Some (1, [[97, 98, 0, 4]])"
  using scanset_reads_run[of True "[93, 99]" "[97, 98, 93, 99, 0]" "[97, 98]" "[1, 2, 3, 4]"]
  by (simp add: is_scanset_def scanset_def)

end
