(* ===== verification/Scheduler.thy ===== *)
theory Scheduler
  imports Process_Queue Heap_Contract C_Strings
begin

text \<open>
  The scheduler: \<^verbatim>\<open>resched\<close> (\<^verbatim>\<open>system/resched.c\<close>) with its aging, the context
  switch (\<^verbatim>\<open>system/ctxsw.S\<close>), \<^verbatim>\<open>ready\<close> (\<^verbatim>\<open>system/ready.c\<close>),
  \<^verbatim>\<open>create\<close>, \<^verbatim>\<open>newpid\<close> and \<^verbatim>\<open>userret\<close> (\<^verbatim>\<open>system/create.c\<close>),
  \<^verbatim>\<open>kill\<close> (\<^verbatim>\<open>system/kill.c\<close>) and \<^verbatim>\<open>getstk\<close> (\<^verbatim>\<open>system/getstk.c\<close>).

  \<open>resched\<close> returns the state in which the chosen process continues; the value \<open>OK\<close> that the
  old process sees is returned when it is switched back. Everything that is linked in at an
  address (the entry of \<^verbatim>\<open>userret\<close>, the symbol \<^verbatim>\<open>_end\<close>) is an argument.
\<close>

section \<open>Context switch\<close>

text \<open>A run of \<^verbatim>\<open>str\<close> or \<^verbatim>\<open>ldr\<close> instructions, one per register number.\<close>

fun copy_regs :: "nat list \<Rightarrow> u32 list \<Rightarrow> u32 list \<Rightarrow> u32 list option" where
  "copy_regs [] src dst = Some dst"
| "copy_regs (i # is) src dst =
     do { v \<leftarrow> aget src (int i); dst \<leftarrow> aset dst (int i) v; copy_regs is src dst }"

definition ctxsw :: "int \<Rightarrow> int \<Rightarrow> int \<Rightarrow> 'a procst_scheme \<Rightarrow> 'a procst_scheme option" where
  "ctxsw cpuid old new s =
     do {
       r \<leftarrow> aget (cpu s) cpuid;
       p \<leftarrow> aget (proctab s) old;
       rs \<leftarrow> copy_regs [0..<12] r (regs p);
       lr \<leftarrow> aget r (int PREG_LR);
       rs \<leftarrow> aset rs (int PREG_LR) lr;
       rs \<leftarrow> aset rs (int PREG_PC) lr;
       rs \<leftarrow> copy_regs [PREG_SP] r rs;
       s \<leftarrow> upd_pcb old (\<lambda>p. p\<lparr>regs := rs\<rparr>) s;
       q \<leftarrow> aget (proctab s) new;
       r \<leftarrow> copy_regs ([0..<12] @ [PREG_SP, PREG_LR, PREG_PC]) (regs q) r;
       c \<leftarrow> aset (cpu s) cpuid r;
       Some (s\<lparr>cpu := c\<rparr>)
     }"

section \<open>Rescheduling\<close>

definition readyq :: "int \<Rightarrow> int \<Rightarrow> 'a procst_scheme \<Rightarrow> u32 option" where
  "readyq core prio s = do { row \<leftarrow> aget (readylist s) core; aget row prio }"

text \<open>\<^verbatim>\<open>enqueue(dequeue(readylist[cpuid][from]), readylist[cpuid][to])\<close>, if there is a process.\<close>

definition promote :: "int \<Rightarrow> int \<Rightarrow> int \<Rightarrow> 'a procst_scheme \<Rightarrow> 'a procst_scheme option" where
  "promote cpuid src dst s =
     do {
       q \<leftarrow> readyq cpuid src s;
       ne \<leftarrow> nonempty q s;
       if ne
       then do {
         (pid, s) \<leftarrow> dequeue cpuid q s;
         q' \<leftarrow> readyq cpuid dst s;
         (_, s) \<leftarrow> enqueue cpuid pid q' s;
         Some s
       }
       else Some s
     }"

text \<open>
  The block under \<^verbatim>\<open>#if AGING\<close>. The counters are unsigned, so \<^verbatim>\<open>--x <= 0\<close> holds only when
  the decrement reaches 0.
\<close>

definition age_low :: "int \<Rightarrow> 'a procst_scheme \<Rightarrow> 'a procst_scheme option" where
  "age_low cpuid s =
     do {
       v \<leftarrow> aget (promote_low s) cpuid;
       t \<leftarrow> aset (promote_low s) cpuid (v - 1);
       let s = s\<lparr>promote_low := t\<rparr>;
       if v - 1 \<le> 0
       then do {
         s \<leftarrow> promote cpuid PRIORITY_LOW PRIORITY_MED s;
         t \<leftarrow> aset (promote_low s) cpuid QUANTUM;
         Some (s\<lparr>promote_low := t\<rparr>)
       }
       else Some s
     }"

definition age :: "int \<Rightarrow> 'a procst_scheme \<Rightarrow> 'a procst_scheme option" where
  "age cpuid s =
     do {
       v \<leftarrow> aget (promote_medium s) cpuid;
       t \<leftarrow> aset (promote_medium s) cpuid (v - 1);
       let s = s\<lparr>promote_medium := t\<rparr>;
       if v - 1 \<le> 0
       then do {
         s \<leftarrow> promote cpuid PRIORITY_MED PRIORITY_HIGH s;
         s \<leftarrow> age_low cpuid s;
         t \<leftarrow> aset (promote_medium s) cpuid QUANTUM;
         Some (s\<lparr>promote_medium := t\<rparr>)
       }
       else Some s
     }"

text \<open>Putting the current process at the end of its ready queue, unless it blocked or died.\<close>

definition requeue_current :: "int \<Rightarrow> int \<Rightarrow> 'a procst_scheme \<Rightarrow> 'a procst_scheme option" where
  "requeue_current cpuid old s =
     do {
       p \<leftarrow> aget (proctab s) old;
       if PRCURR = p_state p
       then do {
         s \<leftarrow> upd_pcb old (\<lambda>p. p\<lparr>p_state := PRREADY\<rparr>) s;
         cur \<leftarrow> aget (currpid s) cpuid;
         q \<leftarrow> readyq cpuid (priority p) s;
         (_, s) \<leftarrow> enqueue cpuid cur q s;
         Some s
       }
       else Some s
     }"

definition highest_prio :: "int \<Rightarrow> 'a procst_scheme \<Rightarrow> int option" where
  "highest_prio cpuid s =
     do {
       q2 \<leftarrow> readyq cpuid PRIORITY_HIGH s;
       high \<leftarrow> nonempty q2 s;
       if high then Some PRIORITY_HIGH
       else do {
         q1 \<leftarrow> readyq cpuid PRIORITY_MED s;
         med \<leftarrow> nonempty q1 s;
         Some (if med then PRIORITY_MED else PRIORITY_LOW)
       }
     }"

text \<open>The rest of \<^verbatim>\<open>resched\<close>: choosing the next process and switching to it.\<close>

definition pick_next :: "int \<Rightarrow> int \<Rightarrow> 'a procst_scheme \<Rightarrow> 'a procst_scheme option" where
  "pick_next cpuid old s =
     do {
       hp \<leftarrow> highest_prio cpuid s;
       q \<leftarrow> readyq cpuid hp s;
       (new, s) \<leftarrow> dequeue cpuid q s;
       t \<leftarrow> aset (currpid s) cpuid new;
       let s = s\<lparr>currpid := t\<rparr>;
       s \<leftarrow> upd_pcb new (\<lambda>p. p\<lparr>p_state := PRCURR\<rparr>) s;
       t \<leftarrow> aset (preempt s) cpuid QUANTUM;
       let s = s\<lparr>preempt := t\<rparr>;
       ctxsw cpuid old new s
     }"

definition resched :: "int \<Rightarrow> 'a procst_scheme \<Rightarrow> 'a procst_scheme option" where
  "resched cpuid s =
     do {
       old \<leftarrow> aget (currpid s) cpuid;
       s \<leftarrow> age cpuid s;
       s \<leftarrow> requeue_current cpuid old s;
       pick_next cpuid old s
     }"

section \<open>Making a process eligible\<close>

definition ready :: "int \<Rightarrow> int \<Rightarrow> bool \<Rightarrow> int \<Rightarrow> 'a procst_scheme \<Rightarrow> (int \<times> 'a procst_scheme) option" where
  "ready cpuid pid resch core s =
     do {
       bad \<leftarrow> isbadpid pid s;
       if bad then Some (SYSERR, s)
       else do {
         s \<leftarrow> upd_pcb pid (\<lambda>p. p\<lparr>p_state := PRREADY\<rparr>) s;
         s \<leftarrow> upd_pcb pid (\<lambda>p. if -1 = core_affinity p then p\<lparr>core_affinity := core\<rparr> else p) s;
         p \<leftarrow> aget (proctab s) pid;
         q \<leftarrow> readyq (core_affinity p) (priority p) s;
         (_, s) \<leftarrow> enqueue cpuid pid q s;
         s \<leftarrow> (if resch \<and> cpuid = core_affinity p then resched cpuid s else Some s);
         Some (OK, s)
       }
     }"

section \<open>Creating a process\<close>

fun newpid_loop :: "nat \<Rightarrow> 'a procst_scheme \<Rightarrow> (int \<times> 'a procst_scheme) option" where
  "newpid_loop 0 s = Some (SYSERR, s)"
| "newpid_loop (Suc k) s =
     do {
       let s = s\<lparr>nextpid := atomic_increment_mod (nextpid s) NPROC\<rparr>;
       p \<leftarrow> aget (proctab s) (nextpid s);
       if PRFREE = p_state p then Some (nextpid s, s) else newpid_loop k s
     }"

definition newpid :: "'a procst_scheme \<Rightarrow> (int \<times> 'a procst_scheme) option" where
  "newpid s = newpid_loop (nat NPROC) s"

text \<open>\<^verbatim>\<open>*--saddr = v\<close>\<close>

definition push :: "u32 \<Rightarrow> u32 \<times> (u32 \<Rightarrow> u32) \<Rightarrow> u32 \<times> (u32 \<Rightarrow> u32)" where
  "push v = (\<lambda>(saddr, m). (saddr - 4, m(saddr - 4 := v)))"

primrec push_pads :: "nat \<Rightarrow> u32 \<times> (u32 \<Rightarrow> u32) \<Rightarrow> u32 \<times> (u32 \<Rightarrow> u32)" where
  "push_pads 0 x = x"
| "push_pads (Suc n) x = push_pads n (push 0 x)"

text \<open>The two argument loops: the first four into registers, the others into the reserved words.\<close>

function load_args :: "nat \<Rightarrow> nat \<Rightarrow> u32 list \<Rightarrow> u32 list \<Rightarrow> (nat \<times> u32 list) option" where
  "load_args i nargs ap rs =
     (if i < nargs
      then if i \<ge> 4 then Some (i, rs)
           else do { v \<leftarrow> nget ap i; rs \<leftarrow> aset rs (int i) v; load_args (i + 1) nargs ap rs }
      else Some (i, rs))"
  by pat_completeness auto
termination by (relation "measure (\<lambda>(i, n, a, r). n - i)") auto

function store_args :: "nat \<Rightarrow> nat \<Rightarrow> u32 list \<Rightarrow> u32 \<Rightarrow> (u32 \<Rightarrow> u32) \<Rightarrow> (u32 \<Rightarrow> u32) option" where
  "store_args i nargs ap saddr m =
     (if i < nargs
      then do { v \<leftarrow> nget ap i; store_args (i + 1) nargs ap saddr (m(saddr + 4 * of_nat i - 16 := v)) }
      else Some m)"
  by pat_completeness auto
termination by (relation "measure (\<lambda>(i, n, a, r, m). n - i)") auto

declare load_args.simps [simp del] store_args.simps [simp del]

text \<open>The stack: the accounting block, the reserved words, and the arguments.\<close>

definition create_stack ::
  "u32 \<Rightarrow> u32 \<Rightarrow> int \<Rightarrow> nat \<Rightarrow> u32 list \<Rightarrow> u32 list \<Rightarrow> (u32 \<Rightarrow> u32) \<Rightarrow> (u32 \<times> u32 list \<times> (u32 \<Rightarrow> u32)) option" where
  "create_stack base ssize pid nargs ap rs m =
     (let saddr = base + ssize - 4;
          m = m(saddr := STACKMAGIC);
          x = push base (push ssize (push (u32_of pid) (saddr, m)));
          pads = (if nargs \<noteq> 0 then ((nargs - 1) div 4) * 4 else 0);
          (saddr, m) = push_pads pads x
      in do {
        (i, rs) \<leftarrow> load_args 0 nargs ap rs;
        m \<leftarrow> store_args i nargs ap saddr m;
        Some (saddr, rs, m)
      })"

definition round_ssize :: "u32 \<Rightarrow> u32" where
  "round_ssize ssize = ((if ssize < MINSTK then MINSTK else ssize) + 3) AND 0xFFFFFFFC"

definition create ::
  "int \<Rightarrow> u32 \<Rightarrow> u32 \<Rightarrow> u32 \<Rightarrow> u32 \<Rightarrow> buf \<Rightarrow> nat \<Rightarrow> u32 list \<Rightarrow> 'a procst_scheme \<Rightarrow> (int \<times> 'a procst_scheme) option" where
  "create cpuid userret_addr funcaddr ssize prio name nargs ap s =
     do {
       let ssize = round_ssize ssize;
       (saddr, s) \<leftarrow> getmem cpuid ssize s;
       (pid, s) \<leftarrow> newpid s;
       if SYSERRP = saddr \<or> SYSERR = pid then Some (SYSERR, s)
       else do {
         let s = s\<lparr>numproc := numproc s + 1\<rparr>;
         p \<leftarrow> aget (proctab s) pid;
         nm \<leftarrow> strncpy (p_name p) name PNMLEN;
         s \<leftarrow> upd_pcb pid (\<lambda>p. p\<lparr>p_state := PRSUSP, stkbase := saddr, stklen := ssize, p_name := nm,
                core_affinity := -1, priority := sint prio\<rparr>) s;
         s \<leftarrow> upd_msg pid (\<lambda>m. m\<lparr>hasMessage := 0, msgin := EMPTY, msgout := EMPTY\<rparr>) s;
         (sp, rs, m) \<leftarrow> create_stack saddr ssize pid nargs ap (regs p) (mem s);
         rs \<leftarrow> aset rs (int PREG_PC) funcaddr;
         rs \<leftarrow> aset rs (int PREG_LR) userret_addr;
         rs \<leftarrow> aset rs (int PREG_SP) sp;
         s \<leftarrow> upd_pcb pid (\<lambda>p. p\<lparr>regs := rs\<rparr>) (s\<lparr>mem := m\<rparr>);
         Some (pid, s)
       }
     }"

section \<open>Killing a process\<close>

text \<open>
  Only the first line of the case \<^verbatim>\<open>PRCURR\<close> runs: \<^verbatim>\<open>resched\<close> does not come back to a process
  that is on no queue.
\<close>

definition kill :: "int \<Rightarrow> int \<Rightarrow> 'a procst_scheme \<Rightarrow> (int \<times> 'a procst_scheme) option" where
  "kill cpuid pid s =
     do {
       bad \<leftarrow> isbadpid pid s;
       if bad \<or> 0 = pid \<or> 1 = pid \<or> 2 = pid \<or> 3 = pid then Some (SYSERR, s)
       else do {
         p \<leftarrow> aget (proctab s) pid;
         if cpuid \<noteq> core_affinity p \<or> PRFREE = p_state p then Some (SYSERR, s)
         else do {
           let s = s\<lparr>numproc := numproc s - 1\<rparr>;
           (_, s) \<leftarrow> freemem cpuid (stkbase p) (stklen p) s;
           if p_state p = PRCURR
           then do {
             s \<leftarrow> upd_pcb pid (\<lambda>p. p\<lparr>p_state := PRFREE\<rparr>) s;
             s \<leftarrow> resched cpuid s;
             Some (OK, s)
           }
           else do {
             s \<leftarrow> (if p_state p = PRREADY then do { (_, s) \<leftarrow> remove cpuid pid s; Some s } else Some s);
             s \<leftarrow> upd_pcb pid (\<lambda>p. p\<lparr>p_state := PRFREE\<rparr>) s;
             Some (OK, s)
           }
         }
       }
     }"

definition userret :: "int \<Rightarrow> 'a procst_scheme \<Rightarrow> (int \<times> 'a procst_scheme) option" where
  "userret cpuid s = do { pid \<leftarrow> aget (currpid s) cpuid; kill cpuid pid s }"

section \<open>Stack allocation before the heap\<close>

definition getstk :: "u32 \<Rightarrow> u32 \<Rightarrow> 'a memst_scheme \<Rightarrow> u32 \<times> 'a memst_scheme" where
  "getstk end_addr nbytes s =
     (if nbytes = 0 then (SYSERRP, s)
      else let nbytes = (nbytes + 15) AND NOT 0x0F in
        if maxaddr s - nbytes < end_addr then (SYSERRP, s)
        else ((maxaddr s - 4) AND 0xFFFFFFF0, s\<lparr>maxaddr := maxaddr s - nbytes\<rparr>))"

end
