(* ===== verification/Sched_Invariant.thy ===== *)
theory Sched_Invariant
  imports Scheduler
begin

text \<open>
  What the scheduler keeps and does. \<open>kern_inv\<close> is the invariant of the kernel between calls:
  queues, process states, cores, stacks, mailboxes and counters fit together. \<open>resched_mid\<close>
  shows that \<^verbatim>\<open>resched\<close> always comes back, restores the invariant and makes one step of
  the abstract scheduler \<open>v_resched\<close>, a record of three lists, the running process and two
  counters; \<open>step_waits\<close> shows on the abstract scheduler that no ready process starves, and
  \<open>resched_iter_waits\<close> carries that over to the code.
\<close>

section \<open>The shape of the scheduling state\<close>

text \<open>
  \<^verbatim>\<open>sysinit\<close> makes one message queue per process and then the ready lists, core by core, so
  the ready list of core \<open>c\<close> and priority \<open>j\<close> is queue number \<open>rq c j\<close>.
\<close>

definition rq :: "nat \<Rightarrow> nat \<Rightarrow> nat" where "rq c j = 50 + 3 * c + j"

definition rset :: "int list list \<Rightarrow> nat \<Rightarrow> int set" where
  "rset Q c = set (Q ! rq c 0) \<union> set (Q ! rq c 1) \<union> set (Q ! rq c 2)"

definition kern_shape :: "'a procst_scheme \<Rightarrow> int list list \<Rightarrow> bool" where
  "kern_shape s Q \<longleftrightarrow>
     queues_rep s Q \<and> length Q = 62 \<and>
     readylist s = map (\<lambda>c. map (\<lambda>j. qid (rq c j)) [0..<3]) [0..<4] \<and>
     length (currpid s) = 4 \<and> length (preempt s) = 4 \<and> length (promote_medium s) = 4 \<and> length (promote_low s) = 4 \<and>
     length (clkticks s) = 4 \<and> length (clktime s) = 4 \<and> length (cpu s) = 4 \<and>
     (\<forall>r \<in> set (cpu s). length r = 16) \<and> (\<forall>p \<in> set (proctab s). length (regs p) = 16)"

text \<open>
  How processes, queues and cores fit together. \<open>C\<close> is the set of cores that have a current
  process: all of them, except in the middle of \<^verbatim>\<open>resched\<close>.
\<close>

definition pid_ok :: "int \<Rightarrow> bool" where "pid_ok pid \<longleftrightarrow> 0 \<le> pid \<and> pid < NPROC"

definition procs_ok :: "nat set \<Rightarrow> pcb list \<Rightarrow> int list \<Rightarrow> int list list \<Rightarrow> bool" where
  "procs_ok C P cur Q \<longleftrightarrow>
     (\<forall>pid. pid_ok pid \<and> p_state (at P pid) = PRREADY \<longrightarrow> (\<exists>c < 4. pid \<in> rset Q c)) \<and>
     (\<forall>c < 4. \<forall>pid \<in> rset Q c. pid_ok pid \<and> p_state (at P pid) = PRREADY \<and> core_affinity (at P pid) = int c) \<and>
     (\<forall>i < 50. \<forall>pid \<in> set (Q ! i). pid_ok pid \<and> p_state (at P pid) = PRSEND) \<and>
     (\<forall>pid. pid_ok pid \<and> p_state (at P pid) = PRCURR \<longrightarrow> (\<exists>c \<in> C. cur ! c = pid)) \<and>
     (\<forall>c \<in> C. c < 4 \<and> pid_ok (cur ! c) \<and> core_affinity (at P (cur ! c)) = int c \<and> p_state (at P (cur ! c)) \<noteq> PRREADY) \<and>
     (\<forall>pid. pid_ok pid \<and> p_state (at P pid) \<noteq> PRFREE \<longrightarrow> 0 \<le> priority (at P pid) \<and> priority (at P pid) < 3 \<and>
        (core_affinity (at P pid) = -1 \<and> p_state (at P pid) = PRSUSP \<or> 0 \<le> core_affinity (at P pid) \<and> core_affinity (at P pid) < 4)) \<and>
     (\<forall>c < 4. p_state (at P (int c)) \<in> {PRCURR, PRREADY} \<and> core_affinity (at P (int c)) = int c)"

lemma procs_okI:
  assumes "\<And>pid. pid_ok pid \<Longrightarrow> p_state (at P pid) = PRREADY \<Longrightarrow> \<exists>c < 4. pid \<in> rset Q c"
    and "\<And>c pid. c < 4 \<Longrightarrow> pid \<in> rset Q c \<Longrightarrow> pid_ok pid \<and> p_state (at P pid) = PRREADY \<and> core_affinity (at P pid) = int c"
    and "\<And>i pid. i < 50 \<Longrightarrow> pid \<in> set (Q ! i) \<Longrightarrow> pid_ok pid \<and> p_state (at P pid) = PRSEND"
    and "\<And>pid. pid_ok pid \<Longrightarrow> p_state (at P pid) = PRCURR \<Longrightarrow> \<exists>c \<in> C. cur ! c = pid"
    and "\<And>c. c \<in> C \<Longrightarrow> c < 4 \<and> pid_ok (cur ! c) \<and> core_affinity (at P (cur ! c)) = int c \<and> p_state (at P (cur ! c)) \<noteq> PRREADY"
    and "\<And>pid. pid_ok pid \<Longrightarrow> p_state (at P pid) \<noteq> PRFREE \<Longrightarrow> 0 \<le> priority (at P pid) \<and> priority (at P pid) < 3 \<and>
        (core_affinity (at P pid) = -1 \<and> p_state (at P pid) = PRSUSP \<or> 0 \<le> core_affinity (at P pid) \<and> core_affinity (at P pid) < 4)"
    and "\<And>c. c < 4 \<Longrightarrow> p_state (at P (int c)) \<in> {PRCURR, PRREADY} \<and> core_affinity (at P (int c)) = int c"
  shows "procs_ok C P cur Q"
  unfolding procs_ok_def using assms by (intro conjI allI impI ballI) blast+

lemma procs_okD:
  assumes "procs_ok C P cur Q"
  shows "pid_ok pid \<Longrightarrow> p_state (at P pid) = PRREADY \<Longrightarrow> \<exists>c < 4. pid \<in> rset Q c"
    and "c < 4 \<Longrightarrow> pid \<in> rset Q c \<Longrightarrow> pid_ok pid \<and> p_state (at P pid) = PRREADY \<and> core_affinity (at P pid) = int c"
    and "i < 50 \<Longrightarrow> pid \<in> set (Q ! i) \<Longrightarrow> pid_ok pid \<and> p_state (at P pid) = PRSEND"
    and "pid_ok pid \<Longrightarrow> p_state (at P pid) = PRCURR \<Longrightarrow> \<exists>c \<in> C. cur ! c = pid"
    and "c \<in> C \<Longrightarrow> c < 4 \<and> pid_ok (cur ! c) \<and> core_affinity (at P (cur ! c)) = int c \<and> p_state (at P (cur ! c)) \<noteq> PRREADY"
    and "pid_ok pid \<Longrightarrow> p_state (at P pid) \<noteq> PRFREE \<Longrightarrow> 0 \<le> priority (at P pid) \<and> priority (at P pid) < 3 \<and>
        (core_affinity (at P pid) = -1 \<and> p_state (at P pid) = PRSUSP \<or> 0 \<le> core_affinity (at P pid) \<and> core_affinity (at P pid) < 4)"
    and "c < 4 \<Longrightarrow> p_state (at P (int c)) \<in> {PRCURR, PRREADY} \<and> core_affinity (at P (int c)) = int c"
  using assms unfolding procs_ok_def by blast+

lemma pr_distinct [simp]:
  "PRFREE \<noteq> PRCURR" "PRFREE \<noteq> PRSUSP" "PRFREE \<noteq> PRREADY" "PRFREE \<noteq> PRRECV" "PRFREE \<noteq> PRSEND"
  "PRCURR \<noteq> PRFREE" "PRCURR \<noteq> PRSUSP" "PRCURR \<noteq> PRREADY" "PRCURR \<noteq> PRRECV" "PRCURR \<noteq> PRSEND"
  "PRSUSP \<noteq> PRFREE" "PRSUSP \<noteq> PRCURR" "PRSUSP \<noteq> PRREADY" "PRSUSP \<noteq> PRRECV" "PRSUSP \<noteq> PRSEND"
  "PRREADY \<noteq> PRFREE" "PRREADY \<noteq> PRCURR" "PRREADY \<noteq> PRSUSP" "PRREADY \<noteq> PRRECV" "PRREADY \<noteq> PRSEND"
  "PRRECV \<noteq> PRFREE" "PRRECV \<noteq> PRCURR" "PRRECV \<noteq> PRSUSP" "PRRECV \<noteq> PRREADY" "PRRECV \<noteq> PRSEND"
  "PRSEND \<noteq> PRFREE" "PRSEND \<noteq> PRCURR" "PRSEND \<noteq> PRSUSP" "PRSEND \<noteq> PRREADY" "PRSEND \<noteq> PRRECV"
  by (simp_all add: pr_consts)

text \<open>Only the states, priorities and affinities of the table matter.\<close>

lemma procs_ok_cong:
  assumes "\<And>pid. pid_ok pid \<Longrightarrow> p_state (at P' pid) = p_state (at P pid) \<and> priority (at P' pid) = priority (at P pid) \<and>
      core_affinity (at P' pid) = core_affinity (at P pid)"
    and "procs_ok C P cur Q"
  shows "procs_ok C P' cur Q"
proof -
  have n: "pid_ok (int c)" if "c < 4" for c using that by (auto simp: pid_ok_def NPROC_def)
  show ?thesis
    apply (rule procs_okI)
    subgoal using assms(1) procs_okD(1)[OF assms(2)] by metis
    subgoal using assms(1) procs_okD(2)[OF assms(2)] by metis
    subgoal using assms(1) procs_okD(3)[OF assms(2)] by metis
    subgoal using assms(1) procs_okD(4)[OF assms(2)] by metis
    subgoal using assms(1) procs_okD(5)[OF assms(2)] by metis
    subgoal for pid using assms(1)[of pid] procs_okD(6)[OF assms(2), of pid] by simp
    subgoal for c using assms(1)[of "int c"] procs_okD(7)[OF assms(2), of c] n[of c] by simp
    done
qed

text \<open>Only the ready set of each core and the message queues matter.\<close>

lemma procs_ok_queues:
  assumes "procs_ok C P cur Q" and "\<And>c. c < 4 \<Longrightarrow> rset Q' c = rset Q c" and "\<And>i. i < 50 \<Longrightarrow> Q' ! i = Q ! i"
  shows "procs_ok C P cur Q'"
  apply (rule procs_okI)
  subgoal using procs_okD(1)[OF assms(1)] assms(2) by metis
  subgoal using procs_okD(2)[OF assms(1)] assms(2) by metis
  subgoal using procs_okD(3)[OF assms(1)] assms(3) by metis
  subgoal using procs_okD(4)[OF assms(1)] by metis
  subgoal using procs_okD(5)[OF assms(1)] by metis
  subgoal for pid using procs_okD(6)[OF assms(1), of pid] by simp
  subgoal for c using procs_okD(7)[OF assms(1), of c] by simp
  done

lemma rq_less: "c < 4 \<Longrightarrow> j < 3 \<Longrightarrow> rq c j < 62"
  by (simp add: rq_def)

lemma rq_eq: "j < 3 \<Longrightarrow> j' < 3 \<Longrightarrow> rq c j = rq c' j' \<longleftrightarrow> c = c' \<and> j = j'"
  by (auto simp: rq_def) presburger+

lemma rq_ge: "50 \<le> rq c j"
  by (simp add: rq_def)

lemma less_3E: "(j::nat) < 3 \<Longrightarrow> (j = 0 \<Longrightarrow> R) \<Longrightarrow> (j = 1 \<Longrightarrow> R) \<Longrightarrow> (j = 2 \<Longrightarrow> R) \<Longrightarrow> R"
  by linarith

lemma rset_mem: "pid \<in> rset Q c \<longleftrightarrow> (\<exists>j < 3. pid \<in> set (Q ! rq c j))"
  by (auto simp: rset_def numeral_3_eq_3 numeral_2_eq_2 less_Suc_eq)

lemma kern_shapeD:
  assumes "kern_shape s Q"
  shows "queues_rep s Q" "length Q = 62" "length (currpid s) = 4" "length (preempt s) = 4" "length (promote_medium s) = 4"
    "length (promote_low s) = 4" "length (cpu s) = 4" "length (clkticks s) = 4" "length (clktime s) = 4"
  using assms by (auto simp: kern_shape_def)

lemma readyq_ok:
  assumes "kern_shape s Q" and "c < 4" and "0 \<le> j" and "j < 3"
  shows "readyq (int c) j s = Some (qid (rq c (nat j)))"
proof -
  have "nat j < 3" using assms by simp
  then have "aget (readylist s) (int c) = Some (map (\<lambda>j. qid (rq c j)) [0..<3])"
    using assms by (auto simp: kern_shape_def aget_def)
  then show ?thesis using assms by (auto simp: readyq_def aget_def)
qed

section \<open>Aging\<close>

definition move :: "nat \<Rightarrow> nat \<Rightarrow> int list list \<Rightarrow> int list list" where
  "move a b Q = (case Q ! a of [] \<Rightarrow> Q | p # ps \<Rightarrow> Q[a := ps, b := Q ! b @ [p]])"

lemma move_length [simp]: "length (move a b Q) = length Q"
  by (simp add: move_def split: list.split)

lemma move_other: "k \<noteq> a \<Longrightarrow> k \<noteq> b \<Longrightarrow> move a b Q ! k = Q ! k"
  by (simp add: move_def split: list.split)

lemma rset_move:
  assumes "length Q = 62" and "c < 4" and "d < 4" and "a < 3" and "b < 3" and "a \<noteq> b"
  shows "rset (move (rq c a) (rq c b) Q) d = rset Q d"
proof (cases "Q ! rq c a")
  case Nil
  then show ?thesis by (simp add: move_def)
next
  case (Cons p ps)
  have r: "rq d j < 62" if "j < 3" for j using assms(3) that by (rule rq_less)
  have "pid \<in> rset (Q[rq c a := ps, rq c b := Q ! rq c b @ [p]]) d \<longleftrightarrow> pid \<in> rset Q d" for pid
  proof (cases "c = d")
    case True
    have ne: "rq d a \<noteq> rq d b" using rq_eq assms by simp
    have "pid \<in> set (Q[rq d a := ps, rq d b := Q ! rq d b @ [p]] ! rq d j) \<longleftrightarrow>
        (if j = b then pid \<in> set (Q ! rq d b) \<or> pid = p else if j = a then pid \<in> set ps else pid \<in> set (Q ! rq d j))" if "j < 3" for j
      using assms r that ne by (auto simp: nth_list_update rq_eq)
    then show ?thesis unfolding rset_mem True using assms Cons[unfolded True] by (metis set_ConsD list.set_intros)
  next
    case False
    then have "rq d j \<noteq> rq c a" "rq d j \<noteq> rq c b" if "j < 3" for j using rq_eq assms that by metis+
    then have "Q[rq c a := ps, rq c b := Q ! rq c b @ [p]] ! rq d j = Q ! rq d j" if "j < 3" for j
      using that by (metis nth_list_update_neq)
    then show ?thesis unfolding rset_mem by metis
  qed
  then show ?thesis using Cons by (auto simp: move_def)
qed

lemma procs_ok_move:
  assumes "procs_ok C P cur Q" and "length Q = 62" and "c < 4" and "a < 3" and "b < 3" and "a \<noteq> b"
  shows "procs_ok C P cur (move (rq c a) (rq c b) Q)"
proof (rule procs_ok_queues[OF assms(1)])
  show "rset (move (rq c a) (rq c b) Q) d = rset Q d" if "d < 4" for d using rset_move assms that by blast
  show "move (rq c a) (rq c b) Q ! i = Q ! i" if "i < 50" for i
    using that rq_ge[of c a] rq_ge[of c b] by (intro move_other) linarith+
qed

lemma kern_shape_queuetab:
  "kern_shape s Q \<Longrightarrow> queues_rep (s\<lparr>queuetab := t\<rparr>) Q' \<Longrightarrow> length Q' = length Q \<Longrightarrow> kern_shape (s\<lparr>queuetab := t\<rparr>) Q'"
  by (simp add: kern_shape_def)

lemma promote_ok:
  assumes sh: "kern_shape s Q" and c: "c < 4" and pr: "0 \<le> a" "a < 3" "0 \<le> b" "b < 3" "a \<noteq> b"
    and ok: "procs_ok C (proctab s) cur Q"
  shows "\<exists>t. promote (int c) a b s = Some (s\<lparr>queuetab := t\<rparr>) \<and>
    kern_shape (s\<lparr>queuetab := t\<rparr>) (move (rq c (nat a)) (rq c (nat b)) Q)"
proof -
  let ?a = "rq c (nat a)" and ?b = "rq c (nat b)"
  have R: "queues_rep s Q" "length Q = 62" using sh by (auto simp: kern_shape_def)
  have k: "?a < length Q" "?b < length Q" "?a \<noteq> ?b" using R(2) c pr rq_less rq_eq by auto
  note q = readyq_ok[OF sh c pr(1,2)] and ne = nonempty_rep(1)[OF R(1) k(1)]
  show ?thesis
  proof (cases "Q ! ?a")
    case Nil
    then have "promote (int c) a b s = Some (s\<lparr>queuetab := queuetab s\<rparr>)" using q ne by (simp add: promote_def)
    then show ?thesis using sh Nil by (intro exI[of _ "queuetab s"]) (simp add: move_def)
  next
    case (Cons p ps)
    have "p \<in> rset Q c" using Cons pr by (auto simp: rset_mem intro!: exI[of _ "nat a"])
    then have "live_pid s p" using procs_okD(2)[OF ok c] by (simp add: live_pid_def pid_ok_def)
    from pq.move_head[OF R(1) k Cons this, of "int c"] obtain t where
      t: "do { (q, s) \<leftarrow> dequeue (int c) (qid ?a) s; enqueue (int c) q (qid ?b) s } = Some (p, s\<lparr>queuetab := t\<rparr>)"
        "queues_rep (s\<lparr>queuetab := t\<rparr>) (Q[?a := ps, ?b := Q ! ?b @ [p]])" by (auto simp: same_but_queues_def)
    from dequeue_rep[OF R(1) k(1) Cons, of "int c"] obtain u where
      u: "dequeue (int c) (qid ?a) s = Some (p, s\<lparr>queuetab := u\<rparr>)" by blast
    have "readyq (int c) b (s\<lparr>queuetab := u\<rparr>) = Some (qid ?b)" using readyq_ok[OF sh c pr(3,4)] by (simp add: readyq_def)
    then have "promote (int c) a b s = Some (s\<lparr>queuetab := t\<rparr>)" using q ne Cons u t(1) by (simp add: promote_def)
    then show ?thesis using kern_shape_queuetab[OF sh t(2)] Cons by (intro exI[of _ t]) (simp add: move_def)
  qed
qed

text \<open>What the aging block does to the counters and the queues of its core.\<close>

definition abs_age :: "nat \<Rightarrow> u32 \<Rightarrow> u32 \<Rightarrow> int list list \<Rightarrow> u32 \<times> u32 \<times> int list list" where
  "abs_age c m l Q =
     (if m = 1
      then let Q1 = move (rq c 1) (rq c 2) Q
           in if l = 1 then (QUANTUM, QUANTUM, move (rq c 0) (rq c 1) Q1) else (QUANTUM, l - 1, Q1)
      else (m - 1, l, Q))"

lemma word_minus_1_le_0 [simp]: "(x :: u32) - 1 \<le> 0 \<longleftrightarrow> x = 1"
  by (simp add: word_le_nat_alt unat_eq_zero)

lemma kern_shape_low:
  "kern_shape s Q \<Longrightarrow> length t = 4 \<Longrightarrow> kern_shape (s\<lparr>promote_low := t\<rparr>) Q"
  "kern_shape s Q \<Longrightarrow> length t = 4 \<Longrightarrow> kern_shape (s\<lparr>promote_medium := t\<rparr>) Q"
  "kern_shape s Q \<Longrightarrow> length t = 4 \<Longrightarrow> kern_shape (s\<lparr>preempt := t\<rparr>) Q"
  "kern_shape s Q \<Longrightarrow> length u = 4 \<Longrightarrow> kern_shape (s\<lparr>currpid := u\<rparr>) Q"
  by (auto simp: kern_shape_def queues_rep_def proctab_wf_def lock_idle_def)


lemma proc_field_commute:
  "s\<lparr>promote_low := a, queuetab := q\<rparr> = s\<lparr>queuetab := q, promote_low := a\<rparr>"
  "s\<lparr>promote_medium := a, queuetab := q\<rparr> = s\<lparr>queuetab := q, promote_medium := a\<rparr>"
  "s\<lparr>promote_low := a, promote_medium := b\<rparr> = s\<lparr>promote_medium := b, promote_low := a\<rparr>"
  for s :: "'a procst_scheme"
  by simp_all

lemma age_low_ok:
  assumes sh: "kern_shape s Q" and c: "c < 4" and ok: "procs_ok C (proctab s) cur Q"
  shows "\<exists>t. let l = promote_low s ! c in
    age_low (int c) s = Some (s\<lparr>queuetab := t, promote_low := (promote_low s)[c := if l = 1 then QUANTUM else l - 1]\<rparr>) \<and>
    kern_shape (s\<lparr>queuetab := t, promote_low := (promote_low s)[c := if l = 1 then QUANTUM else l - 1]\<rparr>)
      (if l = 1 then move (rq c 0) (rq c 1) Q else Q)"
proof -
  have len: "length (promote_low s) = 4" using sh by (simp add: kern_shape_def)
  have g: "aget (promote_low s) (int c) = Some (promote_low s ! c)"
    "\<And>v. aset (promote_low s) (int c) v = Some ((promote_low s)[c := v])" using c len by (auto simp: aget_def aset_def)
  show ?thesis
  proof (cases "promote_low s ! c = 1")
    case True
    let ?s = "s\<lparr>promote_low := (promote_low s)[c := 0]\<rparr>"
    have sh1: "kern_shape ?s Q" using sh len by (intro kern_shape_low) simp_all
    from promote_ok[OF sh1 c, of PRIORITY_LOW PRIORITY_MED C cur] ok obtain t where
      t: "promote (int c) PRIORITY_LOW PRIORITY_MED ?s = Some (?s\<lparr>queuetab := t\<rparr>)"
        "kern_shape (?s\<lparr>queuetab := t\<rparr>) (move (rq c 0) (rq c 1) Q)" by (auto simp: prio_consts)
    have "age_low (int c) s = Some (s\<lparr>queuetab := t, promote_low := (promote_low s)[c := QUANTUM]\<rparr>)"
      using g True t(1) len c by (simp add: age_low_def aset_def)
    moreover have "kern_shape (s\<lparr>queuetab := t, promote_low := (promote_low s)[c := QUANTUM]\<rparr>) (move (rq c 0) (rq c 1) Q)"
      using kern_shape_low(1)[OF t(2), of "(promote_low s)[c := QUANTUM]"] len by simp
    ultimately show ?thesis using True by (intro exI[of _ t]) (simp add: Let_def)
  next
    case False
    then show ?thesis using g kern_shape_low(1)[OF sh, of "(promote_low s)[c := promote_low s ! c - 1]"] len
      by (intro exI[of _ "queuetab s"]) (simp add: Let_def age_low_def)
  qed
qed

lemma age_ok:
  assumes sh: "kern_shape s Q" and c: "c < 4" and ok: "procs_ok C (proctab s) cur Q"
    and a: "abs_age c (promote_medium s ! c) (promote_low s ! c) Q = (m, l, Q')"
  shows "\<exists>t. age (int c) s = Some (s\<lparr>queuetab := t, promote_medium := (promote_medium s)[c := m], promote_low := (promote_low s)[c := l]\<rparr>) \<and>
    kern_shape (s\<lparr>queuetab := t, promote_medium := (promote_medium s)[c := m], promote_low := (promote_low s)[c := l]\<rparr>) Q'"
proof -
  let ?pm = "promote_medium s"
  have len: "length ?pm = 4" "length (promote_low s) = 4" using sh by (auto simp: kern_shape_def)
  have g: "aget ?pm (int c) = Some (?pm ! c)" "\<And>v. aset ?pm (int c) v = Some (?pm[c := v])"
    using c len by (auto simp: aget_def aset_def)
  show ?thesis
  proof (cases "?pm ! c = 1")
    case True
    let ?s = "s\<lparr>promote_medium := ?pm[c := 0]\<rparr>" and ?Q = "move (rq c 1) (rq c 2) Q"
    have sh1: "kern_shape ?s Q" using sh len by (intro kern_shape_low) simp_all
    from promote_ok[OF sh1 c, of PRIORITY_MED PRIORITY_HIGH C cur] ok obtain t where
      t: "promote (int c) PRIORITY_MED PRIORITY_HIGH ?s = Some (?s\<lparr>queuetab := t\<rparr>)"
        "kern_shape (?s\<lparr>queuetab := t\<rparr>) ?Q" by (auto simp: prio_consts)
    have "procs_ok C (proctab s) cur ?Q" using ok procs_ok_move[OF ok _ c, of 1 2] sh by (simp add: kern_shape_def)
    from age_low_ok[OF t(2) c, of C cur] this obtain u where
      u: "age_low (int c) (?s\<lparr>queuetab := t\<rparr>) = Some (?s\<lparr>queuetab := u, promote_low := (promote_low s)[c := l]\<rparr>)"
        "kern_shape (?s\<lparr>queuetab := u, promote_low := (promote_low s)[c := l]\<rparr>) Q'"
      using a True by (auto simp: abs_age_def Let_def split: if_splits)
    have m: "m = QUANTUM" using a True by (auto simp: abs_age_def Let_def split: if_splits)
    let ?r = "s\<lparr>queuetab := u, promote_medium := ?pm[c := m], promote_low := (promote_low s)[c := l]\<rparr>"
    have "age (int c) s = Some ?r" using g True t(1) u(1) len c m by (simp add: age_def aset_def)
    moreover have "kern_shape ?r Q'" using kern_shape_low(2)[OF u(2), of "?pm[c := m]"] len by (simp add: proc_field_commute)
    ultimately show ?thesis by blast
  next
    case False
    then have "m = ?pm ! c - 1" "l = promote_low s ! c" "Q' = Q" using a by (auto simp: abs_age_def)
    then show ?thesis using False g kern_shape_low(2)[OF sh, of "?pm[c := ?pm ! c - 1]"] len
      by (intro exI[of _ "queuetab s"]) (simp add: age_def)
  qed
qed

lemma procs_ok_age:
  assumes "procs_ok C P cur Q" and "length Q = 62" and "c < 4"
  shows "procs_ok C P cur (snd (snd (abs_age c m l Q)))"
  using assms by (auto simp: abs_age_def Let_def intro!: procs_ok_move)

section \<open>Taking the current process off and the next one on\<close>

abbreviation others :: "nat \<Rightarrow> nat set" where "others c \<equiv> {..<4} - {c}"

lemma pid_okD: "queues_rep s Q \<Longrightarrow> pid_ok pid \<Longrightarrow> inb (proctab s) pid \<and> 0 \<le> pid \<and> pid < NPROC"
  using proc_inb(2) by (auto simp: pid_ok_def)

lemma at_state_upd:
  assumes "length P = nat NPROC" and "pid_ok x" and "pid_ok y"
  shows "at (P[nat x := v]) y = (if y = x then v else at P y)"
  using assms by (auto simp: pid_ok_def NPROC_def nth_list_update)

lemma rset_push:
  assumes "length Q = 62" and "c < 4" and "j < 3" and "d < 4"
  shows "rset (Q[rq c j := Q ! rq c j @ [p]]) d = (if d = c then insert p (rset Q c) else rset Q d)"
proof -
  have "x \<in> set (Q[rq c j := Q ! rq c j @ [p]] ! rq d i) \<longleftrightarrow> x \<in> set (Q ! rq d i) \<or> (d = c \<and> i = j \<and> x = p)" if "i < 3" for x i
    using assms that rq_less[of c j] by (auto simp: nth_list_update rq_eq)
  then have "x \<in> rset (Q[rq c j := Q ! rq c j @ [p]]) d \<longleftrightarrow> x \<in> rset Q d \<or> (d = c \<and> x = p)" for x
    using assms(3) unfolding rset_mem by metis
  then show ?thesis by auto
qed

lemma rset_concat: "length Q = 62 \<Longrightarrow> c < 4 \<Longrightarrow> x \<in> rset Q c \<Longrightarrow> x \<in> set (concat Q)"
  using rq_less[of c] unfolding rset_mem by (metis UN_I nth_mem set_concat)

text \<open>A process that was current (or blocked and woken up) joins the ready set of its core.\<close>

lemma procs_ok_put:
  assumes ok: "procs_ok C P cur Q" and len: "length P = nat NPROC" "length Q = 62" and pid: "pid_ok pid"
    and c: "c < 4" "core_affinity v = int c" "p_state v = PRREADY" "0 \<le> priority v" "priority v < 3"
    and D: "D \<subseteq> C" "\<And>d. d \<in> D \<Longrightarrow> cur ! d \<noteq> pid" "\<And>d. d \<in> C - D \<Longrightarrow> cur ! d = pid"
    and nin: "pid \<notin> set (concat Q)" and j: "j < 3"
    and null: "pid < 4 \<Longrightarrow> pid = int c"
  shows "procs_ok D (P[nat pid := v]) cur (Q[rq c j := Q ! rq c j @ [pid]])"
proof -
  note U = at_state_upd[OF len(1) pid, of _ v] and R = rset_push[OF len(2) c(1) j, of _ pid]
  have n: "pid_ok (int d)" if "d < 4" for d using that by (auto simp: pid_ok_def NPROC_def)
  have m: "(Q[rq c j := Q ! rq c j @ [pid]]) ! i = Q ! i" if "i < 50" for i using that rq_ge[of c j] by simp
  have u0: "at (P[nat pid := v]) pid = v" using U[OF pid] by simp
  have u: "at (P[nat pid := v]) x = at P x" if "x \<noteq> pid" "0 \<le> x" for x using that pid by (simp add: pid_ok_def)
  show ?thesis
  proof (rule procs_okI)
    fix x assume x: "pid_ok x" "p_state (at (P[nat pid := v]) x) = PRREADY"
    then show "\<exists>d < 4. x \<in> rset (Q[rq c j := Q ! rq c j @ [pid]]) d"
    proof (cases "x = pid")
      case True
      then show ?thesis using c(1) R by auto
    next
      case False
      then obtain d where "d < 4" "x \<in> rset Q d" using procs_okD(1)[OF ok, of x] x U by auto
      then show ?thesis using R by (intro exI[of _ d]) auto
    qed
  next
    fix d x assume d: "d < 4" "x \<in> rset (Q[rq c j := Q ! rq c j @ [pid]]) d"
    then show "pid_ok x \<and> p_state (at (P[nat pid := v]) x) = PRREADY \<and> core_affinity (at (P[nat pid := v]) x) = int d"
      using procs_okD(2)[OF ok, of d x] pid c nin rset_concat[OF len(2), of d x]
      by (cases "x = pid") (auto simp: R U split: if_splits)
  next
    fix i x assume i: "i < 50" "x \<in> set ((Q[rq c j := Q ! rq c j @ [pid]]) ! i)"
    then have "x \<noteq> pid" using nin m[OF i(1)] len(2) nth_mem[of i Q] by auto
    then show "pid_ok x \<and> p_state (at (P[nat pid := v]) x) = PRSEND"
      using procs_okD(3)[OF ok i(1), of x] i(2) m[OF i(1)] U[of x] by auto
  next
    fix x assume "pid_ok x" "p_state (at (P[nat pid := v]) x) = PRCURR"
    then show "\<exists>d \<in> D. cur ! d = x" using procs_okD(4)[OF ok, of x] D c(3) by (cases "x = pid") (auto simp: U)
  next
    fix d assume "d \<in> D"
    then show "d < 4 \<and> pid_ok (cur ! d) \<and> core_affinity (at (P[nat pid := v]) (cur ! d)) = int d \<and>
        p_state (at (P[nat pid := v]) (cur ! d)) \<noteq> PRREADY"
      using procs_okD(5)[OF ok, of d] D(1) D(2)[of d] U[of "cur ! d"] by auto
  next
    fix x assume "pid_ok x" "p_state (at (P[nat pid := v]) x) \<noteq> PRFREE"
    then show "0 \<le> priority (at (P[nat pid := v]) x) \<and> priority (at (P[nat pid := v]) x) < 3 \<and>
        (core_affinity (at (P[nat pid := v]) x) = -1 \<and> p_state (at (P[nat pid := v]) x) = PRSUSP \<or>
         0 \<le> core_affinity (at (P[nat pid := v]) x) \<and> core_affinity (at (P[nat pid := v]) x) < 4)"
      using procs_okD(6)[OF ok, of x] c by (cases "x = pid") (auto simp: U)
  next
    fix d assume d: "d < (4::nat)"
    then show "p_state (at (P[nat pid := v]) (int d)) \<in> {PRCURR, PRREADY} \<and> core_affinity (at (P[nat pid := v]) (int d)) = int d"
      using procs_okD(7)[OF ok d] U[OF n[OF d]] c(2,3) null by auto
  qed
qed

text \<open>The null process of a core is always there to be picked.\<close>

lemma ready_nonempty:
  assumes ok: "procs_ok (others c) P cur Q" and c: "c < 4"
  shows "rset Q c \<noteq> {}"
proof -
  have n: "pid_ok (int c)" using c by (auto simp: pid_ok_def NPROC_def)
  note N = procs_okD(7)[OF ok c]
  have "p_state (at P (int c)) \<noteq> PRCURR"
  proof
    assume "p_state (at P (int c)) = PRCURR"
    then obtain d where "d \<in> others c" "cur ! d = int c" using procs_okD(4)[OF ok n] by blast
    then show False using procs_okD(5)[OF ok, of d] N by auto
  qed
  then obtain d where "d < 4" "int c \<in> rset Q d" using N procs_okD(1)[OF ok n] by auto
  then show ?thesis using procs_okD(2)[OF ok, of d "int c"] N by auto
qed

lemma distinct_concat_nth_distinct: "distinct (concat Q) \<Longrightarrow> k < length Q \<Longrightarrow> distinct (Q ! k)"
  by (induction Q arbitrary: k) (auto simp: nth_Cons split: nat.splits)

lemma rset_pop:
  assumes "length Q = 62" and "c < 4" and "j < 3" and "d < 4" and q: "Q ! rq c j = p # ps" and dist: "distinct (concat Q)"
  shows "rset (Q[rq c j := ps]) d = (if d = c then rset Q c - {p} else rset Q d)"
proof -
  have k: "rq c j < length Q" using assms rq_less by simp
  have p: "p \<notin> set ps" "\<And>i. i < length Q \<Longrightarrow> i \<noteq> rq c j \<Longrightarrow> p \<notin> set (Q ! i)"
    using distinct_concat_nth[OF dist, of "rq c j"] k q by (auto dest: distinct_concat_nth_distinct[OF dist])
  have e: "x \<in> set (Q[rq c j := ps] ! rq d i) \<longleftrightarrow> x \<in> set (Q ! rq d i) \<and> (d = c \<longrightarrow> x \<noteq> p)" if "i < 3" for x i
  proof (cases "d = c \<and> i = j")
    case True
    then show ?thesis using k q p(1) by auto
  next
    case False
    then have ne: "rq d i \<noteq> rq c j" using rq_eq[OF that assms(3)] by simp
    then have "p \<notin> set (Q ! rq d i)" using p(2)[of "rq d i"] rq_less[OF assms(4) that] assms(1) by simp
    then show ?thesis using ne by (simp add: nth_list_update_neq) (metis nth_list_update_neq)
  qed
  then have "x \<in> rset (Q[rq c j := ps]) d \<longleftrightarrow> x \<in> rset Q d \<and> (d = c \<longrightarrow> x \<noteq> p)" for x
    unfolding rset_mem by metis
  then show ?thesis by auto
qed


lemma procs_ok_take:
  assumes ok: "procs_ok (others c) P cur Q" and len: "length P = nat NPROC" "length Q = 62" "length cur = 4"
    and c: "c < 4" and j: "j < 3" and q: "Q ! rq c j = p # ps" and dist: "distinct (concat Q)"
  shows "procs_ok {..<4} (P[nat p := (at P p)\<lparr>p_state := PRCURR\<rparr>]) (cur[c := p]) (Q[rq c j := ps])"
proof -
  let ?P = "P[nat p := (at P p)\<lparr>p_state := PRCURR\<rparr>]"
  have pr: "p \<in> rset Q c" using q j by (auto simp: rset_mem)
  note PR = procs_okD(2)[OF ok c pr]
  then have pid: "pid_ok p" by blast
  note U = at_state_upd[OF len(1) pid] and R = rset_pop[OF len(2) c j _ q dist]
  have n: "pid_ok (int d)" if "d < 4" for d using that by (auto simp: pid_ok_def NPROC_def)
  have m: "(Q[rq c j := ps]) ! i = Q ! i" if "i < 50" for i using that rq_ge[of c j] by simp
  have cd: "cur ! d \<noteq> p" if "d \<in> others c" for d using procs_okD(5)[OF ok that] PR by auto
  show ?thesis
  proof (rule procs_okI)
    fix x assume x: "pid_ok x" "p_state (at ?P x) = PRREADY"
    then have "x \<noteq> p" "p_state (at P x) = PRREADY" using U by (auto split: if_splits)
    then obtain d where "d < 4" "x \<in> rset Q d" using procs_okD(1)[OF ok x(1)] by auto
    then show "\<exists>d < 4. x \<in> rset (Q[rq c j := ps]) d" using R \<open>x \<noteq> p\<close> by auto
  next
    fix d x assume d: "d < 4" "x \<in> rset (Q[rq c j := ps]) d"
    then have "x \<in> rset Q d" "x \<noteq> p" using R[OF d(1)] PR procs_okD(2)[OF ok d(1), of x] by (auto split: if_splits)
    then show "pid_ok x \<and> p_state (at ?P x) = PRREADY \<and> core_affinity (at ?P x) = int d"
      using procs_okD(2)[OF ok d(1), of x] U by auto
  next
    fix i x assume i: "i < 50" "x \<in> set ((Q[rq c j := ps]) ! i)"
    then have "pid_ok x \<and> p_state (at P x) = PRSEND" using procs_okD(3)[OF ok i(1), of x] m[OF i(1)] by simp
    moreover then have "x \<noteq> p" using PR by auto
    ultimately show "pid_ok x \<and> p_state (at ?P x) = PRSEND" using U by auto
  next
    fix x assume x: "pid_ok x" "p_state (at ?P x) = PRCURR"
    show "\<exists>d \<in> {..<4}. cur[c := p] ! d = x"
    proof (cases "x = p")
      case True
      then show ?thesis using c len(3) by (intro bexI[of _ c]) auto
    next
      case False
      then obtain d where "d \<in> others c" "cur ! d = x" using procs_okD(4)[OF ok x(1)] x U by auto
      then show ?thesis by (intro bexI[of _ d]) auto
    qed
  next
    fix d :: nat assume d: "d \<in> {..<4}"
    show "d < 4 \<and> pid_ok (cur[c := p] ! d) \<and> core_affinity (at ?P (cur[c := p] ! d)) = int d \<and> p_state (at ?P (cur[c := p] ! d)) \<noteq> PRREADY"
    proof (cases "d = c")
      case True
      then show ?thesis using d len(3) pid PR U[OF pid] by simp
    next
      case False
      then have "d \<in> others c" using d by simp
      then show ?thesis using False d procs_okD(5)[OF ok \<open>d \<in> others c\<close>] cd U[of "cur ! d"] by auto
    qed
  next
    fix x assume "pid_ok x" "p_state (at ?P x) \<noteq> PRFREE"
    then show "0 \<le> priority (at ?P x) \<and> priority (at ?P x) < 3 \<and> (core_affinity (at ?P x) = -1 \<and> p_state (at ?P x) = PRSUSP \<or>
         0 \<le> core_affinity (at ?P x) \<and> core_affinity (at ?P x) < 4)"
      using procs_okD(6)[OF ok, of x] PR U[of x] c by (cases "x = p") auto
  next
    fix d assume d: "d < (4::nat)"
    then show "p_state (at ?P (int d)) \<in> {PRCURR, PRREADY} \<and> core_affinity (at ?P (int d)) = int d"
      using procs_okD(7)[OF ok d] U[OF n[OF d]] by auto
  qed
qed

lemma procs_ok_drop:
  assumes ok: "procs_ok {..<4} P cur Q" and "p_state (at P (cur ! c)) \<noteq> PRCURR"
  shows "procs_ok (others c) P cur Q"
  apply (rule procs_okI)
  subgoal using procs_okD(1)[OF ok] by blast
  subgoal using procs_okD(2)[OF ok] by blast
  subgoal using procs_okD(3)[OF ok] by blast
  subgoal for pid using procs_okD(4)[OF ok, of pid] assms(2) by auto
  subgoal for d using procs_okD(5)[OF ok, of d] by auto
  subgoal using procs_okD(6)[OF ok] by blast
  subgoal using procs_okD(7)[OF ok] by blast
  done

definition abs_put :: "nat \<Rightarrow> bool \<Rightarrow> int \<Rightarrow> int \<Rightarrow> int list list \<Rightarrow> int list list" where
  "abs_put c running prio pid Q = (if running then Q[rq c (nat prio) := Q ! rq c (nat prio) @ [pid]] else Q)"

lemma kern_shape_proctab:
  assumes "kern_shape s Q" and "length P = length (proctab s)" and "\<forall>p \<in> set P. length (regs p) = 16"
  shows "kern_shape (s\<lparr>proctab := P\<rparr>) Q"
  using assms by (auto simp: kern_shape_def queues_rep_def proctab_wf_def lock_idle_def)

lemma kern_shape_pcb:
  assumes "kern_shape s Q" and "length (regs v) = 16"
  shows "kern_shape (s\<lparr>proctab := (proctab s)[i := v]\<rparr>) Q"
  using assms by (intro kern_shape_proctab) (auto simp: kern_shape_def dest!: set_update_subset_insert[THEN subsetD])

lemma kern_shape_proc:
  assumes "kern_shape s Q" and "pid_ok pid"
  shows "inb (proctab s) pid" "length (proctab s) = nat NPROC" "length (regs (at (proctab s) pid)) = 16"
proof -
  show ib: "inb (proctab s) pid" using pid_okD[of s Q pid] assms by (auto simp: kern_shape_def)
  show "length (proctab s) = nat NPROC" using assms by (simp add: kern_shape_def queues_rep_def proctab_wf_def)
  show "length (regs (at (proctab s) pid)) = 16" using assms(1) at_in_set[OF ib] by (simp add: kern_shape_def)
qed

lemma current_not_queued:
  assumes ok: "procs_ok C P cur Q" and "length Q = 62" and "pid_ok pid" and "p_state (at P pid) \<notin> {PRREADY, PRSEND}"
  shows "pid \<notin> set (concat Q)"
proof
  assume "pid \<in> set (concat Q)"
  then obtain i where i: "i < 62" "pid \<in> set (Q ! i)" using assms(2) unfolding set_concat by (metis UN_E in_set_conv_nth)
  show False
  proof (cases "i < 50")
    case True
    then show False using procs_okD(3)[OF ok True i(2)] assms(4) by simp
  next
    case False
    define c j where "c = (i - 50) div 3" and "j = (i - 50) mod 3"
    have "i = rq c j" "c < 4" "j < 3" using False i(1) by (auto simp: rq_def c_def j_def less_mult_imp_div_less)
    then have "pid \<in> rset Q c" using i(2) by (auto simp: rset_mem)
    then show False using procs_okD(2)[OF ok \<open>c < 4\<close>] assms(4) by auto
  qed
qed

lemma aget_int: "k < length xs \<Longrightarrow> aget xs (int k) = Some (xs ! k)"
  by (simp add: aget_def)

lemma aset_int: "k < length xs \<Longrightarrow> aset xs (int k) v = Some (xs[k := v])"
  by (simp add: aset_def)

text \<open>The current processes of different cores are different, and a null process stays on its core.\<close>

lemma current_distinct:
  assumes ok: "procs_ok C P cur Q" and "d \<in> C" and "core_affinity (at P pid) = int c" and "d \<noteq> c"
  shows "cur ! d \<noteq> pid"
  using procs_okD(5)[OF ok assms(2)] assms(3,4) by auto

lemma null_home:
  assumes ok: "procs_ok C P cur Q" and "core_affinity (at P pid) = int c" and "0 \<le> pid" and "pid < 4"
  shows "pid = int c"
  using procs_okD(7)[OF ok, of "nat pid"] assms(2-4) by simp

definition requeued :: "pcb \<Rightarrow> pcb" where
  "requeued p = (if p_state p = PRCURR then p\<lparr>p_state := PRREADY\<rparr> else p)"

lemma requeue_ok:
  fixes s :: "'a procst_scheme"
  assumes sh: "kern_shape s Q" and c: "c < 4" and ok0: "procs_ok {..<4} P cur Q"
    and s: "proctab s = P" "currpid s = cur" "cur ! c = old" "at P old = p"
  defines "Q' \<equiv> abs_put c (p_state p = PRCURR) (priority p) old Q"
  shows "\<exists>t. requeue_current (int c) old s = Some (s\<lparr>proctab := P[nat old := requeued p], queuetab := t\<rparr>) \<and>
    kern_shape (s\<lparr>proctab := P[nat old := requeued p], queuetab := t\<rparr>) Q' \<and> procs_ok (others c) (P[nat old := requeued p]) cur Q'"
proof -
  note old_def = s(3)[folded s(2), symmetric] and p_def = s(4)[folded s(1), symmetric]
  note ok = ok0[folded s(1,2)]
  have CO: "pid_ok old" "core_affinity p = int c" "p_state p \<noteq> PRREADY"
    using procs_okD(5)[OF ok, of c] c by (auto simp: old_def p_def)
  note ib = kern_shape_proc[OF sh CO(1)]
  have Q: "length Q = 62" using sh by (simp add: kern_shape_def)
  show ?thesis
  proof (cases "p_state p = PRCURR")
    case False
    have "P[nat old := p] = P" using s(4) by auto
    moreover have "kern_shape (s\<lparr>proctab := P\<rparr>) Q" using sh by (simp flip: s(1))
    ultimately show ?thesis using False ib sh procs_ok_drop[OF ok, of c] unfolding Q'_def
      by (intro exI[of _ "queuetab s"]) (simp add: requeue_current_def abs_put_def requeued_def s)
  next
    case True
    let ?v = "p\<lparr>p_state := PRREADY\<rparr>"
    let ?s = "s\<lparr>proctab := (proctab s)[nat old := ?v]\<rparr>" and ?k = "rq c (nat (priority p))"
    have sh1: "kern_shape ?s Q" using kern_shape_pcb[OF sh] ib(3) by (simp add: p_def)
    have pr: "0 \<le> priority p" "priority p < 3" using procs_okD(6)[OF ok CO(1)] True by (auto simp: p_def)
    then have k: "?k < 62" "nat (priority p) < 3" using rq_less[OF c] by auto
    have nin: "old \<notin> set (concat Q)" using current_not_queued[OF ok Q CO(1)] True by (simp add: p_def)
    have st: "p_state (pcb_of ?s old) \<noteq> PRFREE" using ib(1) by simp
    have rep: "queues_rep ?s Q" using sh1 by (simp add: kern_shape_def)
    have k1: "?k < length Q" using k(1) Q by simp
    from enqueue_rep[OF rep k1 _ _ st nin, of "int c"] CO(1) obtain t where
      t: "enqueue (int c) old (qid ?k) ?s = Some (old, ?s\<lparr>queuetab := t\<rparr>)"
        "queues_rep (?s\<lparr>queuetab := t\<rparr>) (Q[?k := Q ! ?k @ [old]])" by (auto simp: pid_ok_def)
    have "readyq (int c) (priority p) ?s = Some (qid ?k)" using readyq_ok[OF sh1 c pr] .
    then have "requeue_current (int c) old s = Some (?s\<lparr>queuetab := t\<rparr>)"
      using True t(1) ib c kern_shapeD(3)[OF sh] by (simp add: requeue_current_def aget_int s)
    moreover have "kern_shape (?s\<lparr>queuetab := t\<rparr>) Q'"
      using kern_shape_queuetab[OF sh1 t(2)] True by (simp add: Q'_def abs_put_def)
    moreover have "procs_ok (others c) (proctab ?s) (currpid s) Q'"
    proof -
      have "currpid s ! d \<noteq> old" if "d \<in> others c" for d
        using current_distinct[OF ok, of d old c] that CO(2) by (simp add: p_def)
      moreover have "old = int c" if "old < 4"
        using null_home[OF ok, of old c] CO that by (simp add: p_def pid_ok_def)
      ultimately have "procs_ok (others c) ((proctab s)[nat old := ?v]) (currpid s) (Q[?k := Q ! ?k @ [old]])"
        using CO pr nin k(2) c Q ib(2) by (intro procs_ok_put[OF ok]) (auto simp: old_def)
      then show ?thesis using True by (simp add: Q'_def abs_put_def)
    qed
    ultimately show ?thesis using True by (intro exI[of _ t]) (simp add: requeued_def s)
  qed
qed

section \<open>The context switch\<close>

lemma copy_regs_ok:
  assumes "\<forall>i \<in> set is. i < length src \<and> i < length dst"
  shows "\<exists>d. copy_regs is src dst = Some d \<and> length d = length dst \<and>
    (\<forall>k < length dst. d ! k = (if k \<in> set is then src ! k else dst ! k))"
  using assms
proof (induction "is" arbitrary: dst)
  case Nil
  then show ?case by simp
next
  case (Cons i "is")
  from Cons.IH[of "dst[i := src ! i]"] Cons.prems obtain d where
    "copy_regs is src (dst[i := src ! i]) = Some d" "length d = length dst"
    "\<forall>k < length dst. d ! k = (if k \<in> set is then src ! k else dst[i := src ! i] ! k)" by auto
  then show ?case using Cons.prems by (auto simp: aget_int aset_int nth_list_update)
qed

definition save_regs :: "u32 list \<Rightarrow> u32 list \<Rightarrow> u32 list" where
  "save_regs r rs = map (\<lambda>i. if i = 12 then rs ! 12 else if i = PREG_PC then r ! PREG_LR else r ! i) [0..<16]"

definition load_regs :: "u32 list \<Rightarrow> u32 list \<Rightarrow> u32 list" where
  "load_regs rs r = map (\<lambda>i. if i = 12 then r ! 12 else rs ! i) [0..<16]"

lemma reg_lengths [simp]: "length (save_regs r rs) = 16" "length (load_regs rs r) = 16"
  by (simp_all add: save_regs_def load_regs_def)

lemma ctxsw_ok:
  assumes "inb (proctab s) old" and "inb (proctab s) new" and "c < length (cpu s)"
    and len: "length (cpu s ! c) = 16" "length (regs (pcb_of s old)) = 16" "length (regs (pcb_of s new)) = 16"
  defines "P \<equiv> (proctab s)[nat old := (pcb_of s old)\<lparr>regs := save_regs (cpu s ! c) (regs (pcb_of s old))\<rparr>]"
  shows "ctxsw (int c) old new s = Some (s\<lparr>proctab := P, cpu := (cpu s)[c := load_regs (regs (at P new)) (cpu s ! c)]\<rparr>)"
proof -
  let ?r = "cpu s ! c" and ?o = "regs (pcb_of s old)"
  from copy_regs_ok[of "[0..<12]" ?r ?o] len obtain d where d: "copy_regs [0..<12] ?r ?o = Some d" "length d = 16"
    "\<forall>k < 16. d ! k = (if k < 12 then ?r ! k else ?o ! k)" by auto
  have sv: "d[PREG_LR := ?r ! PREG_LR, PREG_PC := ?r ! PREG_LR, PREG_SP := ?r ! PREG_SP] = save_regs ?r ?o" (is "?x = _")
  proof (rule nth_equalityI)
    fix k assume k: "k < length ?x"
    then have "k < 12 \<or> k = 12 \<or> k = 13 \<or> k = 14 \<or> k = 15" using d(2) by auto
    then show "?x ! k = save_regs ?r ?o ! k" using d by (auto simp: save_regs_def nth_list_update PREG_LR_def PREG_PC_def PREG_SP_def)
  qed (simp add: d(2))
  have P: "length (regs (at P new)) = 16" using len assms(1,2) by (cases "nat new = nat old") (auto simp: P_def)
  let ?is = "[0..<12] @ [PREG_SP, PREG_LR, PREG_PC]"
  from copy_regs_ok[of ?is "regs (at P new)" ?r] P len(1) obtain e where
    e: "copy_regs ?is (regs (at P new)) ?r = Some e" "length e = 16"
      "\<forall>k < 16. e ! k = (if k \<in> set ?is then regs (at P new) ! k else ?r ! k)"
    by (auto simp: PREG_LR_def PREG_PC_def PREG_SP_def)
  have "e = load_regs (regs (at P new)) ?r"
  proof (rule nth_equalityI)
    fix k assume k: "k < length e"
    then have "k < 12 \<or> k = 12 \<or> k = 13 \<or> k = 14 \<or> k = 15" using e(2) by auto
    then show "e ! k = load_regs (regs (at P new)) ?r ! k" using e by (auto simp: load_regs_def PREG_LR_def PREG_PC_def PREG_SP_def)
  qed (simp add: e(2))
  moreover have "inb P new" using assms(2) by (simp add: P_def)
  moreover have "PREG_SP < 16" "PREG_LR < 16" "PREG_PC < 16" by (simp_all add: PREG_LR_def PREG_PC_def PREG_SP_def)
  ultimately show ?thesis using assms(1,3) len d(1,2) e(1)
    by (simp add: ctxsw_def aget_int aset_int sv P_def[symmetric])
qed

section \<open>Rescheduling as a step of an abstract scheduler\<close>

text \<open>
  The scheduler of one core, seen from outside: three first-in first-out lists, the running
  process and the two counters of the aging.
\<close>

record vcore =
  vhigh :: "int list"
  vmed :: "int list"
  vlow :: "int list"
  vrun :: int
  vpm :: u32
  vpl :: u32

definition v_age_low :: "vcore \<Rightarrow> vcore" where
  "v_age_low v =
     (if vpl v = 1
      then (case vlow v of [] \<Rightarrow> v | p # ps \<Rightarrow> v\<lparr>vlow := ps, vmed := vmed v @ [p]\<rparr>)\<lparr>vpl := QUANTUM\<rparr>
      else v\<lparr>vpl := vpl v - 1\<rparr>)"

definition v_age :: "vcore \<Rightarrow> vcore" where
  "v_age v =
     (if vpm v = 1
      then (v_age_low (case vmed v of [] \<Rightarrow> v | p # ps \<Rightarrow> v\<lparr>vmed := ps, vhigh := vhigh v @ [p]\<rparr>))\<lparr>vpm := QUANTUM\<rparr>
      else v\<lparr>vpm := vpm v - 1\<rparr>)"

definition v_put :: "int \<Rightarrow> vcore \<Rightarrow> vcore" where
  "v_put prio v =
     (if prio = PRIORITY_HIGH then v\<lparr>vhigh := vhigh v @ [vrun v]\<rparr>
      else if prio = PRIORITY_MED then v\<lparr>vmed := vmed v @ [vrun v]\<rparr>
      else v\<lparr>vlow := vlow v @ [vrun v]\<rparr>)"

definition v_take :: "vcore \<Rightarrow> vcore" where
  "v_take v =
     (case vhigh v of p # ps \<Rightarrow> v\<lparr>vrun := p, vhigh := ps\<rparr>
      | [] \<Rightarrow> (case vmed v of p # ps \<Rightarrow> v\<lparr>vrun := p, vmed := ps\<rparr>
        | [] \<Rightarrow> (case vlow v of p # ps \<Rightarrow> v\<lparr>vrun := p, vlow := ps\<rparr> | [] \<Rightarrow> v)))"

definition v_resched :: "bool \<Rightarrow> int \<Rightarrow> vcore \<Rightarrow> vcore" where
  "v_resched running prio v = v_take ((if running then v_put prio else id) (v_age v))"

definition core_of :: "int list list \<Rightarrow> int \<Rightarrow> u32 \<Rightarrow> u32 \<Rightarrow> nat \<Rightarrow> vcore" where
  "core_of Q pid m l c =
     \<lparr>vhigh = Q ! rq c 2, vmed = Q ! rq c 1, vlow = Q ! rq c 0, vrun = pid, vpm = m, vpl = l\<rparr>"

lemma rq_neq [simp]:
  "rq c 0 \<noteq> rq c 1" "rq c 0 \<noteq> rq c (Suc 0)" "rq c 0 \<noteq> rq c 2" "rq c 1 \<noteq> rq c 0" "rq c (Suc 0) \<noteq> rq c 0" "rq c 1 \<noteq> rq c 2"
  "rq c (Suc 0) \<noteq> rq c 2" "rq c 2 \<noteq> rq c 0" "rq c 2 \<noteq> rq c 1" "rq c 2 \<noteq> rq c (Suc 0)"
  by (simp_all add: rq_def)

lemma core_age:
  assumes "length Q = 62" and "c < 4" and "abs_age c m l Q = (m', l', Q')"
  shows "core_of Q' pid m' l' c = v_age (core_of Q pid m l c)"
    and "\<And>k. (\<forall>j < 3. k \<noteq> rq c j) \<Longrightarrow> Q' ! k = Q ! k" and "length Q' = 62"
proof -
  have k: "rq c 0 < length Q" "rq c (Suc 0) < length Q" "rq c 2 < length Q" using assms rq_less by auto
  show "core_of Q' pid m' l' c = v_age (core_of Q pid m l c)"
    using assms(3) k
    by (auto simp: core_of_def v_age_def v_age_low_def abs_age_def Let_def move_def split: list.splits if_splits)
  show "Q' ! k = Q ! k" if "\<forall>j < 3. k \<noteq> rq c j" for k
  proof -
    have "k \<noteq> rq c 0" "k \<noteq> rq c 1" "k \<noteq> rq c 2" using that by (auto dest: spec[of _ 0] spec[of _ 1] spec[of _ 2])
    then show ?thesis using assms(3) by (auto simp: abs_age_def Let_def move_other split: if_splits)
  qed
  show "length Q' = 62" using assms(1,3) by (auto simp: abs_age_def Let_def split: if_splits)
qed

lemma core_put:
  assumes "length Q = 62" and "c < 4" and pr: "running \<Longrightarrow> 0 \<le> prio \<and> prio < 3"
  shows "core_of (abs_put c running prio pid Q) pid m l c = (if running then v_put prio else id) (core_of Q pid m l c)"
    and "\<And>k. (\<forall>j < 3. k \<noteq> rq c j) \<Longrightarrow> abs_put c running prio pid Q ! k = Q ! k"
proof -
  have k: "rq c 0 < length Q" "rq c (Suc 0) < length Q" "rq c 2 < length Q" using assms rq_less by auto
  show "core_of (abs_put c running prio pid Q) pid m l c = (if running then v_put prio else id) (core_of Q pid m l c)"
  proof (cases running)
    case True
    consider "prio = 0" | "prio = 1" | "prio = 2" using pr[OF True] by linarith
    then show ?thesis by cases (use k True in \<open>auto simp: core_of_def abs_put_def v_put_def prio_consts\<close>)
  qed (simp add: abs_put_def)
  show "abs_put c running prio pid Q ! k = Q ! k" if "\<forall>j < 3. k \<noteq> rq c j" for k
  proof (cases running)
    case True
    then have "k \<noteq> rq c (nat prio)" using that pr by (auto dest: spec[of _ "nat prio"])
    then show ?thesis by (simp add: abs_put_def)
  qed (simp add: abs_put_def)
qed

text \<open>The list that is served: the highest one that is not empty.\<close>

definition top_prio :: "nat \<Rightarrow> int list list \<Rightarrow> nat" where
  "top_prio c Q = (if Q ! rq c 2 \<noteq> [] then 2 else if Q ! rq c 1 \<noteq> [] then 1 else 0)"

lemma core_take:
  assumes "length Q = 62" and "c < 4" and "Q ! rq c (top_prio c Q) = p # ps"
  shows "core_of (Q[rq c (top_prio c Q) := ps]) p m l c = v_take (core_of Q pid m l c)"
proof -
  have k: "rq c 0 < length Q" "rq c (Suc 0) < length Q" "rq c 2 < length Q" using assms rq_less by auto
  then show ?thesis using assms(3) by (auto simp: core_of_def v_take_def top_prio_def split: list.splits if_splits)
qed

lemma top_prio_nonempty: "rset Q c \<noteq> {} \<Longrightarrow> Q ! rq c (top_prio c Q) \<noteq> []"
  by (auto simp: rset_def top_prio_def)

lemma highest_prio_ok:
  assumes sh: "kern_shape s Q" and c: "c < 4"
  shows "highest_prio (int c) s = Some (int (top_prio c Q))"
proof -
  have R: "queues_rep s Q" "rq c 2 < length Q" "rq c 1 < length Q" using sh c rq_less by (auto simp: kern_shape_def)
  show ?thesis
    using readyq_ok[OF sh c, of 2] readyq_ok[OF sh c, of 1] nonempty_rep(1)[OF R(1,2)] nonempty_rep(1)[OF R(1,3)]
    by (simp add: highest_prio_def prio_consts top_prio_def)
qed

text \<open>The process table after a switch from \<open>old\<close> to \<open>new\<close>, with \<open>r\<close> the registers at the switch.\<close>

definition switch_tab :: "pcb list \<Rightarrow> int \<Rightarrow> int \<Rightarrow> u32 list \<Rightarrow> pcb list" where
  "switch_tab P old new r =
     (let P1 = P[nat old := requeued (at P old)];
          P2 = P1[nat new := (at P1 new)\<lparr>p_state := PRCURR\<rparr>]
      in P2[nat old := (at P2 old)\<lparr>regs := save_regs r (regs (at P2 old))\<rparr>])"

lemma switch_tab_at:
  assumes "inb P old" and "inb P new" and "inb P x"
  shows "at (switch_tab P old new r) x =
    (if x = new then (at P new)\<lparr>p_state := PRCURR, regs := if new = old then save_regs r (regs (at P old)) else regs (at P new)\<rparr>
     else if x = old then (requeued (at P old))\<lparr>regs := save_regs r (regs (at P old))\<rparr> else at P x)"
proof -
  have z: "0 \<le> old" "0 \<le> new" "0 \<le> x" using assms by (auto simp: inb_def)
  have "regs (requeued p) = regs p" "(requeued p)\<lparr>p_state := PRCURR\<rparr> = p\<lparr>p_state := PRCURR\<rparr>" for p
    by (simp_all add: requeued_def)
  then show ?thesis using assms z
    by (cases "x = new"; cases "x = old"; cases "new = old") (simp_all add: switch_tab_def Let_def)
qed

lemma procs_ok_switch_regs:
  assumes "procs_ok C (P[nat x := v]) cur Q" and "v' = v\<lparr>regs := rs\<rparr>" and "inb P x"
  shows "procs_ok C (P[nat x := v']) cur Q"
  using assms by (intro procs_ok_cong[of "P[nat x := v']" "P[nat x := v]"]) (auto simp: pid_ok_def nth_list_update inb_def)

lemma queues_rep_cong:
  assumes "queues_rep s Q" and "locktab s' = locktab s" and "queuetab s' = queuetab s" and "nextqueue s' = nextqueue s"
    and "length (proctab s') = length (proctab s)"
  shows "queues_rep s' Q"
  using assms by (auto simp: queues_rep_def proctab_wf_def lock_idle_def)

lemma kern_shape_switch:
  assumes "kern_shape (s\<lparr>queuetab := t\<rparr>) Q" and "length P = length (proctab s)" and "\<forall>p \<in> set P. length (regs p) = 16"
    and "length cu = 4" and "length pe = 4" and "length r = 16"
  shows "kern_shape (s\<lparr>queuetab := t, proctab := P, currpid := cu, preempt := pe, cpu := (cpu s)[c := r]\<rparr>) Q"
proof -
  have "\<forall>x \<in> set ((cpu s)[c := r]). length x = 16"
    using assms(1,6) by (auto simp: kern_shape_def dest!: set_update_subset_insert[THEN subsetD])
  moreover have "queues_rep (s\<lparr>queuetab := t, proctab := P, currpid := cu, preempt := pe, cpu := (cpu s)[c := r]\<rparr>) Q"
    by (rule queues_rep_cong[OF kern_shapeD(1)[OF assms(1)]]) (simp_all add: assms(2))
  ultimately show ?thesis using assms by (simp add: kern_shape_def)
qed

lemma pick_ok:
  fixes s :: "'a procst_scheme"
  assumes sh: "kern_shape s Q" and c: "c < 4" and ok: "procs_ok (others c) (proctab s) (currpid s) Q" and po: "pid_ok old"
  shows "\<exists>t new ps.
    let P1 = (proctab s)[nat new := (pcb_of s new)\<lparr>p_state := PRCURR\<rparr>];
        P = P1[nat old := (at P1 old)\<lparr>regs := save_regs (cpu s ! c) (regs (at P1 old))\<rparr>];
        s' = s\<lparr>queuetab := t, proctab := P, currpid := (currpid s)[c := new], preempt := (preempt s)[c := QUANTUM],
             cpu := (cpu s)[c := load_regs (regs (at P new)) (cpu s ! c)]\<rparr>
    in pick_next (int c) old s = Some s' \<and> Q ! rq c (top_prio c Q) = new # ps \<and> pid_ok new \<and>
      kern_shape s' (Q[rq c (top_prio c Q) := ps]) \<and> procs_ok {..<4} P ((currpid s)[c := new]) (Q[rq c (top_prio c Q) := ps])"
proof -
  note D = kern_shapeD[OF sh]
  let ?j = "top_prio c Q" and ?cur = "\<lambda>n. (currpid s)[c := n]" and ?pe = "(preempt s)[c := QUANTUM]"
  have j: "?j < 3" "rq c ?j < length Q" using rq_less[OF c, of ?j] D(2) by (auto simp: top_prio_def)
  obtain new ps where q: "Q ! rq c ?j = new # ps" using top_prio_nonempty[OF ready_nonempty[OF ok c]] by (meson neq_Nil_conv)
  let ?Q = "Q[rq c ?j := ps]"
  obtain t where C: "dequeue (int c) (qid (rq c ?j)) s = Some (new, s\<lparr>queuetab := t\<rparr>)" "queues_rep (s\<lparr>queuetab := t\<rparr>) ?Q"
    using dequeue_rep[OF D(1) j(2) q, of "int c"] by blast
  have "new \<in> rset Q c" unfolding rset_mem using q j(1) by (intro exI[of _ ?j]) simp
  then have pn: "pid_ok new" using procs_okD(2)[OF ok c] by blast
  note ibn = kern_shape_proc[OF sh pn] and ibo = kern_shape_proc[OF sh po]
  define P1 where "P1 = (proctab s)[nat new := (pcb_of s new)\<lparr>p_state := PRCURR\<rparr>]"
  define P where "P = P1[nat old := (at P1 old)\<lparr>regs := save_regs (cpu s ! c) (regs (at P1 old))\<rparr>]"
  have ok1: "procs_ok {..<4} P1 (?cur new) ?Q"
    using procs_ok_take[OF ok ibn(2) D(2,3) c j(1) q] D(1) by (simp add: P1_def queues_rep_def)
  have o1: "inb P1 old" "length (regs (at P1 old)) = 16" using ibn ibo by (cases "nat old = nat new"; simp add: P1_def)+
  have n1: "inb P1 new" "length (regs (at P1 new)) = 16" using ibn by (auto simp: P1_def)
  have ok2: "procs_ok {..<4} P (?cur new) ?Q"
    using procs_ok_switch_regs[of "{..<4}" P1 old "at P1 old" _ ?Q] ok1 o1(1) by (simp add: P_def)
  have sh1: "kern_shape (s\<lparr>queuetab := t\<rparr>) ?Q" using kern_shape_queuetab[OF sh C(2)] by simp
  let ?s1 = "s\<lparr>queuetab := t, currpid := ?cur new, proctab := P1, preempt := ?pe\<rparr>"
  have cp: "length (cpu s ! c) = 16" "c < length (cpu s)" using sh c nth_mem[of c "cpu s"] by (auto simp: kern_shape_def)
  have "ctxsw (int c) old new ?s1 = Some (?s1\<lparr>proctab := P, cpu := (cpu s)[c := load_regs (regs (at P new)) (cpu s ! c)]\<rparr>)"
    using ctxsw_ok[of ?s1 old new c] o1 n1 cp by (simp add: P_def)
  then have "pick_next (int c) old s = Some (s\<lparr>queuetab := t, proctab := P, currpid := ?cur new, preempt := ?pe,
      cpu := (cpu s)[c := load_regs (regs (at P new)) (cpu s ! c)]\<rparr>)" (is "_ = Some ?s'")
    using highest_prio_ok[OF sh c] readyq_ok[OF sh c, of "int ?j"] j(1) C(1) D c ibn(1)
    by (simp add: pick_next_def aset_int P1_def[symmetric])
  moreover have "kern_shape ?s' ?Q"
  proof -
    have "\<forall>p \<in> set P1. length (regs p) = 16" using sh ibn(3) unfolding P1_def kern_shape_def
      by (auto dest!: set_update_subset_insert[THEN subsetD])
    then have "\<forall>p \<in> set P. length (regs p) = 16" unfolding P_def by (auto dest!: set_update_subset_insert[THEN subsetD])
    moreover have "length P = length (proctab s)" by (simp add: P_def P1_def)
    ultimately show ?thesis using sh1 D c cp by (intro kern_shape_switch[OF sh1]) simp_all
  qed
  ultimately show ?thesis using q pn ok2
    by (intro exI[of _ t] exI[of _ new] exI[of _ ps]) (simp add: Let_def P_def P1_def)
qed


lemma rset_age:
  assumes "length Q = 62" and "c < 4" and "d < 4"
  shows "rset (snd (snd (abs_age c m l Q))) d = rset Q d"
  using assms by (simp add: abs_age_def Let_def rset_move)

lemma resched_ok:
  fixes s :: "'a procst_scheme"
  assumes sh: "kern_shape s Q" and c: "c < 4" and ok: "procs_ok {..<4} (proctab s) (currpid s) Q"
  defines "old \<equiv> currpid s ! c"
  shows "\<exists>t Q' new m l.
    let v = core_of Q old (promote_medium s ! c) (promote_low s ! c) c;
        P = switch_tab (proctab s) old new (cpu s ! c);
        s' = s\<lparr>promote_medium := (promote_medium s)[c := m], promote_low := (promote_low s)[c := l], queuetab := t,
             proctab := P, currpid := (currpid s)[c := new], preempt := (preempt s)[c := QUANTUM],
             cpu := (cpu s)[c := load_regs (regs (at P new)) (cpu s ! c)]\<rparr>
    in resched (int c) s = Some s' \<and> kern_shape s' Q' \<and> procs_ok {..<4} P ((currpid s)[c := new]) Q' \<and> pid_ok new \<and>
      core_of Q' new m l c = v_resched (p_state (pcb_of s old) = PRCURR) (priority (pcb_of s old)) v \<and>
      (\<forall>k. (\<forall>j < 3. k \<noteq> rq c j) \<longrightarrow> Q' ! k = Q ! k) \<and>
      (new \<in> rset Q c \<or> new = old \<and> p_state (pcb_of s old) = PRCURR)"
proof -
  note D = kern_shapeD[OF sh]
  let ?pm = "promote_medium s" and ?pl = "promote_low s" and ?p = "pcb_of s old"
  have po: "pid_ok old" using procs_okD(5)[OF ok, of c] c by (simp add: old_def)
  note ib = kern_shape_proc[OF sh po]
  obtain m l Q1 where a: "abs_age c (?pm ! c) (?pl ! c) Q = (m, l, Q1)" by (cases "abs_age c (?pm ! c) (?pl ! c) Q") auto
  let ?S1 = "\<lambda>t. s\<lparr>queuetab := t, promote_medium := ?pm[c := m], promote_low := ?pl[c := l]\<rparr>"
  from age_ok[OF sh c ok a] obtain t1 where A: "age (int c) s = Some (?S1 t1)" "kern_shape (?S1 t1) Q1" by blast
  have "procs_ok {..<4} (proctab s) (currpid s) Q1" using procs_ok_age[OF ok D(2) c, of "?pm ! c" "?pl ! c"] a by simp
  note R = requeue_ok[OF A(2) c this, of old ?p]
  let ?Q2 = "abs_put c (p_state ?p = PRCURR) (priority ?p) old Q1"
  let ?S2 = "\<lambda>t. (?S1 t1)\<lparr>proctab := (proctab s)[nat old := requeued ?p], queuetab := t\<rparr>"
  from R obtain t2 where B: "requeue_current (int c) old (?S1 t1) = Some (?S2 t2)" "kern_shape (?S2 t2) ?Q2"
      "procs_ok (others c) ((proctab s)[nat old := requeued ?p]) (currpid s) ?Q2"
    by (auto simp: old_def)
  have res: "resched (int c) s = pick_next (int c) old (?S2 t2)"
    using A(1) B(1) D(3) c by (simp add: resched_def aget_int old_def)
  let ?T = "\<lambda>n. switch_tab (proctab s) old n (cpu s ! c)"
  let ?S = "\<lambda>t n. s\<lparr>promote_medium := ?pm[c := m], promote_low := ?pl[c := l], queuetab := t,
       proctab := ?T n, currpid := (currpid s)[c := n], preempt := (preempt s)[c := QUANTUM],
       cpu := (cpu s)[c := load_regs (regs (at (?T n) n)) (cpu s ! c)]\<rparr>"
  let ?j = "top_prio c ?Q2"
  have "\<exists>t new ps. pick_next (int c) old (?S2 t2) = Some (?S t new) \<and> ?Q2 ! rq c ?j = new # ps \<and> pid_ok new \<and>
      kern_shape (?S t new) (?Q2[rq c ?j := ps]) \<and> procs_ok {..<4} (?T new) ((currpid s)[c := new]) (?Q2[rq c ?j := ps])"
    using pick_ok[OF B(2) c _ po] B(3) by (simp add: Let_def switch_tab_def)
  then obtain t new ps where C: "pick_next (int c) old (?S2 t2) = Some (?S t new)" "?Q2 ! rq c ?j = new # ps" "pid_ok new"
      "kern_shape (?S t new) (?Q2[rq c ?j := ps])" "procs_ok {..<4} (?T new) ((currpid s)[c := new]) (?Q2[rq c ?j := ps])" by blast
  let ?Q = "?Q2[rq c ?j := ps]"
  have v: "core_of ?Q new m l c = v_resched (p_state ?p = PRCURR) (priority ?p) (core_of Q old (?pm ! c) (?pl ! c) c)"
    and k: "\<And>k. \<forall>j < 3. k \<noteq> rq c j \<Longrightarrow> ?Q ! k = Q ! k"
  proof -
    have pr: "p_state ?p = PRCURR \<Longrightarrow> 0 \<le> priority ?p \<and> priority ?p < 3" using procs_okD(6)[OF ok po] by auto
    note ca = core_age[OF D(2) c a]
    have "length ?Q2 = 62" using B(2) by (simp add: kern_shape_def)
    then have "core_of ?Q new m l c = v_take (core_of ?Q2 old m l c)" using core_take[OF _ c C(2)] by blast
    then show "core_of ?Q new m l c = v_resched (p_state ?p = PRCURR) (priority ?p) (core_of Q old (?pm ! c) (?pl ! c) c)"
      using core_put(1)[OF ca(3) c, of "p_state ?p = PRCURR" "priority ?p" old m l] pr ca(1)[of old] by (simp add: v_resched_def)
    show "?Q ! k = Q ! k" if k: "\<forall>j < 3. k \<noteq> rq c j" for k
    proof -
      have "k \<noteq> rq c ?j" using k by (auto simp: top_prio_def)
      then show ?thesis using core_put(2)[OF ca(3) c, of "p_state ?p = PRCURR" "priority ?p" k old] k pr ca(2)[OF k] by simp
    qed
  qed
  have nr: "new \<in> rset ?Q2 c" unfolding rset_mem using C(2) by (intro exI[of _ ?j]) (simp add: top_prio_def)
  have r1: "rset Q1 c = rset Q c" "length Q1 = 62"
    using rset_age[OF D(2) c c, of "?pm ! c" "?pl ! c"] core_age(3)[OF D(2) c a] a by simp_all
  have n: "new \<in> rset Q c \<or> new = old \<and> p_state ?p = PRCURR"
  proof (cases "p_state ?p = PRCURR")
    case True
    then have "nat (priority ?p) < 3" using procs_okD(6)[OF ok po] by auto
    from rset_push[OF r1(2) c this c, of old] have "rset ?Q2 c = insert old (rset Q c)" using True r1(1) by (simp add: abs_put_def)
    then show ?thesis using nr True by blast
  next
    case False
    then show ?thesis using nr r1(1) by (simp add: abs_put_def)
  qed
  show ?thesis unfolding Let_def using res C v k n
    by (intro exI[of _ t] exI[of _ ?Q] exI[of _ new] exI[of _ m] exI[of _ l]) simp
qed

section \<open>Locks stay with their queues\<close>

lemma lock_acquire_frame: "lock_acquire c l s = Some (r, s') \<Longrightarrow> \<exists>t. s' = s\<lparr>locktab := t\<rparr>"
  by (auto simp: lock_acquire_def Let_def split: Option.bind_splits if_splits) (metis lockst.surjective lockst.update_convs(1))+

lemma lock_release_frame: "lock_release l s = Some (r, s') \<Longrightarrow> \<exists>t. s' = s\<lparr>locktab := t\<rparr>"
  by (auto simp: lock_release_def Let_def split: Option.bind_splits if_splits) (metis lockst.surjective lockst.update_convs(1))+

abbreviation qlocks :: "'a procst_scheme \<Rightarrow> u32 list" where
  "qlocks s \<equiv> map q_lock (queuetab s)"

lemma map_update_same: "i < length xs \<Longrightarrow> f v = f (xs ! i) \<Longrightarrow> map f (xs[i := v]) = map f xs"
  by (simp add: map_update list_update_same_conv)

lemma set_q_locks:
  "set_qnext i v s = Some s' \<Longrightarrow> qlocks s' = qlocks s"
  "set_qprev i v s = Some s' \<Longrightarrow> qlocks s' = qlocks s"
  by (auto simp: set_qnext_def set_qprev_def map_update_same aget_Some_iff aset_Some_iff split: Option.bind_splits)

lemma link_tail_locks: "link_tail p z s = Some s' \<Longrightarrow> qlocks s' = qlocks s"
  by (auto simp: link_tail_def set_q_locks split: Option.bind_splits)

lemma unlink_locks: "unlink p s = Some s' \<Longrightarrow> qlocks s' = qlocks s"
  by (auto simp: unlink_def set_q_locks split: Option.bind_splits)

lemma locked_locks:
  fixes s :: "'a procst_scheme"
  assumes "locked c l body s = Some (r, s')" and "\<And>(s :: 'a procst_scheme) r s'. body s = Some (r, s') \<Longrightarrow> qlocks s' = qlocks s"
  shows "qlocks s' = qlocks s"
proof -
  obtain s1 s2 where "lock_acquire c l s = Some (fst (the (lock_acquire c l s)), s1)" "body s1 = Some (r, s2)"
    "lock_release l s2 = Some (fst (the (lock_release l s2)), s')"
    using assms(1) by (auto simp: locked_def split: Option.bind_splits prod.splits)
  then show ?thesis using lock_acquire_frame[of c l s] lock_release_frame[of l s2] assms(2)[of s1 r s2] by fastforce
qed

lemma enqueue_locks: "enqueue c p q s = Some (r, s') \<Longrightarrow> qlocks s' = qlocks s"
  by (auto simp: enqueue_def Let_def split: Option.bind_splits if_splits
      elim!: locked_locks dest: link_tail_locks)

lemma dequeue_locks: "dequeue c q s = Some (r, s') \<Longrightarrow> qlocks s' = qlocks s"
  by (auto simp: dequeue_def Let_def split: Option.bind_splits if_splits
      elim!: locked_locks dest!: unlink_locks set_q_locks)

lemma remove_locks: "remove c p s = Some (r, s') \<Longrightarrow> qlocks s' = qlocks s"
  by (auto simp: remove_def Let_def split: Option.bind_splits if_splits prod.splits
      elim!: locked_locks dest: unlink_locks)

lemma ql_qlocks: "qlocks s' = qlocks s \<Longrightarrow> ql (queuetab s') = ql (queuetab s)"
proof
  fix i assume e: "qlocks s' = qlocks s"
  then have "length (queuetab s') = length (queuetab s)" using map_eq_imp_length_eq by blast
  then show "ql (queuetab s') i = ql (queuetab s) i"
    using arg_cong[OF e, of "\<lambda>l. l ! nat i"] by (auto simp: ql_def inb_def)
qed

section \<open>The invariant of the kernel\<close>

text \<open>
  Memory: the free lists are well formed, every process but the null processes owns its stack,
  and no two stacks and no stack and free block overlap.
\<close>

definition live :: "pcb list \<Rightarrow> int \<Rightarrow> bool" where
  "live P pid \<longleftrightarrow> pid_ok pid \<and> p_state (at P pid) \<noteq> PRFREE"

definition user :: "pcb list \<Rightarrow> int \<Rightarrow> bool" where
  "user P pid \<longleftrightarrow> live P pid \<and> 4 \<le> pid"

abbreviation stack_of :: "pcb list \<Rightarrow> int \<Rightarrow> u32 \<times> u32" where
  "stack_of P pid \<equiv> (stkbase (at P pid), stklen (at P pid))"

definition stacks_ok :: "'a procst_scheme \<Rightarrow> blk list list \<Rightarrow> bool" where
  "stacks_ok s F \<longleftrightarrow>
     heap_rep s F \<and>
     (\<forall>p. user (proctab s) p \<longrightarrow> in_layout (layout s) (stack_of (proctab s) p) \<and> blk_bytes (stack_of (proctab s) p) \<inter> avail F = {}) \<and>
     (\<forall>p q. user (proctab s) p \<and> user (proctab s) q \<and> p \<noteq> q \<longrightarrow>
        blk_bytes (stack_of (proctab s) p) \<inter> blk_bytes (stack_of (proctab s) q) = {})"

text \<open>Messages: every process has its queue, its flag and a lock of its own.\<close>

definition mbox :: "'a procst_scheme \<Rightarrow> int \<Rightarrow> pmessage" where
  "mbox s pid = msg_var (pcb_of s pid)"

definition boxes_ok :: "'a procst_scheme \<Rightarrow> bool" where
  "boxes_ok s \<longleftrightarrow>
     (\<forall>pid. pid_ok pid \<longrightarrow> msgqueue (mbox s pid) = qid (nat pid) \<and> lock_idle (core_com_lock (mbox s pid)) s \<and>
        (\<forall>k < 62. core_com_lock (mbox s pid) \<noteq> ql (queuetab s) (qhead k)) \<and> hasMessage (mbox s pid) \<in> {0, 1})"

definition counters_ok :: "'a procst_scheme \<Rightarrow> bool" where
  "counters_ok s \<longleftrightarrow>
     (\<forall>c < 4. promote_medium s ! c \<in> {1, 2, 3} \<and> promote_low s ! c \<in> {1, 2, 3}) \<and>
     0 \<le> nextpid s \<and> nextpid s < NPROC \<and> numproc s = int (card {pid. live (proctab s) pid}) \<and>
     (\<forall>p \<in> set (proctab s). length (p_name p) = PNMLEN)"

text \<open>\<open>kern_mid\<close> leaves open whether the current process of core \<open>c\<close> still runs: it is what
  \<^verbatim>\<open>resched\<close> needs. \<open>kern_inv\<close> is the invariant between calls.\<close>

definition kern_mid :: "nat \<Rightarrow> 'a procst_scheme \<Rightarrow> int list list \<Rightarrow> blk list list \<Rightarrow> bool" where
  "kern_mid c s Q F \<longleftrightarrow>
     kern_shape s Q \<and> procs_ok {..<4} (proctab s) (currpid s) Q \<and> stacks_ok s F \<and> boxes_ok s \<and> counters_ok s \<and>
     (\<forall>d < 4. d \<noteq> c \<longrightarrow> p_state (pcb_of s (currpid s ! d)) = PRCURR)"

definition kern_inv :: "'a procst_scheme \<Rightarrow> int list list \<Rightarrow> blk list list \<Rightarrow> bool" where
  "kern_inv s Q F \<longleftrightarrow> kern_mid 4 s Q F"

lemma kern_inv_mid: "kern_inv s Q F \<longleftrightarrow> kern_mid c s Q F \<and> (c < 4 \<longrightarrow> p_state (pcb_of s (currpid s ! c)) = PRCURR)"
  unfolding kern_inv_def kern_mid_def by (metis less_irrefl)

lemma kern_midD:
  assumes "kern_mid c s Q F"
  shows "kern_shape s Q" "procs_ok {..<4} (proctab s) (currpid s) Q" "stacks_ok s F" "boxes_ok s" "counters_ok s"
    "\<And>d. d < 4 \<Longrightarrow> d \<noteq> c \<Longrightarrow> p_state (pcb_of s (currpid s ! d)) = PRCURR"
  using assms by (auto simp: kern_mid_def)

text \<open>What a component of the invariant reads.\<close>

lemma heap_rep_cong:
  assumes "heap_rep s F" and "mem s' = mem s" and "freelist s' = freelist s" and "memheap s' = memheap s"
    and "maxaddr s' = maxaddr s" and "locktab s' = locktab s"
  shows "heap_rep s' F"
  using assms by (simp add: heap_rep_def flist_ok_def lock_idle_def region_def)

lemma stacks_ok_cong:
  assumes "stacks_ok s F" and "mem s' = mem s" "freelist s' = freelist s" "memheap s' = memheap s"
    "maxaddr s' = maxaddr s" "locktab s' = locktab s"
    and u: "\<And>p. user (proctab s') p \<Longrightarrow> user (proctab s) p \<and> stack_of (proctab s') p = stack_of (proctab s) p"
  shows "stacks_ok s' F"
proof -
  have "heap_rep s' F" using heap_rep_cong[of s F s'] assms by (simp add: stacks_ok_def)
  moreover have "layout s' = layout s" using assms by (simp add: layout_def)
  ultimately show ?thesis using assms(1) u unfolding stacks_ok_def by metis
qed

lemma boxes_ok_cong:
  assumes "boxes_ok s" and "locktab s' = locktab s" and "ql (queuetab s') = ql (queuetab s)"
    and "\<And>p. pid_ok p \<Longrightarrow> mbox s' p = mbox s p"
  shows "boxes_ok s'"
  using assms unfolding boxes_ok_def lock_idle_def by simp

lemma promote_locks: "promote c a b s = Some s' \<Longrightarrow> qlocks s' = qlocks s"
  by (auto simp: promote_def split: Option.bind_splits if_splits prod.splits dest!: enqueue_locks dequeue_locks)

lemma age_locks: "age c s = Some s' \<Longrightarrow> qlocks s' = qlocks s"
  by (auto simp: age_def age_low_def Let_def split: Option.bind_splits if_splits prod.splits dest!: promote_locks)

lemma upd_pcb_frame: "upd_pcb p f s = Some s' \<Longrightarrow> queuetab s' = queuetab s"
  by (auto simp: upd_pcb_def split: Option.bind_splits)

lemma requeue_locks: "requeue_current c old s = Some s' \<Longrightarrow> qlocks s' = qlocks s"
  by (auto simp: requeue_current_def split: Option.bind_splits if_splits prod.splits dest!: enqueue_locks upd_pcb_frame)

lemma ctxsw_frame: "ctxsw c old new s = Some s' \<Longrightarrow> queuetab s' = queuetab s"
  by (auto simp: ctxsw_def split: Option.bind_splits dest!: upd_pcb_frame)

lemma pick_locks: "pick_next c old s = Some s' \<Longrightarrow> qlocks s' = qlocks s"
  by (auto simp: pick_next_def Let_def split: Option.bind_splits prod.splits dest!: dequeue_locks upd_pcb_frame ctxsw_frame)

lemma resched_locks: "resched c s = Some s' \<Longrightarrow> qlocks s' = qlocks s"
  by (auto simp: resched_def split: Option.bind_splits dest!: age_locks requeue_locks pick_locks)

lemma v_counters:
  assumes "vpm v \<in> {1, 2, 3}" and "vpl v \<in> {1, 2, 3}"
  shows "vpm (v_resched b p v) \<in> {1, 2, 3}" and "vpl (v_resched b p v) \<in> {1, 2, 3}"
proof -
  have t: "vpm (v_take w) = vpm w" "vpl (v_take w) = vpl w" for w by (simp_all add: v_take_def split: list.split)
  have u: "vpm (v_put p w) = vpm w" "vpl (v_put p w) = vpl w" for w by (simp_all add: v_put_def)
  have "vpm (v_age v) \<in> {1, 2, 3}" using assms by (auto simp: v_age_def v_age_low_def QUANTUM_def split: list.split)
  then show "vpm (v_resched b p v) \<in> {1, 2, 3}" by (simp add: v_resched_def t u)
  have "vpl (v_age v) \<in> {1, 2, 3}" using assms by (auto simp: v_age_def v_age_low_def QUANTUM_def split: list.split)
  then show "vpl (v_resched b p v) \<in> {1, 2, 3}" by (simp add: v_resched_def t u)
qed

lemma switch_live:
  fixes r :: "u32 list"
  assumes "procs_ok C P cur Q" and "c < 4" and "new \<in> rset Q c \<or> new = old \<and> p_state (at P old) = PRCURR"
    and "length P = nat NPROC" and "pid_ok old" and "pid_ok new" and "pid_ok x"
  defines "P' \<equiv> switch_tab P old new r"
  shows "live P' x \<longleftrightarrow> live P x" and "stack_of P' x = stack_of P x" and "msg_var (at P' x) = msg_var (at P x)" and "p_name (at P' x) = p_name (at P x)"
proof -
  have "p_state (at P new) \<noteq> PRFREE" using procs_okD(2)[OF assms(1,2), of new] assms(3) by auto
  moreover have "inb P old" "inb P new" "inb P x" using assms(4-7) by (auto simp: pid_ok_def inb_def)
  ultimately show "live P' x \<longleftrightarrow> live P x" "stack_of P' x = stack_of P x" "msg_var (at P' x) = msg_var (at P x)" "p_name (at P' x) = p_name (at P x)"
    using switch_tab_at[of P old new x r] unfolding P'_def live_def by (auto simp: requeued_def)
qed


lemma switch_tab_length [simp]: "length (switch_tab P old new r) = length P"
  by (simp add: switch_tab_def Let_def)

text \<open>
  \<^verbatim>\<open>resched\<close> on core \<open>c\<close>, in every state that the kernel can call it in: it returns, restores
  the invariant, and the core's queues, running process and counters make one step of the
  abstract scheduler; the other queues and everything but the states and saved registers of
  the two processes are unchanged.
\<close>

lemma resched_mid:
  fixes s :: "'a procst_scheme"
  assumes inv: "kern_mid c s Q F" and c: "c < 4"
  defines "old \<equiv> currpid s ! c"
  shows "\<exists>t Q' new m l.
    let v = core_of Q old (promote_medium s ! c) (promote_low s ! c) c;
        P = switch_tab (proctab s) old new (cpu s ! c);
        s' = s\<lparr>promote_medium := (promote_medium s)[c := m], promote_low := (promote_low s)[c := l], queuetab := t,
             proctab := P, currpid := (currpid s)[c := new], preempt := (preempt s)[c := QUANTUM],
             cpu := (cpu s)[c := load_regs (regs (at P new)) (cpu s ! c)]\<rparr>
    in resched (int c) s = Some s' \<and> kern_inv s' Q' F \<and>
      core_of Q' new m l c = v_resched (p_state (pcb_of s old) = PRCURR) (priority (pcb_of s old)) v \<and>
      (\<forall>k. (\<forall>j < 3. k \<noteq> rq c j) \<longrightarrow> Q' ! k = Q ! k) \<and> pid_ok new \<and>
      (new \<in> rset Q c \<or> new = old \<and> p_state (pcb_of s old) = PRCURR)"
proof -
  note M = kern_midD[OF inv]
  note D = kern_shapeD[OF M(1)]
  let ?T = "\<lambda>n. switch_tab (proctab s) old n (cpu s ! c)"
  let ?S = "\<lambda>t n m l. s\<lparr>promote_medium := (promote_medium s)[c := m], promote_low := (promote_low s)[c := l], queuetab := t,
       proctab := ?T n, currpid := (currpid s)[c := n], preempt := (preempt s)[c := QUANTUM],
       cpu := (cpu s)[c := load_regs (regs (at (?T n) n)) (cpu s ! c)]\<rparr>"
  let ?v = "core_of Q old (promote_medium s ! c) (promote_low s ! c) c"
  let ?w = "v_resched (p_state (pcb_of s old) = PRCURR) (priority (pcb_of s old)) ?v"
  obtain t Q' new m l where R: "resched (int c) s = Some (?S t new m l)" "kern_shape (?S t new m l) Q'"
    "procs_ok {..<4} (?T new) ((currpid s)[c := new]) Q'" "pid_ok new" "core_of Q' new m l c = ?w"
    "\<forall>k. (\<forall>j < 3. k \<noteq> rq c j) \<longrightarrow> Q' ! k = Q ! k" "new \<in> rset Q c \<or> new = old \<and> p_state (pcb_of s old) = PRCURR"
    using resched_ok[OF M(1) c M(2)] unfolding Let_def old_def by blast
  let ?s = "?S t new m l"
  have po: "pid_ok old" using procs_okD(5)[OF M(2), of c] c by (simp add: old_def)
  note L = kern_shape_proc[OF M(1) po]
  note W = switch_live[OF M(2) c R(7) L(2) po R(4), of _ "cpu s ! c"]
  have lv: "live (?T new) x = live (proctab s) x" for x using W(1)[of x] by (auto simp: live_def)
  have "stack_of (?T new) x = stack_of (proctab s) x" if "live (proctab s) x" for x using W(2) that by (simp add: live_def)
  then have "stacks_ok ?s F" by (intro stacks_ok_cong[OF M(3)]) (simp_all add: user_def lv)
  moreover have "boxes_ok ?s"
    using ql_qlocks[OF resched_locks[OF R(1)]] by (intro boxes_ok_cong[OF M(4)]) (simp_all add: mbox_def W)
  moreover have "counters_ok ?s"
  proof -
    have "m \<in> {1, 2, 3}" "l \<in> {1, 2, 3}"
      using v_counters[of ?v "p_state (pcb_of s old) = PRCURR" "priority (pcb_of s old)"] M(5) c R(5)[symmetric]
      by (auto simp: core_of_def counters_ok_def)
    then have "\<forall>d < 4. (promote_medium s)[c := m] ! d \<in> {1, 2, 3} \<and> (promote_low s)[c := l] ! d \<in> {1, 2, 3}"
      using M(5) D(5,6) c by (simp add: nth_list_update counters_ok_def)
    moreover have "\<forall>p \<in> set (?T new). length (p_name p) = PNMLEN"
    proof
      fix p assume "p \<in> set (?T new)"
      then obtain i where i: "inb (?T new) i" "at (?T new) i = p" using in_set_at by metis
      then have "pid_ok i" "inb (proctab s) i" using L(2) by (auto simp: inb_def pid_ok_def NPROC_def)
      then show "length (p_name p) = PNMLEN" using i W(4)[of i] at_in_set[of "proctab s" i] M(5) by (simp add: counters_ok_def)
    qed
    ultimately show ?thesis using M(5) lv by (simp add: counters_ok_def)
  qed
  moreover have "p_state (at (?T new) ((currpid s)[c := new] ! d)) = PRCURR" if "d < 4" for d
  proof (cases "d = c")
    case True
    have "inb (proctab s) new" using R(4) kern_shape_proc(1)[OF M(1)] by blast
    then show ?thesis using True D(3) c switch_tab_at[OF L(1), of new new "cpu s ! c"] by simp
  next
    case False
    let ?x = "currpid s ! d"
    have x: "pid_ok ?x" "core_affinity (pcb_of s ?x) = int d" "p_state (pcb_of s ?x) = PRCURR"
      using procs_okD(5)[OF M(2), of d] M(6)[of d] that False by auto
    have "core_affinity (pcb_of s old) = int c" using procs_okD(5)[OF M(2), of c] c by (simp add: old_def)
    then have ne: "?x \<noteq> old" "?x \<noteq> new" using x False R(7) procs_okD(2)[OF M(2) c, of new] by auto
    have "inb (proctab s) ?x" "inb (proctab s) new" using x(1) R(4) kern_shape_proc(1)[OF M(1)] by blast+
    then show ?thesis using switch_tab_at[OF L(1), of new ?x "cpu s ! c"] ne x(3) False by simp
  qed
  ultimately have "kern_inv ?s Q' F" using R(2,3) by (simp add: kern_inv_def kern_mid_def)
  then show ?thesis unfolding Let_def using R
    by (intro exI[of _ t] exI[of _ Q'] exI[of _ new] exI[of _ m] exI[of _ l]) simp
qed

section \<open>No starvation\<close>

text \<open>
  \<open>waits v p n\<close>: process \<open>p\<close> is on one of the lists of \<open>v\<close>, and \<open>n\<close> bounds how long. The bound
  goes down with every reschedule: on the high list by its position, on the medium list three
  reschedules per position, on the low list nine.
\<close>

definition vsize :: "vcore \<Rightarrow> nat" where
  "vsize v = length (vhigh v) + length (vmed v) + length (vlow v) + 1"

definition waits :: "vcore \<Rightarrow> int \<Rightarrow> nat \<Rightarrow> bool" where
  "waits v p n \<longleftrightarrow>
     (\<exists>xs ys. vhigh v = xs @ p # ys \<and> n = length xs) \<or>
     (\<exists>xs ys. vmed v = xs @ p # ys \<and> n = vsize v + 3 * length xs + unat (vpm v)) \<or>
     (\<exists>xs ys. vlow v = xs @ p # ys \<and>
        n = 4 * vsize v + 3 + 9 * length xs + 3 * (unat (vpl v) - 1) + unat (vpm v))"

definition v_step :: "(int \<Rightarrow> int) \<Rightarrow> vcore \<Rightarrow> vcore" where
  "v_step prio v = v_resched True (prio (vrun v)) v"

lemma vcounter_cases: "(x :: u32) \<in> {1, 2, 3} \<Longrightarrow> (x = 1 \<Longrightarrow> R) \<Longrightarrow> (x = 2 \<Longrightarrow> R) \<Longrightarrow> (x = 3 \<Longrightarrow> R) \<Longrightarrow> R"
  by blast

text \<open>The three stages of a reschedule and a process that waits.\<close>

lemma age_size: "vsize (v_age v) = vsize v"
  by (auto simp: v_age_def v_age_low_def vsize_def split: list.split)

lemma age_high: "vhigh v = xs @ p # ys \<Longrightarrow> \<exists>zs. vhigh (v_age v) = xs @ p # zs"
  by (auto simp: v_age_def v_age_low_def split: list.split)

lemma age_med:
  assumes "vmed v = xs @ p # ys"
  shows "if vpm v = 1
    then (case xs of [] \<Rightarrow> \<exists>zs. vhigh (v_age v) = vhigh v @ p # zs
            | x # xs' \<Rightarrow> \<exists>zs. vmed (v_age v) = xs' @ p # zs) \<and> vpm (v_age v) = QUANTUM
    else (\<exists>zs. vmed (v_age v) = xs @ p # zs) \<and> vpm (v_age v) = vpm v - 1"
  using assms by (cases xs) (auto simp: v_age_def v_age_low_def split: list.split)

lemma age_low:
  assumes "vlow v = xs @ p # ys"
  shows "if vpm v = 1
    then vpm (v_age v) = QUANTUM \<and>
      (if vpl v = 1
       then (case xs of [] \<Rightarrow> \<exists>zs. vmed (v_age v) = tl (vmed v) @ p # zs
               | x # xs' \<Rightarrow> \<exists>zs. vlow (v_age v) = xs' @ p # zs) \<and> vpl (v_age v) = QUANTUM
       else (\<exists>zs. vlow (v_age v) = xs @ p # zs) \<and> vpl (v_age v) = vpl v - 1)
    else (\<exists>zs. vlow (v_age v) = xs @ p # zs) \<and> vpm (v_age v) = vpm v - 1 \<and> vpl (v_age v) = vpl v"
  using assms by (cases xs) (auto simp: v_age_def v_age_low_def split: list.split)

lemma put_waits:
  shows "vhigh v = xs @ p # ys \<Longrightarrow> \<exists>zs. vhigh (v_put r v) = xs @ p # zs"
    and "vmed v = xs @ p # ys \<Longrightarrow> \<exists>zs. vmed (v_put r v) = xs @ p # zs"
    and "vlow v = xs @ p # ys \<Longrightarrow> \<exists>zs. vlow (v_put r v) = xs @ p # zs"
    and "vpm (v_put r v) = vpm v" and "vpl (v_put r v) = vpl v" and "vsize (v_put r v) = vsize v + 1"
  by (auto simp: v_put_def vsize_def)

lemma take_counters: "vpm (v_take v) = vpm v" "vpl (v_take v) = vpl v"
  by (simp_all add: v_take_def split: list.split)

lemma take_waits:
  shows "vhigh v = xs @ p # ys \<Longrightarrow> vrun (v_take v) = p \<or> (\<exists>x xs'. xs = x # xs' \<and> vhigh (v_take v) = xs' @ p # ys)"
    and "vmed v = xs @ p # ys \<Longrightarrow> vrun (v_take v) = p \<or> (\<exists>xs' zs. vmed (v_take v) = xs' @ p # zs \<and> length xs' \<le> length xs)"
    and "vlow v = xs @ p # ys \<Longrightarrow> vrun (v_take v) = p \<or> (\<exists>xs' zs. vlow (v_take v) = xs' @ p # zs \<and> length xs' \<le> length xs)"
proof -
  show "vhigh v = xs @ p # ys \<Longrightarrow> vrun (v_take v) = p \<or> (\<exists>x xs'. xs = x # xs' \<and> vhigh (v_take v) = xs' @ p # ys)"
    by (cases xs) (auto simp: v_take_def)
  show "vrun (v_take v) = p \<or> (\<exists>xs' zs. vmed (v_take v) = xs' @ p # zs \<and> length xs' \<le> length xs)" if m: "vmed v = xs @ p # ys"
  proof (cases "vhigh v")
    case Nil
    then show ?thesis using m by (cases xs) (auto simp: v_take_def)
  next
    case Cons
    then show ?thesis using m by (intro disjI2 exI[of _ xs] exI[of _ ys]) (simp add: v_take_def)
  qed
  show "vrun (v_take v) = p \<or> (\<exists>xs' zs. vlow (v_take v) = xs' @ p # zs \<and> length xs' \<le> length xs)" if l: "vlow v = xs @ p # ys"
  proof (cases "vhigh v = [] \<and> vmed v = []")
    case True
    then show ?thesis using l by (cases xs) (auto simp: v_take_def)
  next
    case False
    then have "vlow (v_take v) = vlow v" by (auto simp: v_take_def split: list.split)
    then show ?thesis using l by (intro disjI2 exI[of _ xs] exI[of _ ys]) simp
  qed
qed

lemma put_take_size: "vsize (v_take (v_put r v)) = vsize v"
  by (auto simp: v_take_def v_put_def vsize_def split: list.split dest: arg_cong[where f = length])

lemma step_counters:
  "vpm (v_step prio v) = vpm (v_age v)" "vpl (v_step prio v) = vpl (v_age v)" "vsize (v_step prio v) = vsize v"
  by (simp_all add: v_step_def v_resched_def take_counters put_waits put_take_size age_size)

lemma step_lists:
  shows "vhigh (v_age v) = xs @ p # ys \<Longrightarrow> vrun (v_step prio v) = p \<or> (\<exists>x xs' zs. xs = x # xs' \<and> vhigh (v_step prio v) = xs' @ p # zs)"
    and "vmed (v_age v) = xs @ p # ys \<Longrightarrow> vrun (v_step prio v) = p \<or> (\<exists>xs' zs. vmed (v_step prio v) = xs' @ p # zs \<and> length xs' \<le> length xs)"
    and "vlow (v_age v) = xs @ p # ys \<Longrightarrow> vrun (v_step prio v) = p \<or> (\<exists>xs' zs. vlow (v_step prio v) = xs' @ p # zs \<and> length xs' \<le> length xs)"
proof -
  let ?r = "prio (vrun v)"
  show "vrun (v_step prio v) = p \<or> (\<exists>x xs' zs. xs = x # xs' \<and> vhigh (v_step prio v) = xs' @ p # zs)" if "vhigh (v_age v) = xs @ p # ys"
    using put_waits(1)[OF that, of ?r] take_waits(1)[of "v_put ?r (v_age v)" xs p] by (auto simp: v_step_def v_resched_def)
  show "vrun (v_step prio v) = p \<or> (\<exists>xs' zs. vmed (v_step prio v) = xs' @ p # zs \<and> length xs' \<le> length xs)" if "vmed (v_age v) = xs @ p # ys"
    using put_waits(2)[OF that, of ?r] take_waits(2)[of "v_put ?r (v_age v)" xs p] by (auto simp: v_step_def v_resched_def)
  show "vrun (v_step prio v) = p \<or> (\<exists>xs' zs. vlow (v_step prio v) = xs' @ p # zs \<and> length xs' \<le> length xs)" if "vlow (v_age v) = xs @ p # ys"
    using put_waits(3)[OF that, of ?r] take_waits(3)[of "v_put ?r (v_age v)" xs p] by (auto simp: v_step_def v_resched_def)
qed

lemma waits_high: "vhigh v = xs @ p # ys \<Longrightarrow> waits v p (length xs)"
  by (auto simp: waits_def)

lemma waits_med: "vmed v = xs @ p # ys \<Longrightarrow> waits v p (vsize v + 3 * length xs + unat (vpm v))"
  by (auto simp: waits_def)

lemma waits_low: "vlow v = xs @ p # ys \<Longrightarrow> waits v p (4 * vsize v + 3 + 9 * length xs + 3 * (unat (vpl v) - 1) + unat (vpm v))"
  by (auto simp: waits_def)

lemma high_short: "vhigh v = xs @ p # ys \<Longrightarrow> length xs < vsize v"
  by (simp add: vsize_def)

lemma med_short: "vmed v = xs @ p # ys \<Longrightarrow> length xs < vsize v"
  by (simp add: vsize_def)


abbreviation sooner :: "vcore \<Rightarrow> int \<Rightarrow> nat \<Rightarrow> bool" where
  "sooner w p n \<equiv> vrun w = p \<or> (\<exists>k < n. waits w p k)"

lemma step_waits_high:
  assumes "vhigh v = xs @ p # ys"
  shows "sooner (v_step prio v) p (length xs)"
proof -
  obtain zs where "vhigh (v_age v) = xs @ p # zs" using age_high[OF assms] by blast
  from step_lists(1)[OF this, of prio] show ?thesis using waits_high[of "v_step prio v"] by auto
qed

lemma promoted_high:
  assumes "vhigh (v_age v) = xs @ p # ys"
  shows "sooner (v_step prio v) p (vsize v)"
proof (cases "vrun (v_step prio v) = p")
  case False
  then obtain x us zs where w: "xs = x # us" "vhigh (v_step prio v) = us @ p # zs" using step_lists(1)[OF assms, of prio] by auto
  then show ?thesis using high_short[OF assms] waits_high[OF w(2)] by (intro disjI2 exI[of _ "length us"]) (simp add: age_size)
qed simp

lemma step_waits_med:
  assumes m: "vmed v = xs @ p # ys" and c: "vpm v \<in> {1, 2, 3}"
  shows "sooner (v_step prio v) p (vsize v + 3 * length xs + unat (vpm v))" (is "sooner ?w p ?n")
proof (cases "vrun ?w = p")
  case False
  have med: "\<exists>k < ?n. waits ?w p k"
    if pr: "vmed (v_age v) = us @ p # vs" "3 * length us + unat (vpm (v_age v)) < 3 * length xs + unat (vpm v)" for us vs
  proof -
    obtain us' zs where "vmed ?w = us' @ p # zs" "length us' \<le> length us" using step_lists(2)[OF pr(1), of prio] False by auto
    with pr(2) waits_med[OF this(1)] show ?thesis by (intro exI[of _ "vsize ?w + 3 * length us' + unat (vpm ?w)"]) (simp add: step_counters)
  qed
  note A = age_med[OF m]
  show ?thesis
  proof (cases "vpm v = 1")
    case True
    show ?thesis
    proof (cases xs)
      case Nil
      then obtain zs where "vhigh (v_age v) = vhigh v @ p # zs" using A True by auto
      from promoted_high[OF this, of prio] False obtain k where "k < vsize v" "waits ?w p k" by blast
      then show ?thesis by (intro disjI2 exI[of _ k]) simp
    next
      case (Cons x us)
      then obtain zs where "vmed (v_age v) = us @ p # zs" "vpm (v_age v) = 3" using A True by (auto simp: QUANTUM_def)
      then show ?thesis using med Cons True by auto
    qed
  next
    case False
    then obtain zs where "vmed (v_age v) = xs @ p # zs" "vpm (v_age v) = vpm v - 1" using A by auto
    moreover have "unat (vpm v - 1) < unat (vpm v)" using c False by auto
    ultimately show ?thesis using med by auto
  qed
qed simp

lemma promoted_med:
  assumes "vmed (v_age v) = xs @ p # ys" and "vpm (v_age v) \<in> {1, 2, 3}"
  shows "sooner (v_step prio v) p (4 * vsize v + 1)"
proof (cases "vrun (v_step prio v) = p")
  case False
  then obtain us zs where w: "vmed (v_step prio v) = us @ p # zs" using step_lists(2)[OF assms(1), of prio] by auto
  have "unat (vpm (v_step prio v)) \<le> 3" using assms(2) by (auto simp: step_counters)
  then show ?thesis using waits_med[OF w] med_short[OF w]
    by (intro disjI2 exI[of _ "vsize (v_step prio v) + 3 * length us + unat (vpm (v_step prio v))"]) (simp add: step_counters)
qed simp

lemma step_waits_low:
  assumes l: "vlow v = xs @ p # ys" and c: "vpm v \<in> {1, 2, 3}" "vpl v \<in> {1, 2, 3}"
  shows "sooner (v_step prio v) p (4 * vsize v + 3 + 9 * length xs + 3 * (unat (vpl v) - 1) + unat (vpm v))" (is "sooner ?w p ?n")
proof (cases "vrun ?w = p")
  case False
  let ?m = "\<lambda>k u. 9 * k + 3 * (unat (vpl u) - 1) + unat (vpm u)"
  have low: "\<exists>k < ?n. waits ?w p k" if pr: "vlow (v_age v) = us @ p # vs" "?m (length us) (v_age v) < ?m (length xs) v" for us vs
  proof -
    obtain us' zs where "vlow ?w = us' @ p # zs" "length us' \<le> length us" using step_lists(3)[OF pr(1), of prio] False by auto
    with pr(2) waits_low[OF this(1)] show ?thesis
      by (intro exI[of _ "4 * vsize ?w + 3 + 9 * length us' + 3 * (unat (vpl ?w) - 1) + unat (vpm ?w)"]) (simp add: step_counters)
  qed
  note A = age_low[OF l]
  show ?thesis
  proof (cases "vpm v = 1 \<and> vpl v = 1")
    case True
    show ?thesis
    proof (cases xs)
      case Nil
      then obtain zs where "vmed (v_age v) = tl (vmed v) @ p # zs" "vpm (v_age v) = 3" using A True by (auto simp: QUANTUM_def)
      from promoted_med[OF this(1), of prio] this(2) False obtain k where "k < 4 * vsize v + 1" "waits ?w p k" by auto
      then show ?thesis by (intro disjI2 exI[of _ k]) simp
    next
      case (Cons x us)
      then obtain zs where "vlow (v_age v) = us @ p # zs" "vpm (v_age v) = 3" "vpl (v_age v) = 3" using A True by (auto simp: QUANTUM_def)
      then show ?thesis using low Cons True by auto
    qed
  next
    case no: False
    obtain zs where z: "vlow (v_age v) = xs @ p # zs" using A no by (auto split: if_splits)
    have "?m (length xs) (v_age v) < ?m (length xs) v"
    proof (cases "vpm v = 1")
      case True
      then have "vpl v = 2 \<or> vpl v = 3" "vpm (v_age v) = 3" "vpl (v_age v) = vpl v - 1" using A no c(2) by (auto simp: QUANTUM_def)
      then show ?thesis using True by auto
    next
      case False
      then have "vpm v = 2 \<or> vpm v = 3" "vpm (v_age v) = vpm v - 1" "vpl (v_age v) = vpl v" using A c(1) by auto
      then show ?thesis by auto
    qed
    then show ?thesis using low[OF z] by blast
  qed
qed simp

lemma step_waits:
  assumes "waits v p n" and "vpm v \<in> {1, 2, 3}" "vpl v \<in> {1, 2, 3}"
  shows "sooner (v_step prio v) p n"
  using assms(1) step_waits_high[of v _ p _ prio] step_waits_med[of v _ p _ prio] step_waits_low[of v _ p _ prio] assms(2,3)
  unfolding waits_def by blast

primrec resched_iter :: "nat \<Rightarrow> int \<Rightarrow> 'a procst_scheme \<Rightarrow> 'a procst_scheme option" where
  "resched_iter 0 c s = Some s"
| "resched_iter (Suc n) c s = do { s \<leftarrow> resched c s; resched_iter n c s }"

definition sched_view :: "'a procst_scheme \<Rightarrow> int list list \<Rightarrow> nat \<Rightarrow> vcore" where
  "sched_view s Q c = core_of Q (currpid s ! c) (promote_medium s ! c) (promote_low s ! c) c"

lemma resched_view:
  assumes inv: "kern_mid c s Q F" and c: "c < 4"
  shows "\<exists>s' Q'. resched (int c) s = Some s' \<and> kern_inv s' Q' F \<and>
    sched_view s' Q' c = v_resched (p_state (pcb_of s (currpid s ! c)) = PRCURR) (priority (pcb_of s (currpid s ! c))) (sched_view s Q c) \<and>
    (\<forall>k. (\<forall>j < 3. k \<noteq> rq c j) \<longrightarrow> Q' ! k = Q ! k) \<and> (\<forall>x. pid_ok x \<longrightarrow> mbox s' x = mbox s x) \<and>
    (\<forall>x. live (proctab s') x \<longleftrightarrow> live (proctab s) x)"
proof -
  let ?old = "currpid s ! c"
  let ?T = "\<lambda>n. switch_tab (proctab s) ?old n (cpu s ! c)"
  let ?S = "\<lambda>t n m l. s\<lparr>promote_medium := (promote_medium s)[c := m], promote_low := (promote_low s)[c := l], queuetab := t,
       proctab := ?T n, currpid := (currpid s)[c := n], preempt := (preempt s)[c := QUANTUM],
       cpu := (cpu s)[c := load_regs (regs (at (?T n) n)) (cpu s ! c)]\<rparr>"
  obtain t Q' new m l where R: "resched (int c) s = Some (?S t new m l)" "kern_inv (?S t new m l) Q' F"
    "core_of Q' new m l c = v_resched (p_state (pcb_of s ?old) = PRCURR) (priority (pcb_of s ?old)) (sched_view s Q c)"
    "\<forall>k. (\<forall>j < 3. k \<noteq> rq c j) \<longrightarrow> Q' ! k = Q ! k" "pid_ok new" "new \<in> rset Q c \<or> new = ?old \<and> p_state (pcb_of s ?old) = PRCURR"
    using resched_mid[OF inv c] unfolding Let_def sched_view_def by blast
  note M = kern_midD[OF inv]
  have po: "pid_ok ?old" using procs_okD(5)[OF M(2), of c] c by simp
  have "mbox (?S t new m l) x = mbox s x" if "pid_ok x" for x
    using switch_live(3)[OF M(2) c R(6) kern_shape_proc(2)[OF M(1) po] po R(5) that, of "cpu s ! c"] by (simp add: mbox_def)
  moreover have "live (proctab (?S t new m l)) x \<longleftrightarrow> live (proctab s) x" for x
    using switch_live(1)[OF M(2) c R(6) kern_shape_proc(2)[OF M(1) po] po R(5), of x "cpu s ! c"] by (cases "pid_ok x") (simp_all add: live_def)
  moreover have "sched_view (?S t new m l) Q' c = core_of Q' new m l c"
    using kern_shapeD[OF kern_midD(1)[OF inv]] c by (simp add: sched_view_def)
  ultimately show ?thesis using R(1-4) by (intro exI[of _ "?S t new m l"] exI[of _ Q']) simp
qed

lemma view_counters:
  assumes "kern_inv s Q F" and "c < 4"
  shows "vpm (sched_view s Q c) \<in> {1, 2, 3}" and "vpl (sched_view s Q c) \<in> {1, 2, 3}"
  using assms by (auto simp: kern_inv_def kern_mid_def counters_ok_def sched_view_def core_of_def)

lemma resched_iter_waits:
  assumes "kern_inv s Q F" and c: "c < 4" and "waits (sched_view s Q c) p n"
  shows "\<exists>k \<le> n + 1. \<exists>s' Q'. resched_iter k (int c) s = Some s' \<and> kern_inv s' Q' F \<and> currpid s' ! c = p"
  using assms(1,3)
proof (induction n arbitrary: s Q rule: less_induct)
  case (less n)
  from less.prems(1) have mid: "kern_mid c s Q F" "p_state (pcb_of s (currpid s ! c)) = PRCURR" using kern_inv_mid c by blast+
  from resched_view[OF mid(1) c] obtain s' Q' where r: "resched (int c) s = Some s'" "kern_inv s' Q' F"
    "sched_view s' Q' c = v_step (\<lambda>_. priority (pcb_of s (currpid s ! c))) (sched_view s Q c)"
    using mid(2) by (auto simp: v_step_def)
  from step_waits[OF less.prems(2) view_counters[OF less.prems(1) c], of "\<lambda>_. priority (pcb_of s (currpid s ! c))"]
  consider "vrun (sched_view s' Q' c) = p" | k where "k < n" "waits (sched_view s' Q' c) p k" using r(3) by auto
  then show ?case
  proof cases
    case 1
    then show ?thesis using r by (intro exI[of _ 1] conjI exI[of _ s'] exI[of _ Q']) (simp_all add: sched_view_def core_of_def)
  next
    case 2
    from less.IH[OF 2(1) r(2) 2(2)] obtain j s'' Q'' where
      j: "j \<le> k + 1" "resched_iter j (int c) s' = Some s''" "kern_inv s'' Q'' F" "currpid s'' ! c = p" by blast
    then show ?thesis using r(1) 2(1) by (intro exI[of _ "Suc j"] conjI exI[of _ s''] exI[of _ Q'']) simp_all
  qed
qed

lemma view_size:
  assumes inv: "kern_inv s Q F" and c: "c < 4"
  shows "vsize (sched_view s Q c) \<le> 50"
proof -
  note M = kern_midD[OF inv[unfolded kern_inv_def]]
  note D = kern_shapeD[OF M(1)]
  have dist: "distinct (concat Q)" using D(1) by (simp add: queues_rep_def)
  have k: "rq c 0 < length Q" "rq c 1 < length Q" "rq c 2 < length Q" using rq_less[OF c] D(2) by auto
  let ?l = "currpid s ! c # Q ! rq c 2 @ Q ! rq c 1 @ Q ! rq c 0"
  have st: "pid_ok (currpid s ! c)" "p_state (pcb_of s (currpid s ! c)) \<noteq> PRREADY" using procs_okD(5)[OF M(2), of c] c by auto
  have rs: "x \<in> rset Q c \<Longrightarrow> pid_ok x \<and> p_state (pcb_of s x) = PRREADY" for x using procs_okD(2)[OF M(2) c] by blast
  have "distinct ?l"
    using distinct_concat_nth[OF dist _ k(1) k(2)] distinct_concat_nth[OF dist _ k(1) k(3)] distinct_concat_nth[OF dist _ k(2) k(3)]
      distinct_concat_nth_distinct[OF dist] k st(2) rs[unfolded rset_def] by auto
  moreover have "set ?l \<subseteq> {0..<50}" using st(1) rs by (auto simp: rset_def pid_ok_def NPROC_def)
  ultimately have "length ?l \<le> card {0..<50::int}" by (metis card_mono distinct_card finite_atLeastLessThan_int)
  then show ?thesis by (simp add: vsize_def sched_view_def core_of_def)
qed

end
