(* ===== verification/Kernel_Example.thy ===== *)
theory Kernel_Example
  imports Sched_Invariant
begin

text \<open>
  A running system as one closed state: on core 0 the process 4 runs, the process 5 and the
  null process are ready, and the process 6 is blocked sending to process 4, which has a
  message already; the other cores run their null processes. It satisfies the invariant of the
  kernel, so the hypotheses of the theorems on the scheduler, on processes and on messages can
  be met together.
\<close>

definition ex_next :: "int \<Rightarrow> int" where
  "ex_next i =
     (if i = 58 then 6 else if i = 6 then 59 else if i = 150 then 0 else if i = 0 then 151
      else if i = 152 then 5 else if i = 5 then 153 else if 50 \<le> i \<and> even i then i + 1 else EMPTY)"

definition ex_prev :: "int \<Rightarrow> int" where
  "ex_prev i =
     (if i = 6 then 58 else if i = 59 then 6 else if i = 0 then 150 else if i = 151 then 0
      else if i = 5 then 152 else if i = 153 then 5 else if 50 \<le> i \<and> odd i then i - 1 else EMPTY)"

definition ex_state :: "int \<Rightarrow> int" where
  "ex_state i = (if i \<in> {1, 2, 3, 4} then PRCURR else if i \<in> {0, 5} then PRREADY else if i = 6 then PRSEND else PRFREE)"

definition ex_pcb :: "int \<Rightarrow> pcb" where
  "ex_pcb i = \<lparr>p_state = ex_state i, priority = (if i \<in> {4, 5, 6} then 1 else 0), stkbase = 0x100000 + 0x1000 * u32_of (i - 4),
     stklen = 4096, core_affinity = (if i \<in> {1, 2, 3} then i else 0), p_name = replicate 16 0, regs = replicate 16 (u32_of i),
     msg_var = \<lparr>hasMessage = (if i = 4 then 1 else 0), msgin = (if i = 4 then 66 else EMPTY), msgout = (if i = 6 then 77 else EMPTY),
       msgqueue = qid (nat i), core_com_lock = u32_of (62 + i)\<rparr>\<rparr>"

definition ex_head :: "int \<Rightarrow> memhead" where
  "ex_head c = (let len = (if c = 0 then 0xD000 else 0x10000) in
     \<lparr>mh_head = 0x100000 + 0x10000 * u32_of c + (0x10000 - len), mh_length = len, mh_base = 0x100000 + 0x10000 * u32_of c,
      mh_bound = 0x10000, mh_lock = u32_of (120 + c)\<rparr>)"

definition kern_ex :: procst where
  "kern_ex =
     \<lparr>locktab = replicate 150 \<lparr>lk_state = SPINLOCK_USED, lk_lock = SPINLOCK_UNLOCKED, lk_core = -1\<rparr>, nextlock = 149,
      mem = (\<lambda>a. 0)(0x103004 := 0xD000, 0x110004 := 0x10000, 0x120004 := 0x10000, 0x130004 := 0x10000),
      freelist = map ex_head [0, 1, 2, 3], memheap = 0x100000, maxaddr = 0x140000,
      proctab = map (\<lambda>i. ex_pcb (int i)) [0..<50],
      queuetab = map (\<lambda>i. \<lparr>q_next = ex_next (int i), q_prev = ex_prev (int i), q_lock = u32_of ((int i - 50) div 2)\<rparr>) [0..<174],
      nextqueue = 174, readylist = map (\<lambda>c. map (\<lambda>j. qid (rq c j)) [0..<3]) [0..<4], currpid = [4, 1, 2, 3], numproc = 7,
      nextpid = 6, preempt = [3, 3, 3, 3], promote_medium = [3, 3, 3, 3], promote_low = [3, 3, 3, 3],
      clkticks = [0, 0, 0, 0], clktime = [0, 0, 0, 0], cpu = replicate 4 (replicate 16 0)\<rparr>"

definition ex_queues :: "int list list" where
  "ex_queues = map (\<lambda>k. if k = 4 then [6] else if k = 50 then [0] else if k = 51 then [5] else []) [0..<62]"

definition ex_free :: "blk list list" where
  "ex_free = [[(0x103000, 0xD000)], [(0x110000, 0x10000)], [(0x120000, 0x10000)], [(0x130000, 0x10000)]]"

lemma ex_queue: "k < 62 \<Longrightarrow> ex_queues ! k = (if k = 4 then [6] else if k = 50 then [0] else if k = 51 then [5] else [])"
  by (simp add: ex_queues_def)

lemma ex_queue_members: "x \<in> set (concat ex_queues) \<Longrightarrow> x \<in> {6, 0, 5}"
  by (auto simp: ex_queues_def split: if_splits)

lemma ex_distinct: "distinct (concat ex_queues)"
  by (simp add: ex_queues_def upt_rec)

lemma ex_entries:
  assumes "0 \<le> i" and "i < 174"
  shows "qn (queuetab kern_ex) i = ex_next i" "qp (queuetab kern_ex) i = ex_prev i"
    "ql (queuetab kern_ex) i = u32_of ((i - 50) div 2)"
  using assms by (simp_all add: kern_ex_def qn_def qp_def ql_def inb_def nat_less_iff)

lemma ex_qhead: "k < 62 \<Longrightarrow> 50 \<le> qhead k \<and> qhead k < 173 \<and> even (qhead k) \<and> (qhead k - 50) div 2 = int k \<and> qhead k = 50 + 2 * int k"
  by (simp add: qhead_def NPROC_def)

lemma ex_queue_rep: "k < 62 \<Longrightarrow> queue_rep (queuetab kern_ex) (qhead k) (ex_queues ! k)"
  using ex_qhead[of k]
  by (auto simp: queue_rep_def nodes_def ex_queue ex_entries ex_next_def ex_prev_def EMPTY_def)

lemma uint_u32_of: "0 \<le> i \<Longrightarrow> i < 2 ^ 32 \<Longrightarrow> uint (u32_of i) = i"
  by (simp add: u32_of_def uint_word_of_int take_bit_int_eq_self)

lemma ex_lock: "0 \<le> l \<Longrightarrow> l < 150 \<Longrightarrow> lock_idle (u32_of l) kern_ex"
  using uint_u32_of[of l] by (auto simp: lock_idle_def kern_ex_def inb_def nat_less_iff)

lemma ex_queues_rep: "queues_rep kern_ex ex_queues"
proof -
  have "lock_idle (ql (queuetab kern_ex) (qhead k)) kern_ex" if "k < 62" for k
    using ex_qhead[OF that] ex_lock[of "int k"] that by (simp add: ex_entries)
  then show ?thesis
    using ex_distinct ex_queue_members ex_queue_rep
    unfolding queues_rep_def by (auto simp: ex_queues_def proctab_wf_def kern_ex_def qhead_def NPROC_def NQENT_def)
qed

lemma ex_pcb_of: "pid_ok pid \<Longrightarrow> pcb_of kern_ex pid = ex_pcb pid"
  by (auto simp: kern_ex_def pid_ok_def NPROC_def nat_less_iff)

lemma ex_shape: "kern_shape kern_ex ex_queues"
  using ex_queues_rep by (auto simp: kern_shape_def ex_queues_def kern_ex_def ex_pcb_def)

lemma ex_current: "c < 4 \<Longrightarrow> currpid kern_ex ! c = (if c = 0 then 4 else int c)"
  by (auto simp: kern_ex_def less_Suc_eq numeral_eq_Suc)


lemma ex_rset:
  assumes "c < 4"
  shows "rset ex_queues c = (if c = 0 then {0, 5} else {})"
  using assms by (auto simp: rset_def rq_def ex_queue)

lemma ex_states:
  "ex_state i = PRREADY \<longleftrightarrow> i = 0 \<or> i = 5" "ex_state i = PRCURR \<longleftrightarrow> i = 1 \<or> i = 2 \<or> i = 3 \<or> i = 4"
  "ex_state i = PRSEND \<longleftrightarrow> i = 6" "ex_state i = PRFREE \<longleftrightarrow> \<not> (0 \<le> i \<and> i \<le> 6)"
  unfolding ex_state_def pr_consts by (simp; arith)+

lemma ex_fields_of:
  assumes "pid_ok x"
  shows "p_state (pcb_of kern_ex x) = ex_state x" "core_affinity (pcb_of kern_ex x) = (if x \<in> {1, 2, 3} then x else 0)"
    "priority (pcb_of kern_ex x) = (if x \<in> {4, 5, 6} then 1 else 0)"
  using ex_pcb_of[OF assms] by (simp_all add: ex_pcb_def)

lemma ex_procs: "procs_ok {..<4} (proctab kern_ex) (currpid kern_ex) ex_queues"
proof (rule procs_okI)
  have small: "pid_ok x" if "0 \<le> x" "x \<le> 6" for x using that by (simp add: pid_ok_def NPROC_def)
  show "\<exists>c < 4. x \<in> rset ex_queues c" if "pid_ok x" "p_state (pcb_of kern_ex x) = PRREADY" for x
    using that ex_rset[of 0] by (intro exI[of _ 0]) (simp add: ex_fields_of ex_states)
  show "pid_ok x \<and> p_state (pcb_of kern_ex x) = PRREADY \<and> core_affinity (pcb_of kern_ex x) = int c" if "c < 4" "x \<in> rset ex_queues c" for c x
  proof -
    have "c = 0 \<and> (x = 0 \<or> x = 5)" using that(2) unfolding ex_rset[OF that(1)] by (auto split: if_splits)
    moreover from this have po: "pid_ok x" by (intro small) auto
    ultimately show ?thesis unfolding ex_fields_of[OF po] by (auto simp: ex_states po)
  qed
  show "pid_ok x \<and> p_state (pcb_of kern_ex x) = PRSEND" if "i < 50" "x \<in> set (ex_queues ! i)" for i x
  proof -
    have "x = 6" using that by (simp add: ex_queue split: if_splits)
    moreover from this have po: "pid_ok x" by (intro small) auto
    ultimately show ?thesis unfolding ex_fields_of[OF po] by (simp add: ex_states po)
  qed
  show "\<exists>c \<in> {..<4}. currpid kern_ex ! c = x" if "pid_ok x" "p_state (pcb_of kern_ex x) = PRCURR" for x
  proof -
    have "x = 1 \<or> x = 2 \<or> x = 3 \<or> x = 4" using that by (simp add: ex_fields_of ex_states)
    then have "currpid kern_ex ! (if x = 4 then 0 else nat x) = x \<and> (if x = 4 then 0 else nat x) < (4 :: nat)" by (auto simp: ex_current)
    then show ?thesis by blast
  qed
  show "c < 4 \<and> pid_ok (currpid kern_ex ! c) \<and> core_affinity (pcb_of kern_ex (currpid kern_ex ! c)) = int c \<and>
    p_state (pcb_of kern_ex (currpid kern_ex ! c)) \<noteq> PRREADY" if "c \<in> {..<4}" for c
  proof -
    have c: "c < 4" using that by simp
    have po: "pid_ok (currpid kern_ex ! c)" using c unfolding ex_current[OF c] by (intro small) auto
    have "c = 0 \<or> c = 1 \<or> c = 2 \<or> c = 3" using c by arith
    then show ?thesis using po c unfolding ex_fields_of[OF po] unfolding ex_current[OF c] by (auto simp: ex_states)
  qed
  show "0 \<le> priority (pcb_of kern_ex x) \<and> priority (pcb_of kern_ex x) < 3 \<and>
    (core_affinity (pcb_of kern_ex x) = -1 \<and> p_state (pcb_of kern_ex x) = PRSUSP \<or>
     0 \<le> core_affinity (pcb_of kern_ex x) \<and> core_affinity (pcb_of kern_ex x) < 4)" if "pid_ok x" for x
    using that by (simp add: ex_fields_of)
  show "p_state (pcb_of kern_ex (int c)) \<in> {PRCURR, PRREADY} \<and> core_affinity (pcb_of kern_ex (int c)) = int c" if "c < 4" for c
  proof -
    have po: "pid_ok (int c)" using that by (intro small) auto
    have "c = 0 \<or> c = 1 \<or> c = 2 \<or> c = 3" using that by arith
    then show ?thesis unfolding ex_fields_of[OF po] by (auto simp: ex_states)
  qed
qed

lemma ex_live: "live (proctab kern_ex) pid \<longleftrightarrow> pid \<in> {0..6}"
proof -
  have "ex_state pid \<noteq> PRFREE \<longleftrightarrow> pid \<in> {0..6}" if "0 \<le> pid" using that by (auto simp: ex_state_def pr_consts)
  then show ?thesis using ex_pcb_of[of pid] by (auto simp: live_def pid_ok_def NPROC_def ex_pcb_def)
qed

lemma ex_boxes: "boxes_ok kern_ex"
proof -
  have "u32_of (62 + pid) \<noteq> u32_of (int k)" if "pid_ok pid" "k < 62" for pid k
    using uint_u32_of[of "62 + pid"] uint_u32_of[of "int k"] that by (auto simp: pid_ok_def NPROC_def)
  then show ?thesis using ex_lock[of "62 + _"] ex_qhead
    by (auto simp: boxes_ok_def mbox_def ex_pcb_of ex_pcb_def ex_entries pid_ok_def NPROC_def)
qed

lemma ex_counters: "counters_ok kern_ex"
proof -
  have n: "{pid. live (proctab kern_ex) pid} = {0..6}" unfolding ex_live by auto
  have "promote_medium kern_ex ! c = 3 \<and> promote_low kern_ex ! c = 3" if "c < 4" for c
  proof -
    have "c = 0 \<or> c = 1 \<or> c = 2 \<or> c = 3" using that by arith
    then show ?thesis by (auto simp: kern_ex_def)
  qed
  moreover have "nextpid kern_ex = 6" "numproc kern_ex = 7" by (simp_all add: kern_ex_def)
  moreover have "length (p_name p) = PNMLEN" if "p \<in> set (proctab kern_ex)" for p
    using that by (auto simp: kern_ex_def ex_pcb_def PNMLEN_def)
  ultimately show ?thesis unfolding counters_ok_def n by (simp add: NPROC_def)
qed

lemma ex_core_cases: "(c :: int) \<in> {0 ..< NCORES} \<Longrightarrow> c = 0 \<or> c = 1 \<or> c = 2 \<or> c = 3"
  by (auto simp: NCORES_def)

lemma ex_heads:
  "ex_head 0 = \<lparr>mh_head = 0x103000, mh_length = 0xD000, mh_base = 0x100000, mh_bound = 0x10000, mh_lock = u32_of 120\<rparr>"
  "ex_head 1 = \<lparr>mh_head = 0x110000, mh_length = 0x10000, mh_base = 0x110000, mh_bound = 0x10000, mh_lock = u32_of 121\<rparr>"
  "ex_head 2 = \<lparr>mh_head = 0x120000, mh_length = 0x10000, mh_base = 0x120000, mh_bound = 0x10000, mh_lock = u32_of 122\<rparr>"
  "ex_head 3 = \<lparr>mh_head = 0x130000, mh_length = 0x10000, mh_base = 0x130000, mh_bound = 0x10000, mh_lock = u32_of 123\<rparr>"
  by (simp_all add: ex_head_def u32_of_def)

lemma ex_fields:
  "freelist kern_ex = [ex_head 0, ex_head 1, ex_head 2, ex_head 3]" "memheap kern_ex = 0x100000" "maxaddr kern_ex = 0x140000"
  "mem kern_ex = (\<lambda>a. 0)(0x103004 := 0xD000, 0x110004 := 0x10000, 0x120004 := 0x10000, 0x130004 := 0x10000)"
  by (simp_all add: kern_ex_def)

lemma ex_heap: "heap_rep kern_ex ex_free"
proof -
  let ?h = "\<lambda>c. at (freelist kern_ex) c"
  have "flist_ok kern_ex c (at ex_free c) \<and> unat (memheap kern_ex) \<le> unat (mh_base (?h c)) \<and>
    region (?h c) \<subseteq> {..unat (maxaddr kern_ex)}" if "c \<in> {0 ..< NCORES}" for c
    using ex_core_cases[OF that]
    by (elim disjE; simp add: flist_ok_def inb_def region_def ex_heads total_len_def ex_fields ex_free_def subset_eq)
  moreover have "lock_idle (mh_lock (?h c)) kern_ex" if "c \<in> {0 ..< NCORES}" for c
    using ex_core_cases[OF that] ex_lock[of "120 + c"] by (elim disjE; simp add: ex_fields ex_heads)
  moreover have "region (?h c) \<inter> region (?h d) = {}" if "c \<in> {0 ..< NCORES}" "d \<in> {0 ..< NCORES}" "c \<noteq> d" for c d
    using ex_core_cases[OF that(1)] ex_core_cases[OF that(2)] that(3)
    by (elim disjE; simp add: ex_fields ex_heads region_def disjoint_iff)
  moreover have "length (freelist kern_ex) = nat NCORES" "length ex_free = nat NCORES" by (simp_all add: ex_fields ex_free_def NCORES_def)
  ultimately show ?thesis unfolding heap_rep_def by (intro conjI ballI impI) simp_all
qed


lemma ex_stack:
  assumes "user (proctab kern_ex) p"
  shows "\<exists>k < 3. p = 4 + int k \<and> stack_of (proctab kern_ex) p = (0x100000 + 0x1000 * of_nat k, 4096) \<and>
    blk_bytes (stack_of (proctab kern_ex) p) = {0x100000 + 0x1000 * k ..< 0x101000 + 0x1000 * k}"
proof -
  have p: "p = 4 \<or> p = 5 \<or> p = 6" using assms by (auto simp: user_def ex_live)
  then have po: "pid_ok p" by (auto simp: pid_ok_def NPROC_def)
  have r: "roundmb 4096 = 4096" by (simp add: roundmb_def)
  have "stack_of (proctab kern_ex) p = (0x100000 + 0x1000 * u32_of (p - 4), 4096)" unfolding ex_pcb_of[OF po] by (simp add: ex_pcb_def)
  with p show ?thesis
    by (elim disjE) (rule exI[of _ 0] exI[of _ 1] exI[of _ 2]; simp add: u32_of_def blk_bytes_def r)+
qed

lemma ex_avail: "avail ex_free = {0x103000 ..< 0x140000}"
proof -
  have "{0 ..< NCORES} = {0, 1, 2, 3}" by (auto simp: NCORES_def)
  then have "avail ex_free = {0x103000 ..< 0x110000} \<union> {0x110000 ..< 0x120000} \<union> {0x120000 ..< 0x130000} \<union> {0x130000 ..< 0x140000}"
    by (simp add: avail_def ex_free_def bytes_of_def Un_assoc)
  then show ?thesis by (simp add: ivl_disj_un)
qed

lemma ex_stacks: "stacks_ok kern_ex ex_free"
  unfolding stacks_ok_def
proof (intro conjI allI impI)
  show "heap_rep kern_ex ex_free" by (rule ex_heap)
next
  fix p assume "user (proctab kern_ex) p"
  from ex_stack[OF this] obtain k where k: "k < 3" "stack_of (proctab kern_ex) p = (0x100000 + 0x1000 * of_nat k, 4096)"
    "blk_bytes (stack_of (proctab kern_ex) p) = {0x100000 + 0x1000 * k ..< 0x101000 + 0x1000 * k}" by blast
  show "blk_bytes (stack_of (proctab kern_ex) p) \<inter> avail ex_free = {}" unfolding k(3) ex_avail using k(1) by auto
  have "(0x100000, 0x10000, u32_of 120) \<in> set (layout kern_ex)" by (simp add: layout_def ex_fields ex_heads)
  moreover have "blk_bytes (stack_of (proctab kern_ex) p) \<subseteq> {unat (0x100000 :: u32) ..< unat (0x100000 :: u32) + unat (0x10000 :: u32)}"
    unfolding k(3) using k(1) by auto
  moreover have "unat (0x100000 + 0x1000 * of_nat k :: u32) = 0x100000 + 0x1000 * k" using k(1) by (simp add: unat_word_ariths unat_of_nat)
  then have "8 dvd unat (fst (stack_of (proctab kern_ex) p))" unfolding k(2) by simp
  moreover have "req_ok (snd (stack_of (proctab kern_ex) p))" unfolding k(2) by (simp add: req_ok_def)
  ultimately show "in_layout (layout kern_ex) (stack_of (proctab kern_ex) p)" unfolding in_layout_def by blast
next
  fix p q assume "user (proctab kern_ex) p \<and> user (proctab kern_ex) q \<and> p \<noteq> q"
  then have u: "user (proctab kern_ex) p" "user (proctab kern_ex) q" "p \<noteq> q" by auto
  from ex_stack[OF u(1)] obtain j where j: "p = 4 + int j"
    "blk_bytes (stack_of (proctab kern_ex) p) = {0x100000 + 0x1000 * j ..< 0x101000 + 0x1000 * j}" by blast
  from ex_stack[OF u(2)] obtain k where k: "q = 4 + int k"
    "blk_bytes (stack_of (proctab kern_ex) q) = {0x100000 + 0x1000 * k ..< 0x101000 + 0x1000 * k}" by blast
  have "j < k \<or> k < j" using u(3) j(1) k(1) by auto
  then show "blk_bytes (stack_of (proctab kern_ex) p) \<inter> blk_bytes (stack_of (proctab kern_ex) q) = {}"
    unfolding j(2) k(2) by auto
qed

theorem kern_ex_inv: "kern_inv kern_ex ex_queues ex_free"
proof -
  have "p_state (pcb_of kern_ex (currpid kern_ex ! d)) = PRCURR" if "d < 4" for d
  proof -
    have "pid_ok (currpid kern_ex ! d)" using procs_okD(5)[OF ex_procs, of d] that by simp
    then show ?thesis using that unfolding ex_fields_of(1)[OF \<open>pid_ok (currpid kern_ex ! d)\<close>] unfolding ex_current[OF that] ex_states by auto
  qed
  then show ?thesis unfolding kern_inv_def kern_mid_def using ex_shape ex_procs ex_stacks ex_boxes ex_counters by simp
qed

end
