(* ===== verification/Process_Life.thy ===== *)
theory Process_Life
  imports Sched_Invariant
begin

text \<open>
  The life of a process: \<^verbatim>\<open>create\<close>, \<^verbatim>\<open>ready\<close> and \<^verbatim>\<open>kill\<close> keep the kernel
  invariant. \<open>create_ok\<close> describes the entry and the stack frame of a new process,
  \<open>ready_steps\<close> the queue it joins, and \<open>kill_inv\<close> that its stack goes back to the heap.
\<close>

section \<open>Changing one process\<close>

definition same_box :: "pmessage \<Rightarrow> pmessage \<Rightarrow> bool" where
  "same_box m m' \<longleftrightarrow> msgqueue m' = msgqueue m \<and> core_com_lock m' = core_com_lock m \<and> hasMessage m' \<in> {0, 1}"

lemma in_set_upd: "x \<in> set (xs[i := v]) \<Longrightarrow> x = v \<or> x \<in> set xs"
  by (auto dest!: set_update_subset_insert[THEN subsetD])

lemma live_upd:
  assumes "length P = nat NPROC" and "pid_ok pid" and "p_state v \<noteq> PRFREE" and "live P pid"
  shows "live (P[nat pid := v]) x \<longleftrightarrow> live P x"
  using assms at_state_upd[OF assms(1,2), of x v] by (auto simp: live_def split: if_splits)

text \<open>
  An operation that changes the entry of one live process and relinks the queues: what is left
  to show is that states and queues still fit, and that the other cores still run theirs.
\<close>

lemma kern_mid_pcb:
  assumes inv: "kern_mid c s Q F" and pid: "live (proctab s) pid" and v: "p_state v \<noteq> PRFREE"
    "stkbase v = stkbase (pcb_of s pid)" "stklen v = stklen (pcb_of s pid)" "length (regs v) = 16" "length (p_name v) = PNMLEN"
    "same_box (mbox s pid) (msg_var v)"
    and q: "queues_rep (s\<lparr>proctab := (proctab s)[nat pid := v], queuetab := t\<rparr>) Q'" "length Q' = 62" "map q_lock t = qlocks s"
    and ok: "procs_ok {..<4} ((proctab s)[nat pid := v]) (currpid s) Q'"
    and run: "\<And>d. d < 4 \<Longrightarrow> d \<noteq> c \<Longrightarrow> currpid s ! d = pid \<Longrightarrow> p_state v = PRCURR"
  shows "kern_mid c (s\<lparr>proctab := (proctab s)[nat pid := v], queuetab := t\<rparr>) Q' F" (is "kern_mid c ?s Q' F")
proof -
  note M = kern_midD[OF inv]
  have po: "pid_ok pid" using pid by (simp add: live_def)
  note L = kern_shape_proc[OF M(1) po] and U = at_state_upd[OF kern_shape_proc(2)[OF M(1) po] po]
  note lv = live_upd[OF L(2) po v(1) pid]
  have "kern_shape ?s Q'"
    using M(1) q(1,2) v(4) by (auto simp: kern_shape_def dest!: in_set_upd)
  moreover have "stack_of (proctab ?s) x = stack_of (proctab s) x" if "live (proctab s) x" for x
    using U[of x] v(2,3) that by (auto simp: live_def)
  then have "stacks_ok ?s F" by (intro stacks_ok_cong[OF M(3)]) (simp_all add: user_def lv)
  moreover have "boxes_ok ?s" unfolding boxes_ok_def
  proof (intro allI impI)
    fix x assume x: "pid_ok x"
    have "ql t = ql (queuetab s)" using ql_qlocks[of ?s s] q(3) by simp
    moreover have "same_box (mbox s x) (mbox ?s x)" using U[OF x] v(6) M(4) x by (auto simp: mbox_def same_box_def boxes_ok_def)
    ultimately show "msgqueue (mbox ?s x) = qid (nat x) \<and> lock_idle (core_com_lock (mbox ?s x)) ?s \<and>
        (\<forall>k < 62. core_com_lock (mbox ?s x) \<noteq> ql (queuetab ?s) (qhead k)) \<and> hasMessage (mbox ?s x) \<in> {0, 1}"
      using M(4) x unfolding boxes_ok_def same_box_def lock_idle_def by simp
  qed
  moreover have "counters_ok ?s" using M(5) lv v(5) by (auto simp: counters_ok_def dest!: in_set_upd)
  moreover have "p_state (pcb_of ?s (currpid ?s ! d)) = PRCURR" if "d < 4" "d \<noteq> c" for d
    using U[of "currpid s ! d"] procs_okD(5)[OF M(2), of d] M(6)[OF that] run[OF that] that by auto
  ultimately show ?thesis using ok by (simp add: kern_mid_def)
qed

section \<open>Making a process ready\<close>

lemma ready_enqueue:
  fixes s :: "'a procst_scheme"
  assumes inv: "kern_mid c s Q F" and pid: "live (proctab s) pid" "pid \<notin> set (concat Q)"
    and run: "\<And>d. d < 4 \<Longrightarrow> currpid s ! d \<noteq> pid" and k: "k < 4"
    and v: "v = (pcb_of s pid)\<lparr>p_state := PRREADY, core_affinity := int k\<rparr>"
    and aff: "core_affinity (pcb_of s pid) \<in> {-1, int k}"
  shows "\<exists>t. let s1 = s\<lparr>proctab := (proctab s)[nat pid := v]\<rparr>; s' = s1\<lparr>queuetab := t\<rparr>; j = rq k (nat (priority v)) in
    readyq (int k) (priority v) s1 = Some (qid j) \<and> enqueue e pid (qid j) s1 = Some (pid, s') \<and>
    kern_mid c s' (Q[j := Q ! j @ [pid]]) F"
proof -
  note M = kern_midD[OF inv]
  note D = kern_shapeD[OF M(1)]
  have po: "pid_ok pid" "p_state (pcb_of s pid) \<noteq> PRFREE" using pid(1) by (auto simp: live_def)
  note L = kern_shape_proc[OF M(1) po(1)]
  have vs: "p_state v = PRREADY" "core_affinity v = int k" "priority v = priority (pcb_of s pid)" using v by simp_all
  have pr: "0 \<le> priority v" "priority v < 3" "nat (priority v) < 3" using procs_okD(6)[OF M(2) po] vs(3) by auto
  let ?s1 = "s\<lparr>proctab := (proctab s)[nat pid := v]\<rparr>" and ?j = "rq k (nat (priority v))"
  have j: "?j < length Q" using rq_less[OF k pr(3)] D(2) by simp
  have sh1: "kern_shape ?s1 Q" using kern_shape_pcb[OF M(1), of v] L(3) v by simp
  have "p_state (pcb_of ?s1 pid) \<noteq> PRFREE" using L(1) vs(1) by simp
  from enqueue_rep[OF kern_shapeD(1)[OF sh1] j _ _ this pid(2), of e] po(1) obtain t where
    t: "enqueue e pid (qid ?j) ?s1 = Some (pid, ?s1\<lparr>queuetab := t\<rparr>)"
      "queues_rep (?s1\<lparr>queuetab := t\<rparr>) (Q[?j := Q ! ?j @ [pid]])" by (auto simp: pid_ok_def)
  have null: "pid = int k" if "pid < 4"
    using null_home[OF M(2), of pid k] aff procs_okD(7)[OF M(2), of "nat pid"] that po(1) by (auto simp: pid_ok_def)
  have "procs_ok {..<4} ((proctab s)[nat pid := v]) (currpid s) (Q[?j := Q ! ?j @ [pid]])"
    by (rule procs_ok_put[OF M(2) L(2) D(2) po(1) k vs(2,1) pr(1,2) _ _ _ pid(2) pr(3) null]) (use run in auto)
  moreover have "length (p_name v) = PNMLEN" using M(5) at_in_set[OF L(1)] v by (simp add: counters_ok_def)
  moreover have "same_box (mbox s pid) (msg_var v)" using M(4) po(1) v by (auto simp: same_box_def boxes_ok_def mbox_def)
  ultimately have "kern_mid c (?s1\<lparr>queuetab := t\<rparr>) (Q[?j := Q ! ?j @ [pid]]) F"
    using t(2) enqueue_locks[OF t(1)] L(3) D(2) v run
    by (intro kern_mid_pcb[OF inv pid(1)]) auto
  then show ?thesis unfolding Let_def using t(1) readyq_ok[OF sh1 k pr(1,2)] by blast
qed


definition home :: "pcb \<Rightarrow> nat \<Rightarrow> nat" where
  "home p core = (if core_affinity p = -1 then core else nat (core_affinity p))"

lemma ready_steps:
  fixes s :: "'a procst_scheme"
  assumes inv: "kern_inv s Q F" and pid: "live (proctab s) pid" "pid \<notin> set (concat Q)" "p_state (pcb_of s pid) \<noteq> PRCURR"
    and core: "core < 4"
  defines "k \<equiv> home (pcb_of s pid) core"
  defines "v \<equiv> (pcb_of s pid)\<lparr>p_state := PRREADY, core_affinity := int k\<rparr>"
  shows "\<exists>t. let s' = s\<lparr>proctab := (proctab s)[nat pid := v], queuetab := t\<rparr>; j = rq k (nat (priority (pcb_of s pid))) in
    k < 4 \<and> kern_inv s' (Q[j := Q ! j @ [pid]]) F \<and>
    ready (int c) pid resch (int core) s = (if resch \<and> c = k then do { s \<leftarrow> resched (int c) s'; Some (OK, s) } else Some (OK, s'))"
proof -
  have M: "kern_mid 4 s Q F" using inv by (simp add: kern_inv_def)
  note M' = kern_midD[OF M]
  have po: "pid_ok pid" "p_state (pcb_of s pid) \<noteq> PRFREE" using pid(1) by (auto simp: live_def)
  note L = kern_shape_proc[OF M'(1) po(1)]
  have aff: "core_affinity (pcb_of s pid) \<in> {-1, int k}" "k < 4"
    using procs_okD(6)[OF M'(2) po] core by (auto simp: k_def home_def)
  have run: "currpid s ! d \<noteq> pid" if "d < 4" for d using M'(6)[of d] pid(3) that by auto
  let ?s1 = "s\<lparr>proctab := (proctab s)[nat pid := v]\<rparr>" and ?j = "rq k (nat (priority v))"
  from ready_enqueue[OF M pid(1,2) run aff(2) v_def[THEN meta_eq_to_obj_eq] aff(1), where e = "int c"] obtain t where
    t: "readyq (int k) (priority v) ?s1 = Some (qid ?j)" "enqueue (int c) pid (qid ?j) ?s1 = Some (pid, ?s1\<lparr>queuetab := t\<rparr>)"
      "kern_mid 4 (?s1\<lparr>queuetab := t\<rparr>) (Q[?j := Q ! ?j @ [pid]]) F" unfolding Let_def by blast
  have bad: "isbadpid pid s = Some False"
    using isbadpid_good[of s pid] po M'(1) by (auto simp: kern_shape_def queues_rep_def pid_ok_def)
  have v2: "core_affinity (pcb_of s pid) \<noteq> -1 \<Longrightarrow> (pcb_of s pid)\<lparr>p_state := PRREADY\<rparr> = v" using aff(1) by (simp add: v_def)
  have v3: "core_affinity v = int k" "priority (pcb_of s pid) = priority v" by (simp_all add: v_def)
  have "ready (int c) pid resch (int core) s =
      (if resch \<and> c = k then do { s \<leftarrow> resched (int c) (?s1\<lparr>queuetab := t\<rparr>); Some (OK, s) } else Some (OK, ?s1\<lparr>queuetab := t\<rparr>))"
  proof (cases "core_affinity (pcb_of s pid) = -1")
    case True
    then have "(pcb_of s pid)\<lparr>p_state := PRREADY, core_affinity := int core\<rparr> = v" by (simp add: v_def k_def home_def)
    then show ?thesis using True bad L(1) t(1,2) v3 by (simp add: ready_def)
  next
    case False
    then show ?thesis using bad L(1) t(1,2) v3 v2[OF False] by (simp add: ready_def)
  qed
  then show ?thesis unfolding Let_def using t(3) aff(2) by (intro exI[of _ t]) (simp add: kern_inv_def v3(2))
qed

lemma ready_inv:
  fixes s :: "'a procst_scheme"
  assumes "kern_inv s Q F" and "live (proctab s) pid" "pid \<notin> set (concat Q)" "p_state (pcb_of s pid) \<noteq> PRCURR"
    and "core < 4" and "c < 4"
  shows "\<exists>s' Q'. ready (int c) pid resch (int core) s = Some (OK, s') \<and> kern_inv s' Q' F"
proof -
  let ?k = "home (pcb_of s pid) core"
  let ?v = "(pcb_of s pid)\<lparr>p_state := PRREADY, core_affinity := int ?k\<rparr>"
  let ?S = "\<lambda>t. s\<lparr>proctab := (proctab s)[nat pid := ?v], queuetab := t\<rparr>" and ?j = "rq ?k (nat (priority (pcb_of s pid)))"
  from ready_steps[OF assms(1-5), of c resch] obtain t where t: "kern_inv (?S t) (Q[?j := Q ! ?j @ [pid]]) F"
    "ready (int c) pid resch (int core) s = (if resch \<and> c = ?k then do { s \<leftarrow> resched (int c) (?S t); Some (OK, s) } else Some (OK, ?S t))"
    unfolding Let_def by blast
  show ?thesis
  proof (cases "resch \<and> c = ?k")
    case True
    have "kern_mid c (?S t) (Q[?j := Q ! ?j @ [pid]]) F" using t(1) kern_inv_mid by blast
    from resched_mid[OF this assms(6)] show ?thesis using t(2) True unfolding Let_def by fastforce
  next
    case False
    then show ?thesis using t by auto
  qed
qed


section \<open>Killing a process\<close>

lemma freemem_owned:
  fixes s :: "'a memst_scheme"
  assumes rep: "heap_rep s F" and own: "in_layout (layout s) (p, n)" and fr: "blk_bytes (p, n) \<inter> avail F = {}"
  shows "\<exists>m fl G. freemem c p n s = Some (OK, s\<lparr>mem := m, freelist := fl\<rparr>) \<and> heap_rep (s\<lparr>mem := m, freelist := fl\<rparr>) G \<and>
    layout (s\<lparr>mem := m, freelist := fl\<rparr>) = layout s \<and> avail G = avail F \<union> blk_bytes (p, n)"
proof -
  from own have n: "n \<noteq> 0" "unat n \<le> 2 ^ 32 - 8" "8 dvd unat p" by (auto simp: in_layout_def req_ok_def)
  from in_layoutE[OF own rep] obtain k where k: "0 \<le> k" "k < NCORES" "blk_bytes (p, n) \<subseteq> region (at (freelist s) k)" by auto
  have "bytes (at F k) \<subseteq> avail F" unfolding avail_def using k(1,2) by (intro UN_upper) simp
  then have "blk_bytes (p, n) \<inter> bytes (at F k) = {}" using fr by blast
  then obtain m fl where t: "freemem c p n s = Some (OK, s\<lparr>mem := m, freelist := fl\<rparr>)"
    using freemem_rep[OF rep k(1,2) n(1,2) refl n(3), of c] k(3) by (auto simp: blk_bytes_def)
  from hp.release_block[OF rep own fr, of c] t show ?thesis by auto
qed

lemma rset_remove:
  assumes "length Q = 62" and "c < 4" and "j < 3" and "d < 4" and q: "Q ! rq c j = xs @ p # ys" and dist: "distinct (concat Q)"
  shows "rset (Q[rq c j := xs @ ys]) d = (if d = c then rset Q c - {p} else rset Q d)"
proof -
  have k: "rq c j < length Q" using assms rq_less by simp
  have p: "p \<notin> set xs" "p \<notin> set ys" "\<And>i. i < length Q \<Longrightarrow> i \<noteq> rq c j \<Longrightarrow> p \<notin> set (Q ! i)"
    using distinct_concat_nth[OF dist, of "rq c j"] k q by (auto dest: distinct_concat_nth_distinct[OF dist])
  have "x \<in> set (Q[rq c j := xs @ ys] ! rq d i) \<longleftrightarrow> x \<in> set (Q ! rq d i) \<and> (d = c \<longrightarrow> x \<noteq> p)" if "i < 3" for x i
  proof (cases "d = c \<and> i = j")
    case True
    then show ?thesis using k q p(1,2) by auto
  next
    case False
    then have ne: "rq c j \<noteq> rq d i" using rq_eq[OF that assms(3), of d c] by auto
    then have "p \<notin> set (Q ! rq d i)" using p(3)[of "rq d i"] rq_less[OF assms(4) that] assms(1) by simp
    then show ?thesis using ne by auto
  qed
  then have "x \<in> rset (Q[rq c j := xs @ ys]) d \<longleftrightarrow> x \<in> rset Q d \<and> (d = c \<longrightarrow> x \<noteq> p)" for x
    unfolding rset_mem by metis
  then show ?thesis by auto
qed

lemma procs_ok_free:
  assumes ok: "procs_ok {..<4} P cur Q" and len: "length P = nat NPROC" and pid: "pid_ok pid" "4 \<le> pid"
    and st: "p_state (at P pid) \<noteq> PRSEND"
    and R: "\<And>d. d < 4 \<Longrightarrow> rset Q' d = rset Q d - {pid}" and m: "\<And>i. i < 50 \<Longrightarrow> Q' ! i = Q ! i"
  shows "procs_ok {..<4} (P[nat pid := (at P pid)\<lparr>p_state := PRFREE\<rparr>]) cur Q'" (is "procs_ok _ ?P _ _")
proof -
  note U = at_state_upd[OF len pid(1)]
  have n: "pid_ok (int d)" "int d \<noteq> pid" if "d < 4" for d using that pid(2) by (auto simp: pid_ok_def NPROC_def)
  show ?thesis
  proof (rule procs_okI)
    fix x assume x: "pid_ok x" "p_state (at ?P x) = PRREADY"
    then have "x \<noteq> pid" "p_state (at P x) = PRREADY" using U by (auto split: if_splits)
    then show "\<exists>d < 4. x \<in> rset Q' d" using procs_okD(1)[OF ok x(1)] R by auto
  next
    fix d x assume d: "d < 4" "x \<in> rset Q' d"
    then show "pid_ok x \<and> p_state (at ?P x) = PRREADY \<and> core_affinity (at ?P x) = int d"
      using R[OF d(1)] procs_okD(2)[OF ok d(1), of x] U[of x] by auto
  next
    fix i x assume i: "i < 50" "x \<in> set (Q' ! i)"
    then have "pid_ok x \<and> p_state (at P x) = PRSEND" using procs_okD(3)[OF ok i(1), of x] m[OF i(1)] by simp
    moreover then have "x \<noteq> pid" using st by auto
    ultimately show "pid_ok x \<and> p_state (at ?P x) = PRSEND" using U[of x] by auto
  next
    fix x assume "pid_ok x" "p_state (at ?P x) = PRCURR"
    then show "\<exists>d \<in> {..<4}. cur ! d = x" using procs_okD(4)[OF ok, of x] U[of x] by (auto split: if_splits)
  next
    fix d :: nat assume "d \<in> {..<4}"
    then show "d < 4 \<and> pid_ok (cur ! d) \<and> core_affinity (at ?P (cur ! d)) = int d \<and> p_state (at ?P (cur ! d)) \<noteq> PRREADY"
      using procs_okD(5)[OF ok, of d] U[of "cur ! d"] by auto
  next
    fix x assume "pid_ok x" "p_state (at ?P x) \<noteq> PRFREE"
    then show "0 \<le> priority (at ?P x) \<and> priority (at ?P x) < 3 \<and> (core_affinity (at ?P x) = -1 \<and> p_state (at ?P x) = PRSUSP \<or>
         0 \<le> core_affinity (at ?P x) \<and> core_affinity (at ?P x) < 4)"
      using procs_okD(6)[OF ok, of x] U[of x] by (auto split: if_splits)
  next
    fix d assume d: "d < (4::nat)"
    then show "p_state (at ?P (int d)) \<in> {PRCURR, PRREADY} \<and> core_affinity (at ?P (int d)) = int d"
      using procs_okD(7)[OF ok d] U[OF n(1)[OF d]] n(2)[OF d] by auto
  qed
qed


lemma live_free:
  assumes "length P = nat NPROC" and "pid_ok pid" and "p_state v = PRFREE"
  shows "live (P[nat pid := v]) x \<longleftrightarrow> live P x \<and> x \<noteq> pid"
  using assms at_state_upd[OF assms(1,2), of x v] by (auto simp: live_def split: if_splits)

lemma live_finite: "finite {x. live P x}"
  by (rule finite_subset[of _ "{0..<NPROC}"]) (auto simp: live_def pid_ok_def)

text \<open>The end of a process: its stack is free again, its entry too, and it is on no queue.\<close>

lemma kern_mid_free:
  fixes s :: "'a procst_scheme"
  assumes inv: "kern_mid c s Q F" and u: "user (proctab s) pid" and st: "p_state (pcb_of s pid) \<noteq> PRSEND"
    and v: "v = (pcb_of s pid)\<lparr>p_state := PRFREE\<rparr>"
    and h: "heap_rep (s\<lparr>mem := m, freelist := fl\<rparr>) G" "layout (s\<lparr>mem := m, freelist := fl\<rparr>) = layout s"
      "avail G = avail F \<union> blk_bytes (stack_of (proctab s) pid)"
    and s': "s' = s\<lparr>numproc := numproc s - 1, mem := m, freelist := fl, queuetab := t, proctab := (proctab s)[nat pid := v]\<rparr>"
    and q: "queues_rep (s\<lparr>queuetab := t\<rparr>) Q'" "length Q' = 62" "map q_lock t = qlocks s"
    and R: "\<And>d. d < 4 \<Longrightarrow> rset Q' d = rset Q d - {pid}" and mq: "\<And>i. i < 50 \<Longrightarrow> Q' ! i = Q ! i"
    and run: "\<And>d. d < 4 \<Longrightarrow> d \<noteq> c \<Longrightarrow> currpid s ! d \<noteq> pid"
  shows "kern_mid c s' Q' G"
proof -
  note M = kern_midD[OF inv]
  have po: "pid_ok pid" "4 \<le> pid" "live (proctab s) pid" using u by (auto simp: user_def live_def)
  note L = kern_shape_proc[OF M(1) po(1)] and U = at_state_upd[OF kern_shape_proc(2)[OF M(1) po(1)] po(1)]
  have lv: "live (proctab s') x \<longleftrightarrow> live (proctab s) x \<and> x \<noteq> pid" for x using live_free[OF L(2) po(1), of v x] v s' by simp
  have fx: "mem s' = m" "freelist s' = fl" "memheap s' = memheap s" "maxaddr s' = maxaddr s" "locktab s' = locktab s"
    "queuetab s' = t" "currpid s' = currpid s" "proctab s' = (proctab s)[nat pid := v]" by (simp_all add: s')
  have "queues_rep s' Q'" by (rule queues_rep_cong[OF q(1)]) (simp_all add: s')
  then have "kern_shape s' Q'" using M(1) q(2) L(3) v by (auto simp: kern_shape_def s' dest!: in_set_upd)
  moreover have "procs_ok {..<4} (proctab s') (currpid s') Q'"
    using procs_ok_free[OF M(2) L(2) po(1,2) st R mq] v fx by simp
  moreover have "stacks_ok s' G" unfolding stacks_ok_def
  proof (intro conjI allI impI)
    show "heap_rep s' G" by (rule heap_rep_cong[OF h(1)]) (simp_all add: s')
    have sk: "stack_of (proctab s') x = stack_of (proctab s) x" if "live (proctab s) x" for x
      using U[of x v] v that by (auto simp: fx live_def)
    have lay: "layout s' = layout s" using h(2) by (simp add: layout_def fx)
    have us: "user (proctab s) x" "x \<noteq> pid" "stack_of (proctab s') x = stack_of (proctab s) x" if "user (proctab s') x" for x
      using that lv[of x] sk[of x] by (auto simp: user_def)
    show "in_layout (layout s') (stack_of (proctab s') x)" if "user (proctab s') x" for x
      using us[OF that] M(3) by (simp add: stacks_ok_def lay)
    show "blk_bytes (stack_of (proctab s') x) \<inter> avail G = {}" if "user (proctab s') x" for x
      using us[OF that] M(3) u unfolding stacks_ok_def h(3) by (metis Int_Un_distrib Un_empty)
    show "blk_bytes (stack_of (proctab s') x) \<inter> blk_bytes (stack_of (proctab s') y) = {}"
      if "user (proctab s') x \<and> user (proctab s') y \<and> x \<noteq> y" for x y
      using us[of x] us[of y] M(3) that unfolding stacks_ok_def by metis
  qed
  moreover have "boxes_ok s'"
  proof (rule boxes_ok_cong[OF M(4)])
    show "ql (queuetab s') = ql (queuetab s)" using ql_qlocks[of s' s] q(3) fx by simp
    show "mbox s' x = mbox s x" if "pid_ok x" for x using U[OF that, of v] v by (auto simp: mbox_def fx)
  qed (simp add: fx)
  moreover have "counters_ok s'"
  proof -
    have "{x. live (proctab s') x} = {x. live (proctab s) x} - {pid}" using lv by auto
    moreover have "card {x. live (proctab s) x} = Suc (card ({x. live (proctab s) x} - {pid}))"
      using po(3) by (intro card.remove live_finite) simp
    ultimately have "int (card {x. live (proctab s') x}) = int (card {x. live (proctab s) x}) - 1" by simp
    moreover have "length (p_name v) = PNMLEN" using M(5) at_in_set[OF L(1)] v by (simp add: counters_ok_def)
    ultimately show ?thesis using M(5) by (auto simp: counters_ok_def s' dest!: in_set_upd)
  qed
  moreover have "p_state (pcb_of s' (currpid s' ! d)) = PRCURR" if "d < 4" "d \<noteq> c" for d
    using U[of "currpid s ! d" v] procs_okD(5)[OF M(2), of d] M(6)[OF that] run[OF that] that by (auto simp: fx)
  ultimately show ?thesis by (simp add: kern_mid_def)
qed


lemma ready_position:
  assumes ok: "procs_ok C P cur Q" and "pid_ok pid" "p_state (at P pid) = PRREADY" "core_affinity (at P pid) = int c" and c: "c < 4"
  shows "\<exists>j xs ys. j < 3 \<and> Q ! rq c j = xs @ pid # ys"
proof -
  obtain d where "d < 4" "pid \<in> rset Q d" using procs_okD(1)[OF ok assms(2,3)] by blast
  then have "pid \<in> rset Q c" using procs_okD(2)[OF ok, of d pid] assms(4) by auto
  then show ?thesis unfolding rset_mem by (meson split_list)
qed

lemma rset_without:
  assumes ok: "procs_ok C P cur Q" and "p_state (at P pid) \<noteq> PRREADY" and "d < 4"
  shows "rset Q d = rset Q d - {pid}"
  using procs_okD(2)[OF ok assms(3), of pid] assms(2) by auto

lemma kill_inv:
  fixes s :: "'a procst_scheme"
  assumes inv: "kern_inv s Q F" and c: "c < 4" and u: "user (proctab s) pid"
    and p: "core_affinity (pcb_of s pid) = int c" "p_state (pcb_of s pid) \<noteq> PRSEND"
  shows "\<exists>s' Q' G. kill (int c) pid s = Some (OK, s') \<and> kern_inv s' Q' G \<and>
    avail G = avail F \<union> blk_bytes (stack_of (proctab s) pid) \<and> \<not> live (proctab s') pid"
proof -
  have mid: "kern_mid c s Q F" using inv kern_inv_mid by blast
  note M = kern_midD[OF mid]
  note D = kern_shapeD[OF M(1)]
  have po: "pid_ok pid" "4 \<le> pid" "p_state (pcb_of s pid) \<noteq> PRFREE" using u by (auto simp: user_def live_def)
  note L = kern_shape_proc[OF M(1) po(1)]
  let ?p = "pcb_of s pid" and ?n = "numproc s - 1"
  let ?v = "?p\<lparr>p_state := PRFREE\<rparr>" and ?s0 = "s\<lparr>numproc := ?n\<rparr>"
  have run: "currpid s ! d \<noteq> pid" if "d < 4" "d \<noteq> c" for d using current_distinct[OF M(2), of d pid c] p(1) that by simp
  have hp: "heap_rep ?s0 F" by (rule heap_rep_cong[of s]) (use M(3) in \<open>simp_all add: stacks_ok_def\<close>)
  have "layout ?s0 = layout s" by (simp add: layout_def)
  then have "in_layout (layout ?s0) (stack_of (proctab s) pid)" "blk_bytes (stack_of (proctab s) pid) \<inter> avail F = {}"
    using M(3) u by (auto simp: stacks_ok_def)
  from freemem_owned[OF hp this, of "int c"] obtain m fl G where
    f: "freemem (int c) (stkbase ?p) (stklen ?p) ?s0 = Some (OK, ?s0\<lparr>mem := m, freelist := fl\<rparr>)"
    and h: "heap_rep (?s0\<lparr>mem := m, freelist := fl\<rparr>) G" "layout (?s0\<lparr>mem := m, freelist := fl\<rparr>) = layout ?s0"
      "avail G = avail F \<union> blk_bytes (stack_of (proctab s) pid)" by auto
  have h': "heap_rep (s\<lparr>mem := m, freelist := fl\<rparr>) G" by (rule heap_rep_cong[OF h(1)]) simp_all
  have lay: "layout (s\<lparr>mem := m, freelist := fl\<rparr>) = layout s" using h(2) by (simp add: layout_def)
  let ?S = "\<lambda>t. s\<lparr>numproc := ?n, mem := m, freelist := fl, queuetab := t, proctab := (proctab s)[nat pid := ?v]\<rparr>"
  note free = kern_mid_free[OF mid u p(2) refl h' lay h(3) refl]
  have bad: "isbadpid pid s = Some False" "pid \<notin> {0, 1, 2, 3}"
    using isbadpid_good[of s pid] po D(1) by (auto simp: queues_rep_def pid_ok_def)
  have fin: "kern_mid c (?S (queuetab s)) Q G" if "p_state ?p \<noteq> PRREADY"
    by (rule free) (use D run rset_without[OF M(2) that] in \<open>simp_all add: queues_rep_cong[OF D(1)]\<close>)
  have dead: "\<not> live (proctab (?S t)) pid" for t using L(1) by (simp add: live_def)
  show ?thesis
  proof (cases "p_state ?p = PRCURR")
    case True
    then have "kern_mid c (?S (queuetab s)) Q G" using fin by simp
    from resched_view[OF this c] obtain s' Q' where r: "resched (int c) (?S (queuetab s)) = Some s'" "kern_inv s' Q' G"
      "\<not> live (proctab s') pid" using dead by blast
    then have "kill (int c) pid s = Some (OK, s')" using bad p(1) po(3) f True L(1) by (simp add: kill_def)
    then show ?thesis using r(2,3) h(3) by blast
  next
    case False
    have cs: "p_state (pcb_of s (currpid s ! c)) = PRCURR" using inv kern_inv_mid[of s Q F c] c by blast
    then have "p_state (at ((proctab s)[nat pid := ?v]) (currpid s ! c)) = PRCURR"
      using False at_state_upd[OF L(2) po(1), of "currpid s ! c" ?v] procs_okD(5)[OF M(2), of c] c by auto
    then have still: "kern_inv (?S t) Q' G" if "kern_mid c (?S t) Q' G" for t Q'
      using that kern_inv_mid[of "?S t" Q' G c] by simp
    show ?thesis
    proof (cases "p_state ?p = PRREADY")
      case True
      let ?s1 = "s\<lparr>numproc := ?n, mem := m, freelist := fl\<rparr>"
      obtain j xs ys where j: "j < 3" "Q ! rq c j = xs @ pid # ys" using ready_position[OF M(2) po(1) True p(1) c] by blast
      have k: "rq c j < length Q" using rq_less[OF c j(1)] D(2) by simp
      have "queues_rep ?s1 Q" by (rule queues_rep_cong[OF D(1)]) simp_all
      from remove_rep[OF this k j(2), of "int c"] po(3) obtain t where
        t: "remove (int c) pid ?s1 = Some (pid, ?s1\<lparr>queuetab := t\<rparr>)" "queues_rep (?s1\<lparr>queuetab := t\<rparr>) (Q[rq c j := xs @ ys])" by auto
      have "distinct (concat Q)" using D(1) by (simp add: queues_rep_def)
      note rs = rset_remove[OF D(2) c j(1) _ j(2) this]
      have "kern_mid c (?S t) (Q[rq c j := xs @ ys]) G"
      proof (rule free)
        show "queues_rep (s\<lparr>queuetab := t\<rparr>) (Q[rq c j := xs @ ys])" by (rule queues_rep_cong[OF t(2)]) simp_all
        show "map q_lock t = qlocks s" using remove_locks[OF t(1)] by simp
        show "rset (Q[rq c j := xs @ ys]) d = rset Q d - {pid}" if "d < 4" for d
          using rs[OF that] procs_okD(2)[OF M(2) that, of pid] p(1) by auto
        show "Q[rq c j := xs @ ys] ! i = Q ! i" if "i < 50" for i using that rq_ge[of c j] by simp
      qed (use D(2) run in auto)
      moreover have "kill (int c) pid s = Some (OK, ?S t)"
        using bad p(1) po(3) f True L(1) t(1) False by (simp add: kill_def)
      ultimately show ?thesis using h(3) still dead by blast
    next
      case no: False
      have "kill (int c) pid s = Some (OK, ?S (queuetab s))"
        using bad p(1) po(3) f False no L(1) by (simp add: kill_def)
      moreover have "kern_inv (?S (queuetab s)) Q G" using fin[OF no] still by blast
      ultimately show ?thesis using h(3) dead by blast
    qed
  qed
qed

section \<open>Creating a process\<close>

lemma newpid_loop_find:
  assumes "length (proctab s) = nat NPROC" and "0 \<le> nextpid s" and "nextpid s < NPROC"
  shows "\<exists>w. 0 \<le> w \<and> w < NPROC \<and> newpid_loop n s =
    (case rr_find (\<lambda>i. p_state (pcb_of s i) = PRFREE) NPROC n (nextpid s) of
       Some p \<Rightarrow> Some (p, s\<lparr>nextpid := p\<rparr>) | None \<Rightarrow> Some (SYSERR, s\<lparr>nextpid := w\<rparr>))"
  using assms
proof (induction n arbitrary: s)
  case 0
  then show ?case by (intro exI[of _ "nextpid s"]) simp
next
  case (Suc n)
  let ?v = "atomic_increment_mod (nextpid s) NPROC"
  have v: "0 \<le> ?v" "?v < NPROC" using atomic_increment_mod_range Suc.prems by auto
  then have ib: "inb (proctab s) ?v" using Suc.prems(1) by (auto simp: inb_def)
  from Suc.IH[of "s\<lparr>nextpid := ?v\<rparr>"] v Suc.prems(1) obtain w where "0 \<le> w" "w < NPROC"
    "newpid_loop n (s\<lparr>nextpid := ?v\<rparr>) = (case rr_find (\<lambda>i. p_state (pcb_of s i) = PRFREE) NPROC n ?v of
       Some p \<Rightarrow> Some (p, s\<lparr>nextpid := p\<rparr>) | None \<Rightarrow> Some (SYSERR, s\<lparr>nextpid := w\<rparr>))"
    by (auto cong: option.case_cong)
  then show ?case using ib v by (intro exI[of _ w]) (auto simp: Let_def)
qed

lemma newpid_ok:
  assumes "length (proctab s) = nat NPROC" and "0 \<le> nextpid s" and "nextpid s < NPROC"
  shows "(\<exists>w. newpid s = Some (w, s\<lparr>nextpid := w\<rparr>) \<and> pid_ok w \<and> p_state (pcb_of s w) = PRFREE) \<or>
    (\<exists>w. newpid s = Some (SYSERR, s\<lparr>nextpid := w\<rparr>) \<and> pid_ok w \<and> (\<forall>p. pid_ok p \<longrightarrow> live (proctab s) p))"
proof -
  let ?P = "\<lambda>i. p_state (pcb_of s i) = PRFREE"
  obtain w where w: "0 \<le> w" "w < NPROC" "newpid s = (case rr_find ?P NPROC (nat NPROC) (nextpid s) of
       Some p \<Rightarrow> Some (p, s\<lparr>nextpid := p\<rparr>) | None \<Rightarrow> Some (SYSERR, s\<lparr>nextpid := w\<rparr>))"
    using newpid_loop_find[OF assms, of "nat NPROC"] by (auto simp: newpid_def)
  show ?thesis
  proof (cases "rr_find ?P NPROC (nat NPROC) (nextpid s)")
    case None
    then show ?thesis using w rr_find_complete[OF assms(2,3), of ?P] by (auto simp: live_def pid_ok_def)
  next
    case (Some p)
    then show ?thesis using w rr_find_Some[OF Some assms(2,3)] by (auto simp: pid_ok_def)
  qed
qed

text \<open>The stack frame that a new process starts with.\<close>

lemma push_pads_eq:
  "push_pads n (a, m) = (a - 4 * of_nat n, \<lambda>x. if \<exists>k. 1 \<le> k \<and> k \<le> n \<and> x = a - 4 * of_nat k then 0 else m x)"
proof (induction n arbitrary: a m)
  case 0
  then show ?case by auto
next
  case (Suc n)
  have "push_pads (Suc n) (a, m) = (a - 4 - 4 * of_nat n,
      \<lambda>x. if \<exists>k. 1 \<le> k \<and> k \<le> n \<and> x = a - 4 - 4 * of_nat k then 0 else (m(a - 4 := 0)) x)"
    unfolding push_pads.simps push_def prod.case by (rule Suc)
  moreover have "(\<exists>k. 1 \<le> k \<and> k \<le> Suc n \<and> x = a - 4 * of_nat k) \<longleftrightarrow>
      (\<exists>k. 1 \<le> k \<and> k \<le> n \<and> x = a - 4 - 4 * of_nat k) \<or> x = a - 4" for x
  proof
    assume "\<exists>k. 1 \<le> k \<and> k \<le> Suc n \<and> x = a - 4 * of_nat k"
    then obtain k where k: "1 \<le> k" "k \<le> Suc n" "x = a - 4 * of_nat k" by blast
    then show "(\<exists>k. 1 \<le> k \<and> k \<le> n \<and> x = a - 4 - 4 * of_nat k) \<or> x = a - 4"
    proof (cases "k = 1")
      case False
      with k obtain j where "k = Suc j" "1 \<le> j" "j \<le> n" by (cases k) auto
      with k(3) show ?thesis by (intro disjI1 exI[of _ j]) (simp add: algebra_simps)
    qed simp
  next
    assume "(\<exists>k. 1 \<le> k \<and> k \<le> n \<and> x = a - 4 - 4 * of_nat k) \<or> x = a - 4"
    then show "\<exists>k. 1 \<le> k \<and> k \<le> Suc n \<and> x = a - 4 * of_nat k"
    proof
      assume "\<exists>k. 1 \<le> k \<and> k \<le> n \<and> x = a - 4 - 4 * of_nat k"
      then obtain k where "1 \<le> k" "k \<le> n" "x = a - 4 - 4 * of_nat k" by blast
      then show ?thesis by (intro exI[of _ "Suc k"]) (simp add: algebra_simps)
    qed (auto intro!: exI[of _ 1])
  qed
  ultimately show ?case by (auto simp: fun_eq_iff algebra_simps)
qed

lemma word4_inj:
  fixes a :: u32
  assumes "a - 4 * of_nat j = a - 4 * of_nat k" and "j < 2 ^ 30" and "k < 2 ^ 30"
  shows "j = k"
proof -
  have "unat (4 * of_nat i :: u32) = 4 * i" if "i < 2 ^ 30" for i
    using that by (simp add: unat_word_ariths unat_of_nat)
  moreover have "(4 * of_nat j :: u32) = 4 * of_nat k" using assms(1) by simp
  ultimately show ?thesis using assms(2,3) by (metis mult_left_cancel zero_neq_numeral)
qed

lemma load_args_ok:
  assumes "nargs \<le> length ap" and "4 \<le> length rs" and "i \<le> min nargs 4"
  shows "\<exists>rs'. load_args i nargs ap rs = Some (min nargs 4, rs') \<and> length rs' = length rs \<and>
    (\<forall>k < length rs. rs' ! k = (if i \<le> k \<and> k < min nargs 4 then ap ! k else rs ! k))"
  using assms
proof (induction "min nargs 4 - i" arbitrary: i rs)
  case 0
  then have "i = min nargs 4" by simp
  then have "load_args i nargs ap rs = Some (min nargs 4, rs)"
    by (subst load_args.simps) auto
  then show ?case using \<open>i = min nargs 4\<close> by auto
next
  case (Suc n)
  then have i: "i < nargs" "i < 4" "n = min nargs 4 - Suc i" by auto
  from Suc.hyps(1)[OF i(3), of "rs[i := ap ! i]"] Suc.prems i obtain rs' where
    r: "load_args (Suc i) nargs ap (rs[i := ap ! i]) = Some (min nargs 4, rs')" "length rs' = length rs"
      "\<forall>k < length rs. rs' ! k = (if Suc i \<le> k \<and> k < min nargs 4 then ap ! k else rs[i := ap ! i] ! k)" by auto
  then have "load_args i nargs ap rs = Some (min nargs 4, rs')"
    using i Suc.prems by (simp add: load_args.simps[of i] nget_def aset_int)
  then show ?case using r i by (auto simp: nth_list_update Suc_le_eq not_less dest: le_antisym)
qed

lemma store_args_ok:
  assumes "nargs \<le> length ap" and "nargs < 2 ^ 30"
  shows "\<exists>m'. store_args i nargs ap a m = Some m' \<and> (\<forall>k. i \<le> k \<and> k < nargs \<longrightarrow> m' (a + 4 * of_nat k - 16) = ap ! k) \<and>
    (\<forall>x. (\<forall>k. i \<le> k \<and> k < nargs \<longrightarrow> x \<noteq> a + 4 * of_nat k - 16) \<longrightarrow> m' x = m x)"
proof (induction "nargs - i" arbitrary: i m)
  case 0
  then show ?case by (auto simp: store_args.simps[of i])
next
  case (Suc n)
  then have i: "i < nargs" "n = nargs - Suc i" by auto
  let ?b = "a + 4 * of_nat i - 16"
  from Suc.hyps(1)[OF i(2), of "m(?b := ap ! i)"] obtain m' where
    r: "store_args (Suc i) nargs ap a (m(?b := ap ! i)) = Some m'"
      "\<forall>k. Suc i \<le> k \<and> k < nargs \<longrightarrow> m' (a + 4 * of_nat k - 16) = ap ! k"
      "\<forall>x. (\<forall>k. Suc i \<le> k \<and> k < nargs \<longrightarrow> x \<noteq> a + 4 * of_nat k - 16) \<longrightarrow> m' x = (m(?b := ap ! i)) x" by blast
  have inj: "k = i" if "a + 4 * of_nat k - 16 = ?b" "k < nargs" for k
    using word4_inj[of 0 k i] that i(1) assms(2) by simp
  have "m' ?b = ap ! i" using r(3) inj by (metis Suc_n_not_le_n fun_upd_same)
  then have "\<forall>k. i \<le> k \<and> k < nargs \<longrightarrow> m' (a + 4 * of_nat k - 16) = ap ! k" using r(2) by (metis Suc_leI le_neq_implies_less)
  moreover have "store_args i nargs ap a m = Some m'" using i(1) r(1) assms(1) by (simp add: store_args.simps[of i] nget_def)
  moreover have "\<forall>x. (\<forall>k. i \<le> k \<and> k < nargs \<longrightarrow> x \<noteq> a + 4 * of_nat k - 16) \<longrightarrow> m' x = m x"
  proof (intro allI impI)
    fix x assume x: "\<forall>k. i \<le> k \<and> k < nargs \<longrightarrow> x \<noteq> a + 4 * of_nat k - 16"
    then have "x \<noteq> ?b" using i(1) by blast
    moreover have "m' x = (m(?b := ap ! i)) x" using r(3) x by (meson Suc_leD)
    ultimately show "m' x = m x" by simp
  qed
  ultimately show ?case by blast
qed


definition pads_of :: "nat \<Rightarrow> nat" where
  "pads_of nargs = (if nargs \<noteq> 0 then ((nargs - 1) div 4) * 4 else 0)"

lemma pads_bounds: "pads_of nargs \<le> nargs" "nargs \<le> pads_of nargs + 4"
proof -
  have "(nargs - 1) div 4 * 4 \<le> nargs - 1" "nargs - 1 < (nargs - 1) div 4 * 4 + 4"
    using div_mult_mod_eq[of "nargs - 1" 4] mod_less_divisor[of 4 "nargs - 1"] by linarith+
  then show "pads_of nargs \<le> nargs" "nargs \<le> pads_of nargs + 4" by (auto simp: pads_of_def)
qed

lemma create_stack_ok:
  fixes base ssize :: u32
  assumes n: "nargs \<le> length ap" "16 + 4 * nargs \<le> unat ssize" and r: "length rs = 16"
  defines "a \<equiv> base + ssize"
  shows "\<exists>rs' m'. create_stack base ssize pid nargs ap rs m = Some (a - 16 - 4 * of_nat (pads_of nargs), rs', m') \<and>
    length rs' = 16 \<and> (\<forall>k < min nargs 4. rs' ! k = ap ! k) \<and>
    m' (a - 4) = STACKMAGIC \<and> m' (a - 8) = u32_of pid \<and> m' (a - 12) = ssize \<and> m' (a - 16) = base \<and>
    (\<forall>k. 4 \<le> k \<and> k < nargs \<longrightarrow> m' (a - 16 - 4 * of_nat (pads_of nargs) + 4 * of_nat (k - 4)) = ap ! k) \<and>
    (\<forall>x. (\<forall>k. 1 \<le> k \<and> k \<le> 4 + pads_of nargs \<longrightarrow> x \<noteq> a - 4 * of_nat k) \<longrightarrow> m' x = m x)"
proof -
  let ?p = "pads_of nargs" and ?sp = "a - 16 - 4 * of_nat (pads_of nargs)"
  have lt: "nargs + 4 < 2 ^ 30" using n(2) unsigned_less[of ssize, where ?'a = nat] by simp
  let ?m1 = "m(a - 4 := STACKMAGIC, a - 8 := u32_of pid, a - 12 := ssize, a - 16 := base)"
  define m2 where "m2 = (\<lambda>x. if \<exists>k. 1 \<le> k \<and> k \<le> ?p \<and> x = a - 16 - 4 * of_nat k then 0 else ?m1 x)"
  have pp: "push_pads ?p (push base (push ssize (push (u32_of pid) (base + ssize - 4, m(base + ssize - 4 := STACKMAGIC))))) = (?sp, m2)"
  proof -
    have "push base (push ssize (push (u32_of pid) (base + ssize - 4, m(base + ssize - 4 := STACKMAGIC)))) = (a - 16, ?m1)"
      by (simp add: push_def a_def diff_diff_eq)
    then show ?thesis unfolding m2_def by (simp only: push_pads_eq)
  qed
  obtain rs' where l: "load_args 0 nargs ap rs = Some (min nargs 4, rs')" "length rs' = 16" "\<forall>k < min nargs 4. rs' ! k = ap ! k"
    using load_args_ok[OF n(1), of rs 0] r by auto
  obtain m' where st: "store_args (min nargs 4) nargs ap ?sp m2 = Some m'"
    "\<forall>k. min nargs 4 \<le> k \<and> k < nargs \<longrightarrow> m' (?sp + 4 * of_nat k - 16) = ap ! k"
    "\<forall>x. (\<forall>k. min nargs 4 \<le> k \<and> k < nargs \<longrightarrow> x \<noteq> ?sp + 4 * of_nat k - 16) \<longrightarrow> m' x = m2 x"
    using store_args_ok[OF n(1), of "min nargs 4" ?sp m2] lt by auto
  have cs: "create_stack base ssize pid nargs ap rs m = Some (?sp, rs', m')"
    using pp l(1) st(1) by (simp add: create_stack_def Let_def pads_of_def)
  have arg: "?sp + 4 * of_nat k - 16 = a - 4 * of_nat (8 + ?p - k)" "5 \<le> 8 + ?p - k" "8 + ?p - k \<le> 4 + ?p"
    if "min nargs 4 \<le> k" "k < nargs" for k
  proof -
    have k: "k < 4 + ?p" "4 \<le> k" using pads_bounds[of nargs] that by auto
    then have e: "(of_nat (8 + ?p - k) :: u32) = 8 + of_nat ?p - of_nat k" by (simp add: of_nat_diff)
    show "?sp + 4 * of_nat k - 16 = a - 4 * of_nat (8 + ?p - k)" unfolding e by (simp add: algebra_simps)
    show "5 \<le> 8 + ?p - k" "8 + ?p - k \<le> 4 + ?p" using k by auto
  qed
  have old: "m' (a - 4 * of_nat j) = m2 (a - 4 * of_nat j)" if j: "j < 5" for j
  proof -
    have "a - 4 * of_nat j \<noteq> ?sp + 4 * of_nat k - 16" if k: "min nargs 4 \<le> k" "k < nargs" for k
      using word4_inj[of a j "8 + ?p - k"] arg[OF k] j pads_bounds[of nargs] lt by auto
    then show ?thesis using st(3) by blast
  qed
  have m2o: "m2 (a - 4 * of_nat j) = ?m1 (a - 4 * of_nat j)" if j: "j < 5" for j
  proof -
    have "a - 4 * of_nat j \<noteq> a - 16 - 4 * of_nat k" if k: "1 \<le> k" "k \<le> ?p" for k
      using word4_inj[of a j "4 + k"] j k pads_bounds[of nargs] lt by auto
    then show ?thesis unfolding m2_def by meson
  qed
  have v: "m' (a - 4 * of_nat j) = ?m1 (a - 4 * of_nat j)" if "j < 5" for j using old[OF that] m2o[OF that] by simp
  have ar: "\<forall>k. 4 \<le> k \<and> k < nargs \<longrightarrow> m' (?sp + 4 * of_nat (k - 4)) = ap ! k"
  proof (intro allI impI)
    fix k assume k: "4 \<le> k \<and> k < nargs"
    have "?sp + 4 * of_nat (k - 4) = ?sp + 4 * of_nat k - 16" using k by (simp add: of_nat_diff algebra_simps)
    then show "m' (?sp + 4 * of_nat (k - 4)) = ap ! k" using spec[OF st(2), of k] k by simp
  qed
  have fr: "m' x = m x" if x: "\<forall>k. 1 \<le> k \<and> k \<le> 4 + ?p \<longrightarrow> x \<noteq> a - 4 * of_nat k" for x
  proof -
    have "x \<noteq> ?sp + 4 * of_nat k - 16" if k: "min nargs 4 \<le> k" "k < nargs" for k
    proof -
      have "1 \<le> 8 + ?p - k" using arg(2)[OF k] by linarith
      then show ?thesis unfolding arg(1)[OF k] using x arg(3)[OF k] by blast
    qed
    then have "m' x = m2 x" using st(3) by blast
    moreover have "x \<noteq> a - 16 - 4 * of_nat k" if k: "1 \<le> k" "k \<le> ?p" for k
      using spec[OF x, of "4 + k"] k by (simp add: algebra_simps)
    then have "m2 x = ?m1 x" unfolding m2_def by meson
    moreover have "x \<noteq> a - 4" "x \<noteq> a - 8" "x \<noteq> a - 12" "x \<noteq> a - 16"
      using spec[OF x, of 1] spec[OF x, of 2] spec[OF x, of 3] spec[OF x, of 4] by simp_all
    ultimately show ?thesis by simp
  qed
  have "m' (a - 4) = STACKMAGIC" "m' (a - 8) = u32_of pid" "m' (a - 12) = ssize" "m' (a - 16) = base"
    using v[of 1] v[of 2] v[of 3] v[of 4] by simp_all
  then show ?thesis using fr by (intro exI[of _ rs'] exI[of _ m'] conjI cs l(2,3) ar) blast+
qed

lemma round_ssize_unat:
  assumes "unat ssize \<le> 2 ^ 32 - 8"
  shows "unat (round_ssize ssize) = 4 * ((max 4096 (unat ssize) + 3) div 4)"
proof -
  let ?z = "if ssize < MINSTK then MINSTK else ssize"
  have z: "unat ?z = max 4096 (unat ssize)" by (simp add: MINSTK_def word_less_nat_alt)
  then have "unat (?z + 3) = max 4096 (unat ssize) + 3" using assms by (simp add: unat_word_ariths)
  moreover have "(0xFFFFFFFC :: u32) = NOT (mask 2)" by (simp add: mask_eq_exp_minus_1)
  ultimately show ?thesis using unat_and_not_mask[of "?z + 3" 2] by (simp add: round_ssize_def)
qed

lemma round_ssize_ok:
  assumes "unat ssize \<le> 2 ^ 32 - 8"
  shows "req_ok (round_ssize ssize)" "4096 \<le> unat (round_ssize ssize)" "unat ssize \<le> unat (round_ssize ssize)"
proof -
  note U = round_ssize_unat[OF assms]
  have "4 * ((max 4096 (unat ssize) + 3) div 4) \<ge> max 4096 (unat ssize)" by linarith
  moreover have "max 4096 (unat ssize) + 3 \<le> 4294967291" using assms by simp
  then have "4 * ((max 4096 (unat ssize) + 3) div 4) \<le> 2 ^ 32 - 8"
    using div_le_mono[of "max 4096 (unat ssize) + 3" 4294967291 4] by simp
  ultimately show "req_ok (round_ssize ssize)" "4096 \<le> unat (round_ssize ssize)" "unat ssize \<le> unat (round_ssize ssize)"
    using U by (auto simp: req_ok_def)
qed

lemma getmem_owned:
  fixes s :: "'a memst_scheme"
  assumes rep: "heap_rep s F" and c: "c < 4" and n: "req_ok n"
  shows "getmem (int c) n s = Some (SYSERRP, s) \<or>
    (\<exists>p m fl G. getmem (int c) n s = Some (p, s\<lparr>mem := m, freelist := fl\<rparr>) \<and> p \<noteq> SYSERRP \<and> heap_rep (s\<lparr>mem := m, freelist := fl\<rparr>) G \<and>
      layout (s\<lparr>mem := m, freelist := fl\<rparr>) = layout s \<and> in_layout (layout s) (p, n) \<and>
      blk_bytes (p, n) \<subseteq> avail F \<and> avail G = avail F - blk_bytes (p, n))"
proof -
  have g: "0 \<le> int c \<and> int c < NCORES \<and> req_ok n" using c n by (simp add: NCORES_def)
  then have n': "n \<noteq> 0" "unat n \<le> 2 ^ 32 - 8" by (auto simp: req_ok_def)
  show ?thesis
  proof (cases "alloc_list (roundmb n) (at F (int c))")
    case None
    then show ?thesis using getmem_rep[OF rep _ _ n' refl, of "int c"] g by simp
  next
    case (Some pr)
    obtain p bs where pr: "pr = (p, bs)" by (cases pr)
    note B = getmem_block[OF rep g Some[unfolded pr]]
    have "bytes (at F (int c)) \<subseteq> avail F" unfolding avail_def using g by (intro UN_upper) simp
    moreover obtain m fl where "getmem (int c) n s = Some (p, s\<lparr>mem := m, freelist := fl\<rparr>)"
      "heap_rep (s\<lparr>mem := m, freelist := fl\<rparr>) (F[nat (int c) := bs])" "layout (s\<lparr>mem := m, freelist := fl\<rparr>) = layout s"
      using getmem_rep[OF rep _ _ n' refl, of "int c"] g Some pr by auto
    ultimately show ?thesis using B by blast
  qed
qed

lemma block_top:
  assumes rep: "heap_rep s F" and own: "in_layout (layout s) (base, n)" and k: "1 \<le> k" "4 * k \<le> unat n"
  shows "unat (base + n - 4 * of_nat k) \<in> blk_bytes (base, n)"
proof -
  from own have n: "n \<noteq> 0" "unat n \<le> 2 ^ 32 - 8" by (auto simp: in_layout_def req_ok_def)
  from in_layoutE[OF own rep] obtain d where d: "0 \<le> d" "d < NCORES" "blk_bytes (base, n) \<subseteq> region (at (freelist s) d)" by auto
  note r = roundmb_pos[OF n]
  have "unat base + unat (roundmb n) - 1 \<in> blk_bytes (base, n)" using r(2) by (auto simp: blk_bytes_def)
  then have "unat base + unat (roundmb n) - 1 \<le> unat (maxaddr s)" using d heap_repD(4)[OF rep d(1,2)] by blast
  then have top: "unat base + unat n \<le> 2 ^ 32" using r(3) unsigned_less[of "maxaddr s", where ?'a = nat] by simp
  have k4: "unat (4 * of_nat k :: u32) = 4 * k"
    using k(2) unsigned_less[of n, where ?'a = nat] by (simp add: unat_word_ariths unat_of_nat)
  then have sub: "unat (n - 4 * of_nat k) = unat n - 4 * k" using k(2) by (simp add: unat_sub word_le_nat_alt)
  then have "unat (base + (n - 4 * of_nat k)) = unat base + (unat n - 4 * k)" using top k by (simp add: unat_word_ariths)
  then show ?thesis using k r(3) unfolding add_diff_eq[symmetric] by (auto simp: blk_bytes_def)
qed

lemma procs_ok_new:
  assumes ok: "procs_ok {..<4} P cur Q" and len: "length P = nat NPROC" and pid: "pid_ok pid" "p_state (at P pid) = PRFREE"
    and cur: "\<And>d. d < 4 \<Longrightarrow> p_state (at P (cur ! d)) = PRCURR"
    and v: "p_state v = PRSUSP" "core_affinity v = -1" "0 \<le> priority v" "priority v < 3"
  shows "procs_ok {..<4} (P[nat pid := v]) cur Q"
proof -
  note U = at_state_upd[OF len pid(1), of _ v]
  have n: "pid_ok (int d)" if "d < 4" for d using that by (auto simp: pid_ok_def NPROC_def)
  show ?thesis
    apply (rule procs_okI)
    subgoal for x using procs_okD(1)[OF ok, of x] U[of x] v by (auto split: if_splits)
    subgoal for d x using procs_okD(2)[OF ok, of d x] U[of x] pid(2) by (auto split: if_splits)
    subgoal for i x using procs_okD(3)[OF ok, of i x] U[of x] pid(2) by (auto split: if_splits)
    subgoal for x using procs_okD(4)[OF ok, of x] U[of x] v by (auto split: if_splits)
    subgoal for d using procs_okD(5)[OF ok, of d] cur[of d] U[of "cur ! d"] pid(2) by (auto split: if_splits)
    subgoal for x using procs_okD(6)[OF ok, of x] U[of x] v by (auto split: if_splits)
    subgoal for d using procs_okD(7)[OF ok, of d] U[OF n, of d] pid(2) by (auto split: if_splits)
    done
qed

text \<open>What \<^verbatim>\<open>create\<close> leaves behind for a new process: its entry and its stack.\<close>

definition fresh_process ::
  "'a procst_scheme \<Rightarrow> int \<Rightarrow> u32 \<Rightarrow> u32 \<Rightarrow> u32 \<Rightarrow> u32 \<Rightarrow> int \<Rightarrow> nat \<Rightarrow> u32 list \<Rightarrow> bool" where
  "fresh_process s pid base n funcaddr userret_addr prio nargs ap \<longleftrightarrow>
     (let p = pcb_of s pid; a = base + n; sp = a - 16 - 4 * of_nat (pads_of nargs) in
      p_state p = PRSUSP \<and> priority p = prio \<and> core_affinity p = -1 \<and> stkbase p = base \<and> stklen p = n \<and>
      hasMessage (msg_var p) = 0 \<and>
      regs p ! PREG_PC = funcaddr \<and> regs p ! PREG_LR = userret_addr \<and> regs p ! PREG_SP = sp \<and>
      (\<forall>k < min nargs 4. regs p ! k = ap ! k) \<and>
      (\<forall>k. 4 \<le> k \<and> k < nargs \<longrightarrow> mem s (sp + 4 * of_nat (k - 4)) = ap ! k) \<and>
      mem s (a - 4) = STACKMAGIC \<and> mem s (a - 8) = u32_of pid \<and> mem s (a - 12) = n \<and> mem s (a - 16) = base)"

lemma kern_inv_heap:
  fixes s :: "'a procst_scheme"
  assumes inv: "kern_inv s Q F" and h: "heap_rep (s\<lparr>mem := m, freelist := fl\<rparr>) G" "layout (s\<lparr>mem := m, freelist := fl\<rparr>) = layout s"
      "avail G \<subseteq> avail F" and w: "pid_ok w"
  shows "kern_inv (s\<lparr>mem := m, freelist := fl, nextpid := w\<rparr>) Q G" (is "kern_inv ?s Q G")
proof -
  note M = kern_midD[OF inv[unfolded kern_inv_def]]
  have "kern_shape ?s Q" using M(1) queues_rep_cong[OF kern_shapeD(1)[OF M(1)], of ?s] by (simp add: kern_shape_def)
  moreover have "heap_rep ?s G" by (rule heap_rep_cong[OF h(1)]) simp_all
  moreover have "layout ?s = layout s" using h(2) by (simp add: layout_def)
  then have "stacks_ok ?s G" using M(3) h(3) \<open>heap_rep ?s G\<close> unfolding stacks_ok_def by (simp) blast
  moreover have "boxes_ok ?s" by (rule boxes_ok_cong[OF M(4)]) (simp_all add: mbox_def)
  moreover have "counters_ok ?s" using M(5) w by (simp add: counters_ok_def pid_ok_def)
  ultimately show ?thesis using M(2,6) by (simp add: kern_inv_def kern_mid_def)
qed

text \<open>The new entry and its memory, put into a kernel state that has a free entry.\<close>

lemma kern_inv_new:
  fixes s :: "'a procst_scheme"
  assumes inv: "kern_inv s Q G" and pid: "pid_ok pid" "p_state (pcb_of s pid) = PRFREE"
    and own: "in_layout (layout s) (base, n)" "blk_bytes (base, n) \<inter> avail G = {}"
      "\<And>p. user (proctab s) p \<Longrightarrow> blk_bytes (base, n) \<inter> blk_bytes (stack_of (proctab s) p) = {}"
    and m: "\<And>x. unat x \<notin> blk_bytes (base, n) \<Longrightarrow> m x = mem s x"
    and v: "p_state v = PRSUSP" "core_affinity v = -1" "0 \<le> priority v" "priority v < 3" "stkbase v = base" "stklen v = n"
      "length (regs v) = 16" "length (p_name v) = PNMLEN" "same_box (mbox s pid) (msg_var v)"
  shows "kern_inv (s\<lparr>numproc := numproc s + 1, mem := m, proctab := (proctab s)[nat pid := v]\<rparr>) Q G" (is "kern_inv ?s Q G")
proof -
  note M = kern_midD[OF inv[unfolded kern_inv_def]]
  note D = kern_shapeD[OF M(1)] and L = kern_shape_proc[OF M(1) pid(1)]
  note U = at_state_upd[OF L(2) pid(1), of _ v]
  have run: "p_state (pcb_of s (currpid s ! d)) = PRCURR" if "d < 4" for d using M(6)[of d] that by simp
  have lv: "live (proctab ?s) x \<longleftrightarrow> live (proctab s) x \<or> x = pid" for x
    using U[of x] v(1) pid by (auto simp: live_def split: if_splits)
  have nl: "\<not> live (proctab s) pid" using pid(2) by (simp add: live_def)
  have p4: "4 \<le> pid"
  proof (rule ccontr)
    assume "\<not> 4 \<le> pid"
    then have "nat pid < 4" "int (nat pid) = pid" using pid by (auto simp: pid_ok_def)
    then show False using procs_okD(7)[OF M(2), of "nat pid"] pid by auto
  qed
  have "queues_rep ?s Q" by (rule queues_rep_cong[OF D(1)]) simp_all
  then have "kern_shape ?s Q" using M(1) v(7) by (auto simp: kern_shape_def dest!: in_set_upd)
  moreover have "procs_ok {..<4} (proctab ?s) (currpid ?s) Q"
    using procs_ok_new[OF M(2) L(2) pid run v(1-4)] by simp
  moreover have "stacks_ok ?s G" unfolding stacks_ok_def
  proof (intro conjI allI impI)
    have "heap_rep s G" using M(3) by (simp add: stacks_ok_def)
    then have "heap_rep (s\<lparr>mem := m\<rparr>) G" using m own(2) by (intro heap_rep_poke) auto
    then show "heap_rep ?s G" by (rule heap_rep_cong) simp_all
    have lay: "layout ?s = layout s" by (simp add: layout_def)
    have us: "user (proctab s) x \<and> stack_of (proctab ?s) x = stack_of (proctab s) x" if "user (proctab ?s) x" "x \<noteq> pid" for x
      using that lv[of x] U[of x] by (auto simp: user_def live_def)
    have np: "stack_of (proctab ?s) pid = (base, n)" using U[OF pid(1)] v by simp
    show "in_layout (layout ?s) (stack_of (proctab ?s) x)" if "user (proctab ?s) x" for x
      using us[OF that] np own(1) M(3) unfolding stacks_ok_def lay by (cases "x = pid") auto
    show "blk_bytes (stack_of (proctab ?s) x) \<inter> avail G = {}" if "user (proctab ?s) x" for x
      using us[OF that] np own(2) M(3) unfolding stacks_ok_def by (cases "x = pid") auto
    show "blk_bytes (stack_of (proctab ?s) x) \<inter> blk_bytes (stack_of (proctab ?s) y) = {}"
      if "user (proctab ?s) x \<and> user (proctab ?s) y \<and> x \<noteq> y" for x y
      using us[of x] us[of y] np own(3)[of x] own(3)[of y] M(3) that unfolding stacks_ok_def
      by (cases "x = pid"; cases "y = pid") (auto simp: Int_commute)
  qed
  moreover have "boxes_ok ?s" unfolding boxes_ok_def
  proof (intro allI impI)
    fix x assume x: "pid_ok x"
    have "same_box (mbox s x) (mbox ?s x)" using U[OF x] v(9) M(4) x by (auto simp: mbox_def same_box_def boxes_ok_def)
    then show "msgqueue (mbox ?s x) = qid (nat x) \<and> lock_idle (core_com_lock (mbox ?s x)) ?s \<and>
        (\<forall>k < 62. core_com_lock (mbox ?s x) \<noteq> ql (queuetab ?s) (qhead k)) \<and> hasMessage (mbox ?s x) \<in> {0, 1}"
      using M(4) x unfolding boxes_ok_def same_box_def lock_idle_def by simp
  qed
  moreover have "counters_ok ?s"
  proof -
    have "{x. live (proctab ?s) x} = insert pid {x. live (proctab s) x}" using lv by auto
    then have "card {x. live (proctab ?s) x} = Suc (card {x. live (proctab s) x})" using nl live_finite by simp
    then show ?thesis using M(5) v(8) by (auto simp: counters_ok_def dest!: in_set_upd)
  qed
  moreover have "p_state (pcb_of ?s (currpid ?s ! d)) = PRCURR" if "d < 4" for d
    using U[of "currpid s ! d"] run[OF that] procs_okD(5)[OF M(2), of d] pid(2) that by auto
  ultimately show ?thesis by (simp add: kern_inv_def kern_mid_def)
qed


definition new_pcb :: "pcb \<Rightarrow> u32 \<Rightarrow> u32 \<Rightarrow> u32 \<Rightarrow> buf \<Rightarrow> u32 list \<Rightarrow> pcb" where
  "new_pcb p base n prio name rs =
     p\<lparr>p_state := PRSUSP, stkbase := base, stklen := n, p_name := take PNMLEN (cstr name @ replicate PNMLEN 0), core_affinity := -1,
       priority := sint prio, msg_var := (msg_var p)\<lparr>hasMessage := 0, msgin := EMPTY, msgout := EMPTY\<rparr>,
       regs := rs\<rparr>"

lemma create_run:
  fixes s :: "'a procst_scheme"
  assumes g: "getmem c (round_ssize ssize) s = Some (base, s\<lparr>mem := m, freelist := fl\<rparr>)" "base \<noteq> SYSERRP"
    and np: "newpid (s\<lparr>mem := m, freelist := fl\<rparr>) = Some (pid, s\<lparr>mem := m, freelist := fl, nextpid := pid\<rparr>)" "0 \<le> pid"
    and ib: "inb (proctab s) pid" and name: "is_cstr name" "length (p_name (pcb_of s pid)) = PNMLEN"
    and st: "create_stack base (round_ssize ssize) pid nargs ap (regs (pcb_of s pid)) m = Some (sp, rs, m')" "length rs = 16"
  shows "create c userret_addr funcaddr ssize prio name nargs ap s = Some (pid, s\<lparr>mem := m', freelist := fl, nextpid := pid,
    numproc := numproc s + 1,
    proctab := (proctab s)[nat pid := new_pcb (pcb_of s pid) base (round_ssize ssize) prio name
      (rs[PREG_PC := funcaddr, PREG_LR := userret_addr, PREG_SP := sp])]\<rparr>)"
proof -
  have "strncpy (p_name (pcb_of s pid)) name PNMLEN = Some (take PNMLEN (cstr name @ replicate PNMLEN 0))"
    using strncpy_cstr[of name PNMLEN "p_name (pcb_of s pid)"] name by simp
  moreover have "PREG_SP < 16" "PREG_LR < 16" "PREG_PC < 16" by (simp_all add: PREG_LR_def PREG_PC_def PREG_SP_def)
  moreover have "SYSERR \<noteq> pid" "SYSERRP \<noteq> base" using np(2) g(2) by (auto simp: SYSERR_def)
  ultimately show ?thesis using g(1) np(1) ib st
    by (simp add: create_def Let_def aset_int new_pcb_def)
qed

lemma create_fresh:
  fixes s :: "'a procst_scheme"
  assumes inv: "kern_inv s Q F" and name: "is_cstr name" and ap: "nargs \<le> length ap" "16 + 4 * nargs \<le> unat (round_ssize ssize)"
    and prio: "unat prio < 3" and n: "n = round_ssize ssize"
    and g: "getmem c n s = Some (base, s\<lparr>mem := m, freelist := fl\<rparr>)" "base \<noteq> SYSERRP"
      "in_layout (layout s) (base, n)" "blk_bytes (base, n) \<subseteq> avail F" "layout (s\<lparr>mem := m, freelist := fl\<rparr>) = layout s"
    and inv1: "kern_inv (s\<lparr>mem := m, freelist := fl, nextpid := pid\<rparr>) Q G" and G: "avail G = avail F - blk_bytes (base, n)"
    and pid: "newpid (s\<lparr>mem := m, freelist := fl\<rparr>) = Some (pid, s\<lparr>mem := m, freelist := fl, nextpid := pid\<rparr>)"
      "pid_ok pid" "p_state (pcb_of s pid) = PRFREE"
  shows "\<exists>s'. create c userret_addr funcaddr ssize prio name nargs ap s = Some (pid, s') \<and> kern_inv s' Q G \<and>
    fresh_process s' pid base n funcaddr userret_addr (uint prio) nargs ap \<and> (\<forall>x. pid_ok x \<and> x \<noteq> pid \<longrightarrow> pcb_of s' x = pcb_of s x)"
proof -
  note M = kern_midD[OF inv[unfolded kern_inv_def]]
  have hp: "heap_rep s F" using M(3) by (simp add: stacks_ok_def)
  let ?p = "pcb_of s pid" and ?a = "base + n" and ?s2 = "s\<lparr>mem := m, freelist := fl, nextpid := pid\<rparr>"
  let ?sp = "?a - 16 - 4 * of_nat (pads_of nargs)"
  note L = kern_shape_proc[OF M(1) pid(2)]
  obtain rs m' where cs: "create_stack base n pid nargs ap (regs ?p) m = Some (?sp, rs, m')" "length rs = 16"
    "\<forall>k < min nargs 4. rs ! k = ap ! k"
    "m' (?a - 4) = STACKMAGIC" "m' (?a - 8) = u32_of pid" "m' (?a - 12) = n" "m' (?a - 16) = base"
    "\<forall>k. 4 \<le> k \<and> k < nargs \<longrightarrow> m' (?sp + 4 * of_nat (k - 4)) = ap ! k"
    "\<forall>x. (\<forall>k. 1 \<le> k \<and> k \<le> 4 + pads_of nargs \<longrightarrow> x \<noteq> ?a - 4 * of_nat k) \<longrightarrow> m' x = m x"
    using create_stack_ok[OF ap(1) _ L(3), of n base pid m] ap(2) n by auto
  define v where "v = new_pcb ?p base n prio name (rs[PREG_PC := funcaddr, PREG_LR := userret_addr, PREG_SP := ?sp])"
  let ?s' = "?s2\<lparr>numproc := numproc ?s2 + 1, mem := m', proctab := (proctab ?s2)[nat pid := v]\<rparr>"
  have "prio = 0 \<or> prio = 1 \<or> prio = 2" using prio by (auto simp: word_unat_eq_iff)
  then have pr3: "sint prio = uint prio" "0 \<le> uint prio" "uint prio < 3" by auto
  have nm: "length (p_name ?p) = PNMLEN" using M(5) at_in_set[OF L(1)] by (simp add: counters_ok_def)
  have run: "create c userret_addr funcaddr ssize prio name nargs ap s = Some (pid, ?s')"
    using create_run[OF g(1)[unfolded n] g(2) pid(1) _ L(1) name nm cs(1)[unfolded n] cs(2), of userret_addr funcaddr prio] pid(2)
    by (simp add: n v_def pid_ok_def)
  have in_blk: "unat (?a - 4 * of_nat k) \<in> blk_bytes (base, n)" if "1 \<le> k" "k \<le> 4 + pads_of nargs" for k
    using block_top[OF hp g(3) that(1)] that pads_bounds(1)[of nargs] ap(2) n by simp
  have "kern_inv ?s' Q G"
  proof (rule kern_inv_new[OF inv1, where base = base and n = n])
    show "in_layout (layout ?s2) (base, n)" using g(3,5) by (simp add: layout_def)
    show "blk_bytes (base, n) \<inter> blk_bytes (stack_of (proctab ?s2) p) = {}" if "user (proctab ?s2) p" for p
      using that g(4) M(3) unfolding stacks_ok_def by auto
    show "m' x = mem ?s2 x" if x: "unat x \<notin> blk_bytes (base, n)" for x
    proof -
      have "x \<noteq> ?a - 4 * of_nat k" if "1 \<le> k \<and> k \<le> 4 + pads_of nargs" for k using in_blk[of k] x that by blast
      then show ?thesis using cs(9) by simp
    qed
    show "0 \<le> priority v" "priority v < 3" using pr3 by (auto simp: v_def new_pcb_def)
  qed (use pid M(4) cs(2) G in \<open>auto simp: v_def new_pcb_def same_box_def mbox_def boxes_ok_def\<close>)
  moreover have "fresh_process ?s' pid base n funcaddr userret_addr (uint prio) nargs ap"
    using L(1) cs(2-8) pr3(1)
    by (simp add: fresh_process_def Let_def v_def new_pcb_def PREG_LR_def PREG_PC_def PREG_SP_def add.assoc)
  moreover have "pcb_of ?s' x = pcb_of s x" if "pid_ok x" "x \<noteq> pid" for x
    using at_state_upd[OF L(2) pid(2) that(1), of v] that(2) by simp
  ultimately show ?thesis using run by blast
qed

text \<open>
  What \<^verbatim>\<open>create\<close> does: it fails when there is no memory for the stack, and when there is no
  free entry, in which case the stack stays allocated; otherwise there is a new process.
\<close>

definition create_fails :: "int \<Rightarrow> u32 \<Rightarrow> 'a procst_scheme \<Rightarrow> blk list list \<Rightarrow> blk list list \<Rightarrow> bool" where
  "create_fails c n s F G \<longleftrightarrow>
     getmem c n s = Some (SYSERRP, s) \<and> avail G = avail F \<or>
     (\<forall>p. pid_ok p \<longrightarrow> live (proctab s) p) \<and> (\<exists>base. blk_bytes (base, n) \<subseteq> avail F \<and> avail G = avail F - blk_bytes (base, n))"

lemma create_ok:
  fixes s :: "'a procst_scheme"
  assumes inv: "kern_inv s Q F" and c: "c < 4" and name: "is_cstr name" and ap: "nargs \<le> length ap" "16 + 4 * nargs \<le> 4096"
    and prio: "unat prio < 3" and sz: "unat ssize \<le> 2 ^ 32 - 8"
  defines "n \<equiv> round_ssize ssize"
  shows "(\<exists>s' G. create (int c) userret_addr funcaddr ssize prio name nargs ap s = Some (SYSERR, s') \<and>
      kern_inv s' Q G \<and> proctab s' = proctab s \<and> create_fails (int c) n s F G) \<or>
    (\<exists>pid base s' G. create (int c) userret_addr funcaddr ssize prio name nargs ap s = Some (pid, s') \<and>
      kern_inv s' Q G \<and> \<not> live (proctab s) pid \<and> pid_ok pid \<and> fresh_process s' pid base n funcaddr userret_addr (uint prio) nargs ap \<and>
      blk_bytes (base, n) \<subseteq> avail F \<and> avail G = avail F - blk_bytes (base, n) \<and>
      (\<forall>x. pid_ok x \<and> x \<noteq> pid \<longrightarrow> pcb_of s' x = pcb_of s x))"
proof -
  note M = kern_midD[OF inv[unfolded kern_inv_def]]
  have hp: "heap_rep s F" using M(3) by (simp add: stacks_ok_def)
  note r = round_ssize_ok[OF sz, folded n_def]
  have len: "length (proctab s) = nat NPROC" using M(1) by (simp add: kern_shape_def queues_rep_def proctab_wf_def)
  have np: "0 \<le> nextpid s" "nextpid s < NPROC" using M(5) by (auto simp: counters_ok_def)
  let ?create = "create (int c) userret_addr funcaddr ssize prio name nargs ap s"
  from getmem_owned[OF hp c r(1)] consider
    (none) "getmem (int c) n s = Some (SYSERRP, s)"
  | (some) base m fl G where "getmem (int c) n s = Some (base, s\<lparr>mem := m, freelist := fl\<rparr>)" "base \<noteq> SYSERRP"
      "heap_rep (s\<lparr>mem := m, freelist := fl\<rparr>) G" "layout (s\<lparr>mem := m, freelist := fl\<rparr>) = layout s"
      "in_layout (layout s) (base, n)" "blk_bytes (base, n) \<subseteq> avail F" "avail G = avail F - blk_bytes (base, n)"
    by blast
  then show ?thesis
  proof cases
    case none
    from newpid_ok[OF len np] obtain w r where w: "newpid s = Some (r, s\<lparr>nextpid := w\<rparr>)" "pid_ok w" by blast
    have "?create = Some (SYSERR, s\<lparr>nextpid := w\<rparr>)" using none w(1) by (simp add: create_def n_def)
    moreover have "kern_inv (s\<lparr>nextpid := w\<rparr>) Q F" using kern_inv_heap[OF inv, where m = "mem s" and fl = "freelist s" and G = F and w = w] hp w(2) by simp
    ultimately show ?thesis using none by (auto simp: create_fails_def)
  next
    case some
    let ?s1 = "s\<lparr>mem := m, freelist := fl\<rparr>"
    have len1: "length (proctab ?s1) = nat NPROC" "0 \<le> nextpid ?s1" "nextpid ?s1 < NPROC" using len np by simp_all
    have inv1: "kern_inv (s\<lparr>mem := m, freelist := fl, nextpid := w\<rparr>) Q G" if "pid_ok w" for w
      using kern_inv_heap[OF inv some(3,4) _ that] some(7) by simp
    from newpid_ok[OF len1] consider
      (full) w where "newpid ?s1 = Some (SYSERR, ?s1\<lparr>nextpid := w\<rparr>)" "pid_ok w" "\<forall>p. pid_ok p \<longrightarrow> live (proctab s) p"
    | (pid) pid where "newpid ?s1 = Some (pid, ?s1\<lparr>nextpid := pid\<rparr>)" "pid_ok pid" "p_state (pcb_of s pid) = PRFREE" by auto
    then show ?thesis
    proof cases
      case full
      then have "?create = Some (SYSERR, s\<lparr>mem := m, freelist := fl, nextpid := w\<rparr>)" using some(1) by (simp add: create_def n_def)
      then show ?thesis using inv1[OF full(2)] some(6,7) full(3) by (auto simp: create_fails_def)
    next
      case pid
      have "16 + 4 * nargs \<le> unat (round_ssize ssize)" using ap(2) r(2) by (simp add: n_def)
      from create_fresh[OF inv name ap(1) this prio meta_eq_to_obj_eq[OF n_def] some(1,2,5,6,4) inv1[OF pid(2)] some(7) pid(1)[simplified] pid(2,3)]
      have "\<exists>s'. ?create = Some (pid, s') \<and> kern_inv s' Q G \<and> fresh_process s' pid base n funcaddr userret_addr (uint prio) nargs ap \<and>
        (\<forall>x. pid_ok x \<and> x \<noteq> pid \<longrightarrow> pcb_of s' x = pcb_of s x)" .
      moreover have "\<not> live (proctab s) pid" using pid(3) by (simp add: live_def)
      ultimately show ?thesis using some(6,7) pid(2) by blast
    qed
  qed
qed

end
