(* ===== verification/Messages.thy ===== *)
theory Messages
  imports Process_Life
begin

text \<open>
  Message passing: \<^verbatim>\<open>send\<close>, \<^verbatim>\<open>sendnow\<close>, \<^verbatim>\<open>recv\<close> and \<^verbatim>\<open>recvnow\<close>
  (\<^verbatim>\<open>system/send.c\<close>, \<^verbatim>\<open>system/sendnow.c\<close>, \<^verbatim>\<open>system/recv.c\<close>,
  \<^verbatim>\<open>system/recvnow.c\<close>). A process has room for one message; a second sender blocks on
  the receiver's message queue, and \<^verbatim>\<open>recv\<close> wakes it up.

  The part of each call between \<^verbatim>\<open>lock_acquire\<close> and \<^verbatim>\<open>lock_release\<close> is a
  \<open>_section\<close>; it returns what the call does after the release. A call that blocks ends with
  \<^verbatim>\<open>resched\<close>; what \<^verbatim>\<open>recv\<close> does when the process runs again is \<open>recv_resume\<close>.
\<close>

section \<open>Sending\<close>

datatype after_send = Send_error | Send_block | Send_wake | Send_done

definition send_section ::
  "int \<Rightarrow> int \<Rightarrow> int \<Rightarrow> int \<Rightarrow> 'a procst_scheme \<Rightarrow> (after_send \<times> 'a procst_scheme) option" where
  "send_section cpuid cur pid msg s =
     do {
       r \<leftarrow> aget (proctab s) pid;
       if PRFREE = p_state r then Some (Send_error, s)
       else if 1 = hasMessage (msg_var r)
       then do {
         s \<leftarrow> upd_msg cur (\<lambda>m. m\<lparr>msgout := msg\<rparr>) s;
         s \<leftarrow> upd_pcb cur (\<lambda>p. p\<lparr>p_state := PRSEND\<rparr>) s;
         r \<leftarrow> aget (proctab s) pid;
         (_, s) \<leftarrow> enqueue cpuid cur (msgqueue (msg_var r)) s;
         Some (Send_block, s)
       }
       else do {
         s \<leftarrow> upd_msg pid (\<lambda>m. m\<lparr>msgin := msg\<rparr>) s;
         s \<leftarrow> upd_msg pid (\<lambda>m. m\<lparr>hasMessage := 1\<rparr>) s;
         r \<leftarrow> aget (proctab s) pid;
         Some (if PRRECV = p_state r then Send_wake else Send_done, s)
       }
     }"

definition send :: "int \<Rightarrow> int \<Rightarrow> int \<Rightarrow> 'a procst_scheme \<Rightarrow> (int \<times> 'a procst_scheme) option" where
  "send cpuid pid msg s =
     do {
       bad \<leftarrow> isbadpid pid s;
       if bad then Some (SYSERR, s)
       else do {
         cur \<leftarrow> aget (currpid s) cpuid;
         r \<leftarrow> aget (proctab s) pid;
         (next, s) \<leftarrow> locked cpuid (core_com_lock (msg_var r)) (send_section cpuid cur pid msg) s;
         case next of
           Send_error \<Rightarrow> Some (SYSERR, s)
         | Send_block \<Rightarrow> do { s \<leftarrow> resched cpuid s; Some (OK, s) }
         | Send_wake \<Rightarrow> do {
             r \<leftarrow> aget (proctab s) pid;
             (_, s) \<leftarrow> ready cpuid pid True (core_affinity r) s;
             Some (OK, s)
           }
         | Send_done \<Rightarrow> Some (OK, s)
       }
     }"

text \<open>
  \<^verbatim>\<open>sendnow\<close> reads the lock of \<^verbatim>\<open>proctab[pid]\<close> and takes it before it checks that
  \<open>pid\<close> is a process id at all.
\<close>

definition sendnow_section ::
  "int \<Rightarrow> int \<Rightarrow> 'a procst_scheme \<Rightarrow> (after_send \<times> 'a procst_scheme) option" where
  "sendnow_section pid msg s =
     do {
       bad \<leftarrow> isbadpid pid s;
       if bad then Some (Send_error, s)
       else do {
         r \<leftarrow> aget (proctab s) pid;
         if PRFREE = p_state r \<or> hasMessage (msg_var r) \<noteq> 0 then Some (Send_error, s)
         else do {
           s \<leftarrow> upd_msg pid (\<lambda>m. m\<lparr>msgin := msg\<rparr>) s;
           s \<leftarrow> upd_msg pid (\<lambda>m. m\<lparr>hasMessage := 1\<rparr>) s;
           r \<leftarrow> aget (proctab s) pid;
           Some (if PRRECV = p_state r then Send_wake else Send_done, s)
         }
       }
     }"

definition sendnow :: "int \<Rightarrow> int \<Rightarrow> int \<Rightarrow> 'a procst_scheme \<Rightarrow> (int \<times> 'a procst_scheme) option" where
  "sendnow cpuid pid msg s =
     do {
       r \<leftarrow> aget (proctab s) pid;
       (next, s) \<leftarrow> locked cpuid (core_com_lock (msg_var r)) (sendnow_section pid msg) s;
       case next of
         Send_error \<Rightarrow> Some (SYSERR, s)
       | Send_wake \<Rightarrow> do {
           r \<leftarrow> aget (proctab s) pid;
           (_, s) \<leftarrow> ready cpuid pid False (core_affinity r) s;
           Some (OK, s)
         }
       | _ \<Rightarrow> Some (OK, s)
     }"

section \<open>Receiving\<close>

text \<open>Collecting the message; the result names the blocked sender that is to be woken up.\<close>

definition recv_take :: "int \<Rightarrow> int \<Rightarrow> 'a procst_scheme \<Rightarrow> ((int \<times> int option) \<times> 'a procst_scheme) option" where
  "recv_take cpuid cur s =
     do {
       p \<leftarrow> aget (proctab s) cur;
       let msg = msgin (msg_var p);
       ne \<leftarrow> nonempty (msgqueue (msg_var p)) s;
       if ne
       then do {
         (senderpid, s) \<leftarrow> dequeue cpuid (msgqueue (msg_var p)) s;
         sp \<leftarrow> aget (proctab s) senderpid;
         s \<leftarrow> upd_msg cur (\<lambda>m. m\<lparr>msgin := msgout (msg_var sp)\<rparr>) s;
         s \<leftarrow> upd_msg senderpid (\<lambda>m. m\<lparr>msgout := EMPTY\<rparr>) s;
         Some ((msg, Some senderpid), s)
       }
       else do {
         s \<leftarrow> upd_msg cur (\<lambda>m. m\<lparr>hasMessage := 0\<rparr>) s;
         Some ((msg, None), s)
       }
     }"

definition recv_wake :: "int \<Rightarrow> int option \<Rightarrow> 'a procst_scheme \<Rightarrow> 'a procst_scheme option" where
  "recv_wake cpuid sender s =
     (case sender of
        None \<Rightarrow> Some s
      | Some senderpid \<Rightarrow> do {
          sp \<leftarrow> aget (proctab s) senderpid;
          (_, s) \<leftarrow> ready cpuid senderpid False (core_affinity sp) s;
          Some s
        })"

text \<open>\<open>None\<close> as a result means that the process blocked and another one runs now.\<close>

definition recv :: "int \<Rightarrow> 'a procst_scheme \<Rightarrow> (int option \<times> 'a procst_scheme) option" where
  "recv cpuid s =
     do {
       cur \<leftarrow> aget (currpid s) cpuid;
       p \<leftarrow> aget (proctab s) cur;
       (r, s) \<leftarrow> locked cpuid (core_com_lock (msg_var p))
         (\<lambda>s. do {
            p \<leftarrow> aget (proctab s) cur;
            if 0 = hasMessage (msg_var p)
            then do { s \<leftarrow> upd_pcb cur (\<lambda>p. p\<lparr>p_state := PRRECV\<rparr>) s; Some (None, s) }
            else do { (x, s) \<leftarrow> recv_take cpuid cur s; Some (Some x, s) }
          }) s;
       case r of
         None \<Rightarrow> do { s \<leftarrow> resched cpuid s; Some (None, s) }
       | Some (msg, sender) \<Rightarrow> do { s \<leftarrow> recv_wake cpuid sender s; Some (Some msg, s) }
     }"

definition recv_resume :: "int \<Rightarrow> 'a procst_scheme \<Rightarrow> (int \<times> 'a procst_scheme) option" where
  "recv_resume cpuid s =
     do {
       cur \<leftarrow> aget (currpid s) cpuid;
       p \<leftarrow> aget (proctab s) cur;
       ((msg, sender), s) \<leftarrow> locked cpuid (core_com_lock (msg_var p)) (recv_take cpuid cur) s;
       s \<leftarrow> recv_wake cpuid sender s;
       Some (msg, s)
     }"

definition recvnow :: "int \<Rightarrow> 'a procst_scheme \<Rightarrow> (int \<times> 'a procst_scheme) option" where
  "recvnow cpuid s =
     do {
       cur \<leftarrow> aget (currpid s) cpuid;
       p \<leftarrow> aget (proctab s) cur;
       locked cpuid (core_com_lock (msg_var p))
         (\<lambda>s. do {
            p \<leftarrow> aget (proctab s) cur;
            if 0 = hasMessage (msg_var p) then Some (SYSERR, s)
            else do {
              s \<leftarrow> upd_msg cur (\<lambda>m. m\<lparr>hasMessage := 0\<rparr>) s;
              Some (msgin (msg_var p), s)
            }
          }) s
     }"

section \<open>Working under the lock of a mailbox\<close>

lemma queues_rep_hold:
  assumes "queues_rep s Q" and "\<And>k. k < length Q \<Longrightarrow> l \<noteq> ql (queuetab s) (qhead k)"
  shows "queues_rep (s\<lparr>locktab := lt_hold c l (locktab s)\<rparr>) Q"
proof -
  have "lock_idle (ql (queuetab s) (qhead k)) (s\<lparr>locktab := lt_hold c l (locktab s)\<rparr>)" if "k < length Q" for k
    using assms(1) lock_idle_hold[of "ql (queuetab s) (qhead k)" s l c] assms(2)[OF that] that by (auto simp: queues_rep_def)
  then show ?thesis using assms(1) by (auto simp: queues_rep_def proctab_wf_def)
qed

lemma queues_rep_release:
  assumes "queues_rep s Q" and "queues_rep s1 Q'" and "map q_lock (queuetab s1) = qlocks s" and "length Q' = length Q"
    and "length P = length (proctab s1)" and "nextqueue s1 = nextqueue s"
  shows "queues_rep (s\<lparr>proctab := P, queuetab := queuetab s1\<rparr>) Q'"
proof -
  have "ql (queuetab s1) = ql (queuetab s)" using ql_qlocks[of s1 s] assms(3) by simp
  then show ?thesis using assms by (auto simp: queues_rep_def proctab_wf_def lock_idle_def)
qed

text \<open>A section under the lock of a mailbox, whose body leaves the lock table alone.\<close>

lemma box_section:
  fixes s :: "'a procst_scheme" and c :: int
  assumes inv: "kern_inv s Q F" and pid: "pid_ok pid"
  defines "l \<equiv> core_com_lock (mbox s pid)"
  defines "s1 \<equiv> s\<lparr>locktab := lt_hold c l (locktab s)\<rparr>"
  shows "queues_rep s1 Q" and "body s1 = Some (r, s2) \<Longrightarrow> locktab s2 = locktab s1 \<Longrightarrow> locked c l body s = Some (r, s2\<lparr>locktab := locktab s\<rparr>)"
proof -
  note M = kern_midD[OF inv[unfolded kern_inv_def]]
  have l: "lock_idle l s" "\<And>k. k < 62 \<Longrightarrow> l \<noteq> ql (queuetab s) (qhead k)" using M(4) pid by (auto simp: boxes_ok_def l_def)
  show "queues_rep s1 Q" unfolding s1_def using l(2) kern_shapeD(1,2)[OF M(1)] by (intro queues_rep_hold) auto
  show "locked c l body s = Some (r, s2\<lparr>locktab := locktab s\<rparr>)" if "body s1 = Some (r, s2)" "locktab s2 = locktab s1"
    using locked_runs[OF l(1), of body c r s2] that by (simp add: s1_def)
qed

lemma ready_view:
  fixes s :: "'a procst_scheme"
  assumes inv: "kern_inv s Q F" and pid: "live (proctab s) pid" "pid \<notin> set (concat Q)" "p_state (pcb_of s pid) \<noteq> PRCURR"
    and core: "core < 4" and c: "c < 4"
  shows "\<exists>s' Q'. ready (int c) pid resch (int core) s = Some (OK, s') \<and> kern_inv s' Q' F \<and>
    (\<forall>i < 50. Q' ! i = Q ! i) \<and> (\<forall>x. pid_ok x \<longrightarrow> mbox s' x = mbox s x)"
proof -
  let ?k = "home (pcb_of s pid) core"
  let ?v = "(pcb_of s pid)\<lparr>p_state := PRREADY, core_affinity := int ?k\<rparr>"
  let ?S = "\<lambda>t. s\<lparr>proctab := (proctab s)[nat pid := ?v], queuetab := t\<rparr>" and ?j = "rq ?k (nat (priority (pcb_of s pid)))"
  let ?Q = "Q[?j := Q ! ?j @ [pid]]"
  from ready_steps[OF inv pid core, of c resch] obtain t where t: "kern_inv (?S t) ?Q F"
    "ready (int c) pid resch (int core) s = (if resch \<and> c = ?k then do { s \<leftarrow> resched (int c) (?S t); Some (OK, s) } else Some (OK, ?S t))"
    unfolding Let_def by blast
  have q: "?Q ! i = Q ! i" if "i < 50" for i using that rq_ge[of ?k "nat (priority (pcb_of s pid))"] by simp
  have po: "pid_ok pid" using pid(1) by (simp add: live_def)
  note M = kern_midD[OF inv[unfolded kern_inv_def]]
  have m: "mbox (?S t) x = mbox s x" if "pid_ok x" for x
    using at_state_upd[OF kern_shape_proc(2)[OF M(1) po] po that, of ?v] by (simp add: mbox_def)
  show ?thesis
  proof (cases "resch \<and> c = ?k")
    case True
    have "kern_mid c (?S t) ?Q F" using t(1) kern_inv_mid by blast
    from resched_view[OF this c] obtain s' Q' where r: "resched (int c) (?S t) = Some s'" "kern_inv s' Q' F"
      "\<forall>k. (\<forall>j < 3. k \<noteq> rq c j) \<longrightarrow> Q' ! k = ?Q ! k" "\<forall>x. pid_ok x \<longrightarrow> mbox s' x = mbox (?S t) x" by blast
    have "Q' ! i = Q ! i" if "i < 50" for i using r(3) q[OF that] that rq_ge[of c] by (metis linorder_not_le)
    then show ?thesis using r t(2) True m by (intro exI[of _ s'] exI[of _ Q']) simp
  next
    case False
    then have "ready (int c) pid resch (int core) s = Some (OK, ?S t)" using t(2) by auto
    then show ?thesis using t(1) m q by (intro exI[of _ "?S t"] exI[of _ ?Q]) simp
  qed
qed

section \<open>Blocked processes\<close>

lemma procs_ok_blocked:
  assumes ok: "procs_ok {..<4} P cur Q" and len: "length P = nat NPROC" and pid: "pid_ok pid" "4 \<le> pid"
    and st: "p_state (at P pid) = PRCURR"
    and v: "p_state v = PRRECV \<or> p_state v = PRSEND" "core_affinity v = core_affinity (at P pid)" "priority v = priority (at P pid)"
    and R: "\<And>d. d < 4 \<Longrightarrow> rset Q' d = rset Q d"
    and m: "\<And>i x. i < 50 \<Longrightarrow> x \<in> set (Q' ! i) \<Longrightarrow> x \<in> set (Q ! i) \<or> x = pid \<and> p_state v = PRSEND"
  shows "procs_ok {..<4} (P[nat pid := v]) cur Q'"
proof -
  note U = at_state_upd[OF len pid(1), of _ v]
  have n: "pid_ok (int d)" "int d \<noteq> pid" if "d < 4" for d using that pid(2) by (auto simp: pid_ok_def NPROC_def)
  show ?thesis
    apply (rule procs_okI)
    subgoal for x using procs_okD(1)[OF ok, of x] U[of x] v(1) R by (auto split: if_splits)
    subgoal for d x using procs_okD(2)[OF ok, of d x] U[of x] st R[of d] by (auto split: if_splits)
    subgoal for i x using procs_okD(3)[OF ok, of i x] m[of i x] U[of x] st pid(1) by (auto split: if_splits)
    subgoal for x using procs_okD(4)[OF ok, of x] U[of x] v(1) by (auto split: if_splits)
    subgoal for d using procs_okD(5)[OF ok, of d] U[of "cur ! d"] v by (auto split: if_splits)
    subgoal for x using procs_okD(6)[OF ok, of x] U[of x] v procs_okD(6)[OF ok pid(1)] st by (auto split: if_splits)
    subgoal for d using procs_okD(7)[OF ok, of d] U[OF n(1), of d] n(2)[of d] by (auto split: if_splits)
    done
qed

lemma procs_ok_shrink:
  assumes ok: "procs_ok C P cur Q" and R: "\<And>d. d < 4 \<Longrightarrow> rset Q' d = rset Q d" and m: "\<And>i. i < 50 \<Longrightarrow> set (Q' ! i) \<subseteq> set (Q ! i)"
  shows "procs_ok C P cur Q'"
  apply (rule procs_okI)
  subgoal using procs_okD(1)[OF ok] R by metis
  subgoal using procs_okD(2)[OF ok] R by metis
  subgoal using procs_okD(3)[OF ok] m by (metis subsetD)
  subgoal using procs_okD(4)[OF ok] by metis
  subgoal using procs_okD(5)[OF ok] by metis
  subgoal for pid using procs_okD(6)[OF ok, of pid] by simp
  subgoal for c using procs_okD(7)[OF ok, of c] by simp
  done

lemma rset_msg: "i < 50 \<Longrightarrow> rset (Q[i := xs]) d = rset Q d"
  using rq_ge[of d 0] rq_ge[of d 1] rq_ge[of d 2] by (simp add: rset_def)

section \<open>Mailboxes as lists\<close>

text \<open>
  The messages that wait for a process: the one in its entry, then those that the senders
  blocked on its queue hold. A sender blocks only behind a message that is already there.
\<close>

definition mail :: "'a procst_scheme \<Rightarrow> int list list \<Rightarrow> int \<Rightarrow> int list" where
  "mail s Q pid = (if hasMessage (mbox s pid) = 1 then [msgin (mbox s pid)] else []) @ map (\<lambda>x. msgout (mbox s x)) (Q ! nat pid)"

definition boxes_full :: "'a procst_scheme \<Rightarrow> int list list \<Rightarrow> bool" where
  "boxes_full s Q \<longleftrightarrow> (\<forall>pid. pid_ok pid \<and> Q ! nat pid \<noteq> [] \<longrightarrow> hasMessage (mbox s pid) = 1)"

lemma mail_cong:
  assumes "Q' ! nat pid = Q ! nat pid" and "pid_ok pid" and "\<And>x. pid_ok x \<Longrightarrow> mbox s' x = mbox s x"
    and "\<And>x. x \<in> set (Q ! nat pid) \<Longrightarrow> pid_ok x"
  shows "mail s' Q' pid = mail s Q pid"
  using assms by (auto simp: mail_def)

lemma queue_pids: "kern_shape s Q \<Longrightarrow> i < 62 \<Longrightarrow> x \<in> set (Q ! i) \<Longrightarrow> pid_ok x"
  by (auto simp: kern_shape_def queues_rep_def pid_ok_def)

lemma nat_pid: "pid_ok pid \<Longrightarrow> nat pid < 50"
  by (auto simp: pid_ok_def NPROC_def)

lemma nat_pid_eq: "pid_ok x \<Longrightarrow> pid_ok y \<Longrightarrow> nat x = nat y \<longleftrightarrow> x = y"
  by (auto simp: pid_ok_def)

lemma mbox_upd:
  assumes "length (proctab s) = nat NPROC" and "pid_ok y" and "pid_ok x"
  shows "mbox (s\<lparr>proctab := (proctab s)[nat y := v], queuetab := t\<rparr>) x = (if x = y then msg_var v else mbox s x)"
  using at_state_upd[OF assms, of v] by (simp add: mbox_def)

text \<open>An entry whose message fields alone change.\<close>

lemma kern_mid_box:
  fixes s :: "'a procst_scheme"
  assumes inv: "kern_mid c s Q F" and pid: "live (proctab s) pid" and m: "same_box (mbox s pid) m"
    and v: "v = (pcb_of s pid)\<lparr>msg_var := m\<rparr>"
  shows "kern_mid c (s\<lparr>proctab := (proctab s)[nat pid := v], queuetab := queuetab s\<rparr>) Q F"
proof -
  note M = kern_midD[OF inv]
  have po: "pid_ok pid" "p_state v \<noteq> PRFREE" using pid v by (auto simp: live_def)
  note L = kern_shape_proc[OF M(1) po(1)] and D = kern_shapeD[OF M(1)]
  have ok: "procs_ok {..<4} ((proctab s)[nat pid := v]) (currpid s) Q"
    using at_state_upd[OF L(2) po(1), of _ v] v by (intro procs_ok_cong[OF _ M(2)]) auto
  have q: "queues_rep (s\<lparr>proctab := (proctab s)[nat pid := v], queuetab := queuetab s\<rparr>) Q"
    by (rule queues_rep_cong[OF D(1)]) simp_all
  have "length (p_name v) = PNMLEN" using M(5) at_in_set[OF L(1)] v by (simp add: counters_ok_def)
  moreover have "p_state v = PRCURR" if "d < 4" "d \<noteq> c" "currpid s ! d = pid" for d using M(6)[OF that(1,2)] that(3) v by simp
  ultimately show ?thesis using v L(3) m D(2)
    by (intro kern_mid_pcb[OF inv pid po(2) _ _ _ _ _ q _ _ ok]) simp_all
qed

lemma box_section_simple:
  fixes s :: "'a procst_scheme" and c :: int
  assumes inv: "kern_inv s Q F" and pid: "pid_ok pid"
    and body: "\<And>h. body (s\<lparr>locktab := h\<rparr>) = Some (r, s\<lparr>locktab := h, proctab := P\<rparr>)"
  shows "locked c (core_com_lock (mbox s pid)) body s = Some (r, s\<lparr>proctab := P, queuetab := queuetab s\<rparr>)"
  using box_section(2)[OF inv pid, of body c r] body by simp

section \<open>Sending\<close>

lemma send_deposit:
  fixes s :: "'a procst_scheme" and msg :: int
  assumes inv: "kern_inv s Q F" and c: "c < 4" and pid: "live (proctab s) pid" and e: "hasMessage (mbox s pid) = 0"
  defines "v \<equiv> (pcb_of s pid)\<lparr>msg_var := (mbox s pid)\<lparr>msgin := msg, hasMessage := 1\<rparr>\<rparr>"
  defines "s1 \<equiv> s\<lparr>proctab := (proctab s)[nat pid := v], queuetab := queuetab s\<rparr>"
  shows "kern_inv s1 Q F"
    and "locked (int c) (core_com_lock (mbox s pid)) (send_section (int c) cur pid msg) s =
      Some (if p_state (pcb_of s pid) = PRRECV then Send_wake else Send_done, s1)"
    and "locked (int c) (core_com_lock (mbox s pid)) (sendnow_section pid msg) s =
      Some (if p_state (pcb_of s pid) = PRRECV then Send_wake else Send_done, s1)"
proof -
  note M = kern_midD[OF inv[unfolded kern_inv_def]]
  have po: "pid_ok pid" "p_state (pcb_of s pid) \<noteq> PRFREE" using pid by (auto simp: live_def)
  note L = kern_shape_proc[OF M(1) po(1)]
  show "kern_inv s1 Q F" unfolding s1_def kern_inv_def
    by (rule kern_mid_box[OF inv[unfolded kern_inv_def] pid]) (simp_all add: same_box_def v_def)
  have ib: "inb (proctab (s\<lparr>locktab := h\<rparr>)) pid" for h using L(1) by simp
  show "locked (int c) (core_com_lock (mbox s pid)) (send_section (int c) cur pid msg) s =
      Some (if p_state (pcb_of s pid) = PRRECV then Send_wake else Send_done, s1)"
    unfolding s1_def using L(1) po(2) e
    by (intro box_section_simple[OF inv po(1)]) (auto simp: send_section_def mbox_def v_def)
  have bad: "isbadpid pid (s\<lparr>locktab := h\<rparr>) = Some False" for h
    using isbadpid_good[of "s\<lparr>locktab := h\<rparr>" pid] po M(1) by (auto simp: kern_shape_def queues_rep_def pid_ok_def proctab_wf_def)
  show "locked (int c) (core_com_lock (mbox s pid)) (sendnow_section pid msg) s =
      Some (if p_state (pcb_of s pid) = PRRECV then Send_wake else Send_done, s1)"
    unfolding s1_def using L(1) po(2) e bad
    by (intro box_section_simple[OF inv po(1)]) (auto simp: sendnow_section_def mbox_def v_def)
qed

lemma current_facts:
  assumes inv: "kern_inv s Q F" and c: "c < 4"
  shows "pid_ok (currpid s ! c)" "p_state (pcb_of s (currpid s ! c)) = PRCURR" "live (proctab s) (currpid s ! c)"
    "aget (currpid s) (int c) = Some (currpid s ! c)" "currpid s ! c \<notin> set (concat Q)"
    "core_affinity (pcb_of s (currpid s ! c)) = int c"
proof -
  note M = kern_midD[OF inv[unfolded kern_inv_def]]
  show po: "pid_ok (currpid s ! c)" and "core_affinity (pcb_of s (currpid s ! c)) = int c" using procs_okD(5)[OF M(2), of c] c by auto
  show st: "p_state (pcb_of s (currpid s ! c)) = PRCURR" using M(6)[of c] c by simp
  then show "live (proctab s) (currpid s ! c)" using po by (simp add: live_def)
  show "aget (currpid s) (int c) = Some (currpid s ! c)" using kern_shapeD(3)[OF M(1)] c by (simp add: aget_int)
  show "currpid s ! c \<notin> set (concat Q)" using current_not_queued[OF M(2) kern_shapeD(2)[OF M(1)] po] st by simp
qed

lemma send_block:
  fixes s :: "'a procst_scheme" and msg :: int
  assumes inv: "kern_inv s Q F" and c: "c < 4" and pid: "live (proctab s) pid" and f: "hasMessage (mbox s pid) = 1"
    and cur: "cur = currpid s ! c" "4 \<le> cur"
  defines "v \<equiv> (pcb_of s cur)\<lparr>msg_var := (mbox s cur)\<lparr>msgout := msg\<rparr>, p_state := PRSEND\<rparr>"
  defines "Q' \<equiv> Q[nat pid := Q ! nat pid @ [cur]]"
  shows "\<exists>t. locked (int c) (core_com_lock (mbox s pid)) (send_section (int c) cur pid msg) s =
      Some (Send_block, s\<lparr>proctab := (proctab s)[nat cur := v], queuetab := t\<rparr>) \<and>
    kern_mid c (s\<lparr>proctab := (proctab s)[nat cur := v], queuetab := t\<rparr>) Q' F"
proof -
  note M = kern_midD[OF inv[unfolded kern_inv_def]]
  note C = current_facts[OF inv c, folded cur(1)] and D = kern_shapeD[OF M(1)]
  have po: "pid_ok pid" "p_state (pcb_of s pid) \<noteq> PRFREE" "nat pid < 50" using pid nat_pid by (auto simp: live_def)
  note L = kern_shape_proc[OF M(1) po(1)] and LC = kern_shape_proc[OF M(1) C(1)]
  let ?l = "core_com_lock (mbox s pid)" and ?P = "(proctab s)[nat cur := v]"
  let ?s1 = "s\<lparr>locktab := lt_hold (int c) ?l (locktab s)\<rparr>"
  have mq: "msgqueue (mbox s x) = qid (nat x)" if "pid_ok x" for x using M(4) that by (simp add: boxes_ok_def)
  have rep: "queues_rep (?s1\<lparr>proctab := ?P\<rparr>) Q"
    by (rule queues_rep_cong[OF box_section(1)[OF inv po(1), of "int c"]]) simp_all
  have k: "nat pid < length Q" using po(3) D(2) by simp
  have "p_state (pcb_of (?s1\<lparr>proctab := ?P\<rparr>) cur) \<noteq> PRFREE" using LC(1) by (simp add: v_def)
  from enqueue_rep[OF rep k _ _ this C(5), of "int c"] C(1) obtain t where
    t: "enqueue (int c) cur (qid (nat pid)) (?s1\<lparr>proctab := ?P\<rparr>) = Some (cur, ?s1\<lparr>proctab := ?P, queuetab := t\<rparr>)"
      "queues_rep (?s1\<lparr>proctab := ?P, queuetab := t\<rparr>) Q'" by (auto simp: pid_ok_def Q'_def)
  have tl: "map q_lock t = qlocks s" using enqueue_locks[OF t(1)] by simp
  have m2: "msgqueue (msg_var (at ?P pid)) = qid (nat pid)"
    using at_state_upd[OF L(2) C(1) po(1), of v] mq[OF po(1)] mq[OF C(1)] by (auto simp: v_def mbox_def)
  have "send_section (int c) cur pid msg ?s1 = Some (Send_block, ?s1\<lparr>proctab := ?P, queuetab := t\<rparr>)"
    using L(1) LC(1) po(2) f t(1) m2 by (simp add: send_section_def mbox_def v_def)
  then have run: "locked (int c) ?l (send_section (int c) cur pid msg) s = Some (Send_block, s\<lparr>proctab := ?P, queuetab := t\<rparr>)"
    using box_section(2)[OF inv po(1), of "send_section (int c) cur pid msg" "int c" Send_block "?s1\<lparr>proctab := ?P, queuetab := t\<rparr>"] by simp
  have q: "queues_rep (s\<lparr>proctab := ?P, queuetab := t\<rparr>) Q'"
    using queues_rep_release[OF D(1) t(2), of ?P] tl by (simp add: Q'_def)
  have "procs_ok {..<4} ?P (currpid s) Q'"
  proof (rule procs_ok_blocked[OF M(2) L(2) C(1) cur(2) C(2)])
    show "rset Q' d = rset Q d" for d unfolding Q'_def using po(3) by (rule rset_msg)
    show "x \<in> set (Q ! i) \<or> x = cur \<and> p_state v = PRSEND" if "i < 50" "x \<in> set (Q' ! i)" for i x
      using that k by (cases "i = nat pid") (auto simp: Q'_def v_def)
  qed (simp_all add: v_def)
  moreover have "length (p_name v) = PNMLEN" using M(5) at_in_set[OF LC(1)] by (simp add: counters_ok_def v_def)
  moreover have "same_box (mbox s cur) (msg_var v)" using M(4) C(1) by (auto simp: same_box_def boxes_ok_def v_def)
  moreover have "currpid s ! d \<noteq> cur" if "d < 4" "d \<noteq> c" for d using current_distinct[OF M(2), of d cur c] C(6) that by simp
  moreover have "kern_mid c s Q F" using inv kern_inv_mid by blast
  ultimately have "kern_mid c (s\<lparr>proctab := ?P, queuetab := t\<rparr>) Q' F"
    using q tl D(2) LC(3) by (intro kern_mid_pcb[OF _ C(3)]) (auto simp: v_def Q'_def)
  with run show ?thesis by blast
qed

lemma send_enter:
  fixes s :: "'a procst_scheme"
  assumes inv: "kern_inv s Q F" and c: "c < 4" and pid: "live (proctab s) pid"
    and l: "locked (int c) (core_com_lock (mbox s pid)) (send_section (int c) (currpid s ! c) pid msg) s = Some (r, s1)"
  shows "send (int c) pid msg s = (case r of
      Send_error \<Rightarrow> Some (SYSERR, s1) | Send_block \<Rightarrow> do { s \<leftarrow> resched (int c) s1; Some (OK, s) }
    | Send_wake \<Rightarrow> do { r \<leftarrow> aget (proctab s1) pid; (_, s) \<leftarrow> ready (int c) pid True (core_affinity r) s1; Some (OK, s) }
    | Send_done \<Rightarrow> Some (OK, s1))"
proof -
  note M = kern_midD[OF inv[unfolded kern_inv_def]]
  have po: "pid_ok pid" "p_state (pcb_of s pid) \<noteq> PRFREE" using pid by (auto simp: live_def)
  have "isbadpid pid s = Some False"
    using isbadpid_good[of s pid] po M(1) by (auto simp: kern_shape_def queues_rep_def pid_ok_def)
  then show ?thesis using l current_facts(4)[OF inv c] kern_shape_proc(1)[OF M(1) po(1)]
    by (simp add: send_def mbox_def split: after_send.split)
qed

lemma wake_receiver:
  fixes s :: "'a procst_scheme"
  assumes inv: "kern_inv s Q F" and c: "c < 4" and pid: "pid_ok pid"
    and st: "p_state (pcb_of s pid) = PRRECV \<or> p_state (pcb_of s pid) = PRSEND \<and> pid \<notin> set (concat Q)"
  shows "\<exists>s' Q'. ready (int c) pid resch (core_affinity (pcb_of s pid)) s = Some (OK, s') \<and> kern_inv s' Q' F \<and>
    (\<forall>i < 50. Q' ! i = Q ! i) \<and> (\<forall>x. pid_ok x \<longrightarrow> mbox s' x = mbox s x)"
proof -
  note M = kern_midD[OF inv[unfolded kern_inv_def]]
  have st': "p_state (pcb_of s pid) \<notin> {PRFREE, PRSUSP, PRCURR}" using st by auto
  then have a: "0 \<le> core_affinity (pcb_of s pid)" "core_affinity (pcb_of s pid) < 4" using procs_okD(6)[OF M(2) pid] by auto
  have "pid \<notin> set (concat Q)" using current_not_queued[OF M(2) kern_shapeD(2)[OF M(1)] pid] st by auto
  moreover have "live (proctab s) pid" using st' pid by (simp add: live_def)
  ultimately show ?thesis
    using ready_view[OF inv, of pid "nat (core_affinity (pcb_of s pid))" c resch] st' a c by simp
qed

lemma send_ok:
  fixes s :: "'a procst_scheme"
  assumes inv: "kern_inv s Q F" and c: "c < 4" and cur: "4 \<le> currpid s ! c" and pid: "live (proctab s) pid"
  shows "\<exists>s' Q'. send (int c) pid msg s = Some (OK, s') \<and> kern_inv s' Q' F \<and>
    (boxes_full s Q \<longrightarrow> boxes_full s' Q' \<and> mail s' Q' pid = mail s Q pid @ [msg]) \<and> (\<forall>x. pid_ok x \<and> x \<noteq> pid \<longrightarrow> mail s' Q' x = mail s Q x)"
proof -
  note M = kern_midD[OF inv[unfolded kern_inv_def]]
  have po: "pid_ok pid" using pid by (simp add: live_def)
  have D: "length (proctab s) = nat NPROC" "length Q = 62" using kern_shape_proc(2)[OF M(1) po] kern_shapeD(2)[OF M(1)] by auto
  have qp: "pid_ok y" if "pid_ok x" "y \<in> set (Q ! nat x)" for x y using queue_pids[OF M(1) _ that(2)] nat_pid[OF that(1)] by simp
  consider "hasMessage (mbox s pid) = 0" | "hasMessage (mbox s pid) = 1" using M(4) po by (auto simp: boxes_ok_def)
  then show ?thesis
  proof cases
    case 1
    let ?v = "(pcb_of s pid)\<lparr>msg_var := (mbox s pid)\<lparr>msgin := msg, hasMessage := 1\<rparr>\<rparr>"
    let ?s1 = "s\<lparr>proctab := (proctab s)[nat pid := ?v], queuetab := queuetab s\<rparr>"
    note S = send_deposit[OF inv c pid 1, where msg = msg]
    note E = send_enter[OF inv c pid S(2)]
    note B = mbox_upd[OF D(1) po, where v = ?v and t = "queuetab s"]
    have full1: "boxes_full ?s1 Q" and mail1: "mail ?s1 Q pid = mail s Q pid @ [msg]" if full: "boxes_full s Q"
    proof -
      have nil: "Q ! nat pid = []" using full 1 po by (auto simp: boxes_full_def)
      then show "mail ?s1 Q pid = mail s Q pid @ [msg]" using B[OF po] 1 by (simp add: mail_def)
      show "boxes_full ?s1 Q" using full B by (auto simp: boxes_full_def)
    qed
    have mailx: "mail ?s1 Q x = mail s Q x" if x: "pid_ok x" "x \<noteq> pid" for x
    proof -
      have "msgout (mbox ?s1 y) = msgout (mbox s y)" if "y \<in> set (Q ! nat x)" for y using B[OF qp[OF x(1) that]] by simp
      then show ?thesis using B[OF x(1)] x(2) by (simp add: mail_def cong: map_cong)
    qed
    show ?thesis
    proof (cases "p_state (pcb_of s pid) = PRRECV")
      case False
      then show ?thesis using E S(1) full1 mail1 mailx by auto
    next
      case True
      have at1: "pcb_of ?s1 pid = ?v" "inb (proctab ?s1) pid" using kern_shape_proc(1)[OF M(1) po] by simp_all
      have "p_state (pcb_of ?s1 pid) = PRRECV" unfolding at1(1) using True by simp
      from wake_receiver[OF S(1) c po disjI1[OF this], of True] obtain s' Q' where
        w: "ready (int c) pid True (core_affinity (pcb_of ?s1 pid)) ?s1 = Some (OK, s')" "kern_inv s' Q' F"
          "\<forall>i < 50. Q' ! i = Q ! i" "\<forall>x. pid_ok x \<longrightarrow> mbox s' x = mbox ?s1 x" by blast
      have "mail s' Q' x = mail ?s1 Q x" if "pid_ok x" for x
        using w(3,4) nat_pid[OF that] qp[OF that] that by (intro mail_cong) auto
      moreover have "boxes_full s' Q'" if "boxes_full s Q" using full1[OF that] w(3,4) nat_pid by (auto simp: boxes_full_def)
      moreover have "send (int c) pid msg s = Some (OK, s')" using E True w(1) at1(2) by simp
      ultimately show ?thesis using w(2) mail1 mailx po by auto
    qed
  next
    case 2
    let ?cur = "currpid s ! c"
    let ?v = "(pcb_of s ?cur)\<lparr>msg_var := (mbox s ?cur)\<lparr>msgout := msg\<rparr>, p_state := PRSEND\<rparr>"
    let ?S = "\<lambda>t. s\<lparr>proctab := (proctab s)[nat ?cur := ?v], queuetab := t\<rparr>" and ?Q = "Q[nat pid := Q ! nat pid @ [?cur]]"
    note C = current_facts[OF inv c]
    from send_block[OF inv c pid 2 refl cur, of msg] obtain t where
      t: "locked (int c) (core_com_lock (mbox s pid)) (send_section (int c) ?cur pid msg) s = Some (Send_block, ?S t)"
        "kern_mid c (?S t) ?Q F" by blast
    from resched_view[OF t(2) c] obtain s' Q' where r: "resched (int c) (?S t) = Some s'" "kern_inv s' Q' F"
      "\<forall>k. (\<forall>j < 3. k \<noteq> rq c j) \<longrightarrow> Q' ! k = ?Q ! k" "\<forall>x. pid_ok x \<longrightarrow> mbox s' x = mbox (?S t) x" by blast
    note B = mbox_upd[OF D(1) C(1), where v = ?v and t = t]
    have q: "Q' ! nat x = ?Q ! nat x" if "pid_ok x" for x using r(3) nat_pid[OF that] rq_ge[of c] by (metis linorder_not_le)
    have bx: "mbox s' x = (if x = ?cur then (mbox s ?cur)\<lparr>msgout := msg\<rparr> else mbox s x)" if "pid_ok x" for x
      using r(4) B[OF that] that by simp
    have qx: "?Q ! nat x = (if x = pid then Q ! nat pid @ [?cur] else Q ! nat x)" if "pid_ok x" for x
      using nat_pid_eq[OF that po] nat_pid[OF po] D(2) by (auto simp: nth_list_update)
    have old: "map (\<lambda>y. msgout (mbox s' y)) (Q ! nat x) = map (\<lambda>y. msgout (mbox s y)) (Q ! nat x)" if "pid_ok x" for x
    proof -
      have "y \<noteq> ?cur \<and> pid_ok y" if "y \<in> set (Q ! nat x)" for y
        using C(5) that qp[OF \<open>pid_ok x\<close> that] nth_mem[of "nat x" Q] nat_pid[OF \<open>pid_ok x\<close>] D(2) by auto
      then show ?thesis using bx by (intro map_cong) auto
    qed
    have "mail s' Q' pid = mail s Q pid @ [msg]"
      using q[OF po] qx[OF po] old[OF po] bx[OF po] bx[OF C(1)] 2 by (auto simp: mail_def)
    moreover have "mail s' Q' x = mail s Q x" if "pid_ok x" "x \<noteq> pid" for x
      using q[OF that(1)] qx[OF that(1)] old[OF that(1)] bx[OF that(1)] that(2) by (simp add: mail_def)
    moreover have "boxes_full s' Q'" if full: "boxes_full s Q" using full q qx bx 2 unfolding boxes_full_def by (auto split: if_splits)
    moreover have "send (int c) pid msg s = Some (OK, s')" using send_enter[OF inv c pid t(1)] r(1) by simp
    ultimately show ?thesis using r(2) by blast
  qed
qed

section \<open>Receiving\<close>

lemma distinct_concat_drop:
  assumes "distinct (concat Q)" and "k < length Q" and "Q ! k = x # xs"
  shows "x \<notin> set (concat (Q[k := xs]))"
proof -
  have "Q = take k Q @ (x # xs) # drop (Suc k) Q" using id_take_nth_drop[OF assms(2)] assms(3) by simp
  then have "concat Q = concat (take k Q) @ (x # xs) @ concat (drop (Suc k) Q)" by (metis concat.simps(2) concat_append)
  then show ?thesis using assms(1,2) by (auto simp: upd_conv_take_nth_drop simp del: set_concat)
qed

lemma recv_take_last:
  fixes s :: "'a procst_scheme"
  assumes inv: "kern_inv s Q F" and pid: "live (proctab s) pid" and e: "Q ! nat pid = []"
  defines "v \<equiv> (pcb_of s pid)\<lparr>msg_var := (mbox s pid)\<lparr>hasMessage := 0\<rparr>\<rparr>"
  defines "s1 \<equiv> s\<lparr>proctab := (proctab s)[nat pid := v], queuetab := queuetab s\<rparr>"
  shows "kern_inv s1 Q F"
    and "recv_take (int c) pid (s\<lparr>locktab := lt_hold (int c) (core_com_lock (mbox s pid)) (locktab s)\<rparr>) =
      Some ((msgin (mbox s pid), None), s1\<lparr>locktab := lt_hold (int c) (core_com_lock (mbox s pid)) (locktab s)\<rparr>)"
proof -
  note M = kern_midD[OF inv[unfolded kern_inv_def]]
  have po: "pid_ok pid" "nat pid < 50" using pid nat_pid by (auto simp: live_def)
  note L = kern_shape_proc[OF M(1) po(1)]
  show "kern_inv s1 Q F" unfolding s1_def kern_inv_def
    by (rule kern_mid_box[OF inv[unfolded kern_inv_def] pid]) (simp_all add: same_box_def v_def)
  have mq: "msgqueue (msg_var (pcb_of s pid)) = qid (nat pid)" using M(4) po by (simp add: boxes_ok_def mbox_def)
  have "nonempty (qid (nat pid)) (s\<lparr>locktab := lt_hold (int c) (core_com_lock (mbox s pid)) (locktab s)\<rparr>) = Some False"
    using nonempty_rep(1)[OF box_section(1)[OF inv po(1), of "int c"], of "nat pid"] po(2) e kern_shapeD(2)[OF M(1)] by simp
  then show "recv_take (int c) pid (s\<lparr>locktab := lt_hold (int c) (core_com_lock (mbox s pid)) (locktab s)\<rparr>) =
      Some ((msgin (mbox s pid), None), s1\<lparr>locktab := lt_hold (int c) (core_com_lock (mbox s pid)) (locktab s)\<rparr>)"
    using L(1) mq by (simp add: recv_take_def s1_def v_def mbox_def)
qed

lemma recv_take_next:
  fixes s :: "'a procst_scheme"
  assumes inv: "kern_inv s Q F" and pid: "live (proctab s) pid" "p_state (pcb_of s pid) \<noteq> PRSEND" and e: "Q ! nat pid = x # xs"
    and h: "hasMessage (mbox s pid) = 1"
  defines "v \<equiv> (pcb_of s pid)\<lparr>msg_var := (mbox s pid)\<lparr>msgin := msgout (mbox s x)\<rparr>\<rparr>"
  defines "w \<equiv> (pcb_of s x)\<lparr>msg_var := (mbox s x)\<lparr>msgout := EMPTY\<rparr>\<rparr>"
  defines "S1 \<equiv> \<lambda>t. s\<lparr>proctab := (proctab s)[nat pid := v, nat x := w], queuetab := t\<rparr>"
  shows "\<exists>t. kern_inv (S1 t) (Q[nat pid := xs]) F \<and>
    recv_take (int c) pid (s\<lparr>locktab := lt_hold (int c) (core_com_lock (mbox s pid)) (locktab s)\<rparr>) =
      Some ((msgin (mbox s pid), Some x), (S1 t)\<lparr>locktab := lt_hold (int c) (core_com_lock (mbox s pid)) (locktab s)\<rparr>)"
proof -
  note M = kern_midD[OF inv[unfolded kern_inv_def]]
  note D = kern_shapeD[OF M(1)]
  have po: "pid_ok pid" "nat pid < 50" using pid nat_pid by (auto simp: live_def)
  have k: "nat pid < length Q" using po(2) D(2) by simp
  have xo: "pid_ok x" "p_state (pcb_of s x) = PRSEND" using procs_okD(3)[OF M(2) po(2), of x] e by auto
  then have ne: "x \<noteq> pid" using pid(2) by auto
  note L = kern_shape_proc[OF M(1) po(1)] and LX = kern_shape_proc[OF M(1) xo(1)]
  let ?l = "core_com_lock (mbox s pid)" and ?P = "(proctab s)[nat pid := v]" and ?Q = "Q[nat pid := xs]"
  let ?s1 = "s\<lparr>locktab := lt_hold (int c) ?l (locktab s)\<rparr>"
  note rep = box_section(1)[OF inv po(1), of "int c"]
  from dequeue_rep[OF rep k e, of "int c"] obtain t where
    t: "dequeue (int c) (qid (nat pid)) ?s1 = Some (x, ?s1\<lparr>queuetab := t\<rparr>)" "queues_rep (?s1\<lparr>queuetab := t\<rparr>) ?Q" by blast
  have tl: "map q_lock t = qlocks s" using dequeue_locks[OF t(1)] by simp
  have mq: "msgqueue (msg_var (pcb_of s pid)) = qid (nat pid)" using M(4) po by (simp add: boxes_ok_def mbox_def)
  have "nonempty (qid (nat pid)) ?s1 = Some True" using nonempty_rep(1)[OF rep k] e by simp
  moreover have "at ?P x = pcb_of s x" "inb ?P x" using at_state_upd[OF L(2) po(1) xo(1), of v] ne LX(1) by (simp_all add: inb_def)
  ultimately have run: "recv_take (int c) pid ?s1 = Some ((msgin (mbox s pid), Some x), (S1 t)\<lparr>locktab := locktab ?s1\<rparr>)"
    using L(1) LX(1) mq t(1) by (simp add: recv_take_def S1_def v_def w_def mbox_def)
  have q: "queues_rep (s\<lparr>proctab := ?P, queuetab := t\<rparr>) ?Q"
    using queues_rep_release[OF D(1) t(2), of ?P] tl by simp
  have ok: "procs_ok {..<4} ?P (currpid s) ?Q"
  proof -
    have "procs_ok {..<4} ?P (currpid s) Q"
      using at_state_upd[OF L(2) po(1), of _ v] by (intro procs_ok_cong[OF _ M(2)]) (auto simp: v_def)
    then show ?thesis
    proof (rule procs_ok_shrink)
      show "set (?Q ! i) \<subseteq> set (Q ! i)" for i using e k by (cases "i = nat pid") auto
    qed (use rset_msg[OF po(2)] in simp)
  qed
  have nm: "length (p_name v) = PNMLEN" using M(5) at_in_set[OF L(1)] by (simp add: counters_ok_def v_def)
  have bx: "same_box (mbox s pid) (msg_var v)" using h by (simp add: same_box_def v_def)
  have "p_state v \<noteq> PRFREE" using pid by (simp add: v_def live_def)
  moreover have "p_state v = PRCURR" if "d < 4" "d \<noteq> 4" "currpid s ! d = pid" for d using M(6)[OF that(1,2)] that(3) by (simp add: v_def)
  ultimately have k1: "kern_mid 4 (s\<lparr>proctab := ?P, queuetab := t\<rparr>) ?Q F"
    using L(3) nm bx q tl D(2) ok by (intro kern_mid_pcb[OF inv[unfolded kern_inv_def] pid(1)]) (simp_all add: v_def)
  have ax: "at ?P x = pcb_of s x" using at_state_upd[OF L(2) po(1) xo(1), of v] ne by simp
  have "kern_inv (S1 t) ?Q F" unfolding kern_inv_def
    using kern_mid_box[OF k1, of x "(mbox s x)\<lparr>msgout := EMPTY\<rparr>" w] xo M(4) ax
    by (simp add: S1_def live_def same_box_def mbox_def w_def boxes_ok_def)
  with run show ?thesis by auto
qed

lemma recv_take_ok:
  fixes s :: "'a procst_scheme"
  assumes inv: "kern_inv s Q F" and pid: "live (proctab s) pid" "p_state (pcb_of s pid) \<noteq> PRSEND"
    and h: "hasMessage (mbox s pid) = 1"
  shows "\<exists>y s1 Q1. locked (int c) (core_com_lock (mbox s pid)) (recv_take (int c) pid) s = Some ((hd (mail s Q pid), y), s1) \<and>
    kern_inv s1 Q1 F \<and> (boxes_full s Q \<longrightarrow> boxes_full s1 Q1) \<and> mail s1 Q1 pid = tl (mail s Q pid) \<and>
    (\<forall>x. pid_ok x \<and> x \<noteq> pid \<longrightarrow> mail s1 Q1 x = mail s Q x) \<and>
    (\<forall>x. y = Some x \<longrightarrow> pid_ok x \<and> p_state (pcb_of s1 x) = PRSEND \<and> x \<notin> set (concat Q1))"
proof -
  note M = kern_midD[OF inv[unfolded kern_inv_def]]
  have po: "pid_ok pid" "nat pid < 50" using pid nat_pid by (auto simp: live_def)
  have D: "length (proctab s) = nat NPROC" "length Q = 62" using kern_shape_proc(2)[OF M(1) po(1)] kern_shapeD(2)[OF M(1)] by auto
  note run = box_section(2)[OF inv po(1), of "recv_take (int c) pid" "int c"]
  have qp: "pid_ok y" if "pid_ok x" "y \<in> set (Q ! nat x)" for x y using queue_pids[OF M(1) _ that(2)] nat_pid[OF that(1)] by simp
  show ?thesis
  proof (cases "Q ! nat pid")
    case Nil
    let ?v = "(pcb_of s pid)\<lparr>msg_var := (mbox s pid)\<lparr>hasMessage := 0\<rparr>\<rparr>"
    let ?s1 = "s\<lparr>proctab := (proctab s)[nat pid := ?v], queuetab := queuetab s\<rparr>"
    note T = recv_take_last[OF inv pid(1) Nil]
    note B = mbox_upd[OF D(1) po(1), where v = ?v and t = "queuetab s"]
    have o: "msgout (mbox ?s1 y) = msgout (mbox s y)" if "pid_ok y" for y using B[OF that] by simp
    have "mail ?s1 Q x = mail s Q x" if "pid_ok x" "x \<noteq> pid" for x
      using B[OF that(1)] that o qp[OF that(1)] by (simp add: mail_def)
    moreover have "mail s Q pid = [msgin (mbox s pid)]" "mail ?s1 Q pid = []" using B[OF po(1)] Nil h by (simp_all add: mail_def)
    moreover have "boxes_full ?s1 Q" if full: "boxes_full s Q" using full Nil B by (auto simp: boxes_full_def)
    ultimately show ?thesis using run[OF T(2)] T(1) by (intro exI[of _ None] exI[of _ ?s1] exI[of _ Q]) simp
  next
    case (Cons x xs)
    let ?v = "(pcb_of s pid)\<lparr>msg_var := (mbox s pid)\<lparr>msgin := msgout (mbox s x)\<rparr>\<rparr>"
    let ?w = "(pcb_of s x)\<lparr>msg_var := (mbox s x)\<lparr>msgout := EMPTY\<rparr>\<rparr>" and ?Q = "Q[nat pid := xs]"
    let ?S = "\<lambda>t. s\<lparr>proctab := (proctab s)[nat pid := ?v, nat x := ?w], queuetab := t\<rparr>"
    from recv_take_next[OF inv pid Cons h, of c] obtain t where T: "kern_inv (?S t) ?Q F"
      "recv_take (int c) pid (s\<lparr>locktab := lt_hold (int c) (core_com_lock (mbox s pid)) (locktab s)\<rparr>) =
        Some ((msgin (mbox s pid), Some x), (?S t)\<lparr>locktab := lt_hold (int c) (core_com_lock (mbox s pid)) (locktab s)\<rparr>)" by blast
    have xo: "pid_ok x" "p_state (pcb_of s x) = PRSEND" using procs_okD(3)[OF M(2) po(2), of x] Cons by auto
    then have ne: "x \<noteq> pid" using pid(2) by auto
    have L1: "length ((proctab s)[nat pid := ?v]) = nat NPROC" using D(1) by simp
    have A: "pcb_of (?S t) y = (if y = x then ?w else if y = pid then ?v else pcb_of s y)" if "pid_ok y" for y
      using at_state_upd[OF L1 xo(1) that, of ?w] at_state_upd[OF D(1) po(1) that, of ?v] by simp
    have B: "mbox (?S t) y = (if y = x then (mbox s x)\<lparr>msgout := EMPTY\<rparr> else
        if y = pid then (mbox s pid)\<lparr>msgin := msgout (mbox s x)\<rparr> else mbox s y)" if "pid_ok y" for y
      using A[OF that] by (simp add: mbox_def)
    have dis: "distinct (concat Q)" using kern_shapeD(1)[OF M(1)] by (simp add: queues_rep_def)
    have off: "x \<notin> set (concat ?Q)" using distinct_concat_drop[OF dis, of "nat pid" x xs] Cons po(2) D(2) by simp
    have qx: "?Q ! nat y = (if y = pid then xs else Q ! nat y)" if "pid_ok y" for y
      using nat_pid_eq[OF that po(1)] po(2) D(2) by (auto simp: nth_list_update)
    have o: "msgout (mbox (?S t) z) = msgout (mbox s z)" if "pid_ok y" "z \<in> set (?Q ! nat y)" for y z
    proof -
      have "z \<noteq> x" using off that nth_mem[of "nat y" ?Q] nat_pid[OF that(1)] D(2) by auto
      moreover have "pid_ok z" using that qx[OF that(1)] qp[of _ z] po(1) Cons by (auto split: if_splits)
      ultimately show ?thesis using B by simp
    qed
    have "mail (?S t) ?Q y = mail s Q y" if y: "pid_ok y" "y \<noteq> pid" for y
      using B[OF y(1)] o[OF y(1)] qx[OF y(1)] y by (auto simp: mail_def)
    moreover have "mail s Q pid = msgin (mbox s pid) # msgout (mbox s x) # map (\<lambda>z. msgout (mbox s z)) xs" using Cons h by (simp add: mail_def)
    moreover have "mail (?S t) ?Q pid = msgout (mbox s x) # map (\<lambda>z. msgout (mbox s z)) xs"
      using B[OF po(1)] o[OF po(1)] qx[OF po(1)] ne h by (simp add: mail_def)
    moreover have "boxes_full (?S t) ?Q" if full: "boxes_full s Q" using full qx B Cons h unfolding boxes_full_def by (auto split: if_splits)
    moreover have "p_state (pcb_of (?S t) x) = PRSEND" using A[OF xo(1)] xo(2) by simp
    ultimately show ?thesis using run[OF T(2)] T(1) off xo(1)
      by (intro exI[of _ "Some x"] exI[of _ "?S t"] exI[of _ ?Q]) simp
  qed
qed

lemma mail_empty: "boxes_full s Q \<Longrightarrow> boxes_ok s \<Longrightarrow> pid_ok pid \<Longrightarrow> mail s Q pid = [] \<longleftrightarrow> hasMessage (mbox s pid) = 0"
  by (auto simp: mail_def boxes_full_def boxes_ok_def)

lemma mail_transfer:
  assumes inv: "kern_inv s Q F" and q: "\<And>i. i < 50 \<Longrightarrow> Q' ! i = Q ! i" and b: "\<And>x. pid_ok x \<Longrightarrow> mbox s' x = mbox s x"
  shows "pid_ok x \<Longrightarrow> mail s' Q' x = mail s Q x" and "boxes_full s' Q' \<longleftrightarrow> boxes_full s Q"
proof -
  note M = kern_midD[OF inv[unfolded kern_inv_def]]
  show "mail s' Q' x = mail s Q x" if "pid_ok x"
    using q[OF nat_pid[OF that]] b queue_pids[OF M(1), of "nat x"] nat_pid[OF that] that by (intro mail_cong) auto
  show "boxes_full s' Q' \<longleftrightarrow> boxes_full s Q" using q b nat_pid by (auto simp: boxes_full_def)
qed

lemma recv_wake_ok:
  fixes s :: "'a procst_scheme"
  assumes inv: "kern_inv s Q F" and c: "c < 4"
    and y: "\<And>x. y = Some x \<Longrightarrow> pid_ok x \<and> p_state (pcb_of s x) = PRSEND \<and> x \<notin> set (concat Q)"
  shows "\<exists>s' Q'. recv_wake (int c) y s = Some s' \<and> kern_inv s' Q' F \<and>
    (\<forall>i < 50. Q' ! i = Q ! i) \<and> (\<forall>x. pid_ok x \<longrightarrow> mbox s' x = mbox s x)"
proof (cases y)
  case None
  then show ?thesis using inv by (auto simp: recv_wake_def)
next
  case (Some x)
  note M = kern_midD[OF inv[unfolded kern_inv_def]]
  from y[OF Some] have x: "pid_ok x" "p_state (pcb_of s x) = PRRECV \<or> p_state (pcb_of s x) = PRSEND \<and> x \<notin> set (concat Q)" by auto
  from wake_receiver[OF inv c x, of False] kern_shape_proc(1)[OF M(1) x(1)] show ?thesis
    by (auto simp: recv_wake_def Some)
qed

lemma recv_collect:
  fixes s :: "'a procst_scheme"
  assumes inv: "kern_inv s Q F" and c: "c < 4" and has: "hasMessage (mbox s (currpid s ! c)) = 1"
  defines "pid \<equiv> currpid s ! c"
  shows "\<exists>s' Q'. recv (int c) s = Some (Some (hd (mail s Q pid)), s') \<and> recv_resume (int c) s = Some (hd (mail s Q pid), s') \<and>
    kern_inv s' Q' F \<and> (boxes_full s Q \<longrightarrow> boxes_full s' Q') \<and> mail s' Q' pid = tl (mail s Q pid) \<and>
    (\<forall>x. pid_ok x \<and> x \<noteq> pid \<longrightarrow> mail s' Q' x = mail s Q x)"
proof -
  note M = kern_midD[OF inv[unfolded kern_inv_def]] and C = current_facts[OF inv c, folded pid_def]
  have h: "hasMessage (mbox s pid) = 1" using has by (simp add: pid_def)
  note L = kern_shape_proc[OF M(1) C(1)]
  let ?l = "core_com_lock (mbox s pid)"
  have idle: "lock_idle ?l s" using M(4) C(1) by (simp add: boxes_ok_def)
  from recv_take_ok[OF inv C(3) _ h, of c] C(2) obtain y s1 Q1 where
    t: "locked (int c) ?l (recv_take (int c) pid) s = Some ((hd (mail s Q pid), y), s1)" and
    i: "kern_inv s1 Q1 F" and f: "boxes_full s Q \<longrightarrow> boxes_full s1 Q1" and p: "mail s1 Q1 pid = tl (mail s Q pid)"
    and o: "\<And>x. pid_ok x \<Longrightarrow> x \<noteq> pid \<Longrightarrow> mail s1 Q1 x = mail s Q x"
    and y: "\<And>x. y = Some x \<Longrightarrow> pid_ok x \<and> p_state (pcb_of s1 x) = PRSEND \<and> x \<notin> set (concat Q1)" by auto
  from recv_wake_ok[OF i c, of y] y obtain s' Q' where
    w: "recv_wake (int c) y s1 = Some s'" "kern_inv s' Q' F" "\<And>i. i < 50 \<Longrightarrow> Q' ! i = Q1 ! i" "\<And>x. pid_ok x \<Longrightarrow> mbox s' x = mbox s1 x" by auto
  note T = mail_transfer[OF i w(3) w(4)]
  let ?b = "\<lambda>s. do { p \<leftarrow> aget (proctab s) pid; if 0 = hasMessage (msg_var p)
            then do { s \<leftarrow> upd_pcb pid (\<lambda>p. p\<lparr>p_state := PRRECV\<rparr>) s; Some (None, s) }
            else do { (x, s) \<leftarrow> recv_take (int c) pid s; Some (Some x, s) } }"
  have "locked (int c) ?l ?b s = Some (Some (hd (mail s Q pid), y), s1)"
    using t h L(1) lock_acquire_idle[OF idle, of "int c"] by (auto simp: locked_def mbox_def split: Option.bind_splits prod.splits)
  then have "recv (int c) s = Some (Some (hd (mail s Q pid)), s')" using C(4) L(1) w(1) by (simp add: recv_def mbox_def)
  moreover have "recv_resume (int c) s = Some (hd (mail s Q pid), s')" using C(4) L(1) w(1) t by (simp add: recv_resume_def mbox_def)
  ultimately show ?thesis using w(2) T f p o C(1) by auto
qed

lemma recv_blocks:
  fixes s :: "'a procst_scheme"
  assumes inv: "kern_inv s Q F" and c: "c < 4" and h: "hasMessage (mbox s (currpid s ! c)) = 0" and u: "4 \<le> currpid s ! c"
  defines "pid \<equiv> currpid s ! c"
  shows "\<exists>s' Q'. recv (int c) s = Some (None, s') \<and> kern_inv s' Q' F \<and> p_state (pcb_of s' pid) = PRRECV \<and> currpid s' ! c \<noteq> pid \<and>
    (\<forall>i < 50. Q' ! i = Q ! i) \<and> (\<forall>x. pid_ok x \<longrightarrow> mbox s' x = mbox s x)"
proof -
  note M = kern_midD[OF inv[unfolded kern_inv_def]] and C = current_facts[OF inv c, folded pid_def]
  note L = kern_shape_proc[OF M(1) C(1)] and D = kern_shapeD[OF M(1)]
  let ?v = "(pcb_of s pid)\<lparr>p_state := PRRECV\<rparr>" and ?P = "(proctab s)[nat pid := (pcb_of s pid)\<lparr>p_state := PRRECV\<rparr>]"
  let ?s1 = "s\<lparr>proctab := ?P, queuetab := queuetab s\<rparr>"
  let ?b = "\<lambda>s. do { p \<leftarrow> aget (proctab s) pid; if 0 = hasMessage (msg_var p)
            then do { s \<leftarrow> upd_pcb pid (\<lambda>p. p\<lparr>p_state := PRRECV\<rparr>) s; Some (None, s) }
            else do { (x, s) \<leftarrow> recv_take (int c) pid s; Some (Some x, s) } }"
  have lk: "locked (int c) (core_com_lock (mbox s pid)) ?b s = Some (None, ?s1)"
    using h L(1) by (intro box_section_simple[OF inv C(1)]) (simp add: mbox_def pid_def)
  have ok: "procs_ok {..<4} ?P (currpid s) Q" by (rule procs_ok_blocked[OF M(2) L(2) C(1) u[folded pid_def] C(2)]) simp_all
  have q: "queues_rep ?s1 Q" by (rule queues_rep_cong[OF D(1)]) simp_all
  have mid: "kern_mid c s Q F" using inv kern_inv_mid by blast
  have nm: "length (p_name ?v) = PNMLEN" using M(5) at_in_set[OF L(1)] by (simp add: counters_ok_def)
  have bx: "same_box (mbox s pid) (msg_var ?v)" using M(4) C(1) by (simp add: same_box_def boxes_ok_def mbox_def)
  have run: "currpid s ! d \<noteq> pid" if "d < 4" "d \<noteq> c" for d using current_distinct[OF M(2), of d pid c] C(6) that by simp
  have m1: "kern_mid c ?s1 Q F"
    by (rule kern_mid_pcb[OF mid C(3) _ _ _ _ nm bx q D(2) _ ok]) (use L(3) run in auto)
  let ?T = "\<lambda>n. switch_tab (proctab ?s1) pid n (cpu s ! c)"
  let ?S = "\<lambda>t n m l. ?s1\<lparr>promote_medium := (promote_medium s)[c := m], promote_low := (promote_low s)[c := l], queuetab := t,
       proctab := ?T n, currpid := (currpid s)[c := n], preempt := (preempt s)[c := QUANTUM],
       cpu := (cpu s)[c := load_regs (regs (at (?T n) n)) (cpu s ! c)]\<rparr>"
  have st: "p_state (pcb_of ?s1 pid) = PRRECV" using L(1) by simp
  obtain t Q' new m l where R: "resched (int c) ?s1 = Some (?S t new m l)" "kern_inv (?S t new m l) Q' F"
    "\<forall>k. (\<forall>j < 3. k \<noteq> rq c j) \<longrightarrow> Q' ! k = Q ! k" "pid_ok new" "new \<in> rset Q c"
    using resched_mid[OF m1 c] st unfolding Let_def by (auto simp: pid_def)
  have "p_state (pcb_of ?s1 new) = PRREADY" using procs_okD(2)[OF ok c R(5)] by simp
  then have ne: "new \<noteq> pid" using st by auto
  have ib: "inb ?P x" if "pid_ok x" for x using kern_shape_proc(1)[OF M(1) that] by (simp add: inb_def)
  note A = switch_tab_at[OF ib[OF C(1)] ib[OF R(4)] ib, of _ "cpu s ! c"]
  note U = at_state_upd[OF L(2) C(1), of _ ?v]
  have "p_state (at (?T new) pid) = PRRECV" using A[OF C(1)] ne st by (simp add: requeued_def)
  moreover have "mbox (?S t new m l) x = mbox s x" if "pid_ok x" for x
    using A[OF that] U[OF that] U[OF C(1)] U[OF R(4)] by (simp add: mbox_def requeued_def)
  moreover have "Q' ! i = Q ! i" if "i < 50" for i using R(3) that rq_ge[of c] by (metis linorder_not_le)
  moreover have "recv (int c) s = Some (None, ?S t new m l)" using lk R(1) C(4) L(1) by (simp add: recv_def mbox_def)
  ultimately show ?thesis using R(2) ne D(3) c by (intro exI[of _ "?S t new m l"] exI[of _ Q']) simp
qed

lemma recvnow_ok:
  fixes s :: "'a procst_scheme"
  assumes inv: "kern_inv s Q F" and c: "c < 4"
  defines "pid \<equiv> currpid s ! c"
  shows "hasMessage (mbox s pid) = 0 \<Longrightarrow> recvnow (int c) s = Some (SYSERR, s)"
    and "hasMessage (mbox s pid) = 1 \<Longrightarrow> \<exists>s'. recvnow (int c) s = Some (msgin (mbox s pid), s') \<and> kern_inv s' Q F \<and>
      hasMessage (mbox s' pid) = 0 \<and> currpid s' = currpid s \<and> mail s' Q pid = tl (mail s Q pid) \<and>
      (\<forall>x. pid_ok x \<and> x \<noteq> pid \<longrightarrow> mail s' Q x = mail s Q x)"
proof -
  note M = kern_midD[OF inv[unfolded kern_inv_def]] and C = current_facts[OF inv c, folded pid_def]
  note L = kern_shape_proc[OF M(1) C(1)] and D = kern_shapeD[OF M(1)]
  let ?v = "(pcb_of s pid)\<lparr>msg_var := (mbox s pid)\<lparr>hasMessage := 0\<rparr>\<rparr>"
  let ?s1 = "s\<lparr>proctab := (proctab s)[nat pid := ?v], queuetab := queuetab s\<rparr>"
  let ?b = "\<lambda>s. do { p \<leftarrow> aget (proctab s) pid; if 0 = hasMessage (msg_var p) then Some (SYSERR, s)
            else do { s \<leftarrow> upd_msg pid (\<lambda>m. m\<lparr>hasMessage := 0\<rparr>) s; Some (msgin (msg_var p), s) } }"
  have "locked (int c) (core_com_lock (mbox s pid)) ?b s = Some (SYSERR, s\<lparr>proctab := proctab s, queuetab := queuetab s\<rparr>)"
    if "hasMessage (mbox s pid) = 0" by (rule box_section_simple[OF inv C(1)]) (use that L(1) in \<open>simp add: mbox_def\<close>)
  then show "recvnow (int c) s = Some (SYSERR, s)" if "hasMessage (mbox s pid) = 0"
    using that C(4) L(1) by (simp add: recvnow_def mbox_def)
  assume h: "hasMessage (mbox s pid) = 1"
  have "locked (int c) (core_com_lock (mbox s pid)) ?b s = Some (msgin (mbox s pid), ?s1)"
    by (rule box_section_simple[OF inv C(1)]) (use h L(1) in \<open>simp add: mbox_def\<close>)
  then have run: "recvnow (int c) s = Some (msgin (mbox s pid), ?s1)" using C(4) L(1) by (simp add: recvnow_def mbox_def)
  have k: "kern_inv ?s1 Q F" unfolding kern_inv_def
    by (rule kern_mid_box[OF inv[unfolded kern_inv_def] C(3)]) (simp_all add: same_box_def)
  note B = mbox_upd[OF L(2) C(1), where v = ?v and t = "queuetab s"]
  have o: "msgout (mbox ?s1 y) = msgout (mbox s y)" if "pid_ok x" "y \<in> set (Q ! nat x)" for x y
    using B[of y] queue_pids[OF M(1) _ that(2)] nat_pid[OF that(1)] by simp
  have "mail ?s1 Q pid = tl (mail s Q pid)" using B[OF C(1)] o[OF C(1)] h by (simp add: mail_def)
  moreover have "mail ?s1 Q x = mail s Q x" if "pid_ok x" "x \<noteq> pid" for x
    using B[OF that(1)] o[OF that(1)] that by (simp add: mail_def)
  moreover have "hasMessage (mbox ?s1 pid) = 0" using B[OF C(1)] by simp
  ultimately show "\<exists>s'. recvnow (int c) s = Some (msgin (mbox s pid), s') \<and> kern_inv s' Q F \<and>
      hasMessage (mbox s' pid) = 0 \<and> currpid s' = currpid s \<and> mail s' Q pid = tl (mail s Q pid) \<and>
      (\<forall>x. pid_ok x \<and> x \<noteq> pid \<longrightarrow> mail s' Q x = mail s Q x)"
    using run k by (intro exI[of _ ?s1]) simp
qed

lemma sendnow_ok:
  fixes s :: "'a procst_scheme"
  assumes inv: "kern_inv s Q F" and c: "c < 4" and pid: "live (proctab s) pid" and h: "hasMessage (mbox s pid) = 0"
  shows "\<exists>s' Q'. sendnow (int c) pid msg s = Some (OK, s') \<and> kern_inv s' Q' F \<and>
    mail s' Q' pid = msg # mail s Q pid \<and> (boxes_full s Q \<longrightarrow> boxes_full s' Q') \<and> (\<forall>x. pid_ok x \<and> x \<noteq> pid \<longrightarrow> mail s' Q' x = mail s Q x)"
proof -
  note M = kern_midD[OF inv[unfolded kern_inv_def]]
  have po: "pid_ok pid" using pid by (simp add: live_def)
  note L = kern_shape_proc[OF M(1) po]
  let ?v = "(pcb_of s pid)\<lparr>msg_var := (mbox s pid)\<lparr>msgin := msg, hasMessage := 1\<rparr>\<rparr>"
  let ?s1 = "s\<lparr>proctab := (proctab s)[nat pid := ?v], queuetab := queuetab s\<rparr>"
  note S = send_deposit[OF inv c pid h, where msg = msg]
  note B = mbox_upd[OF L(2) po, where v = ?v and t = "queuetab s"]
  have o: "msgout (mbox ?s1 y) = msgout (mbox s y)" if "pid_ok x" "y \<in> set (Q ! nat x)" for x y
    using B[of y] queue_pids[OF M(1) _ that(2)] nat_pid[OF that(1)] by simp
  have m1: "mail ?s1 Q pid = msg # mail s Q pid" using B[OF po] o[OF po] h by (simp add: mail_def)
  have mx: "mail ?s1 Q x = mail s Q x" if "pid_ok x" "x \<noteq> pid" for x using B[OF that(1)] o[OF that(1)] that by (simp add: mail_def)
  have full: "boxes_full s Q \<longrightarrow> boxes_full ?s1 Q" using B by (auto simp: boxes_full_def)
  show ?thesis
  proof (cases "p_state (pcb_of s pid) = PRRECV")
    case False
    then have "sendnow (int c) pid msg s = Some (OK, ?s1)" using S(3) L(1) by (simp add: sendnow_def mbox_def)
    then show ?thesis using S(1) m1 mx full by (intro exI[of _ ?s1] exI[of _ Q]) simp
  next
    case True
    have at1: "pcb_of ?s1 pid = ?v" "inb (proctab ?s1) pid" using L(1) by simp_all
    have "p_state (pcb_of ?s1 pid) = PRRECV" unfolding at1(1) using True by simp
    from wake_receiver[OF S(1) c po disjI1[OF this], of False] obtain s' Q' where
      w: "ready (int c) pid False (core_affinity (pcb_of ?s1 pid)) ?s1 = Some (OK, s')" "kern_inv s' Q' F"
        "\<And>i. i < 50 \<Longrightarrow> Q' ! i = Q ! i" "\<And>x. pid_ok x \<Longrightarrow> mbox s' x = mbox ?s1 x" by blast
    note T = mail_transfer[OF S(1) w(3) w(4)]
    have "sendnow (int c) pid msg s = Some (OK, s')" using S(3) True w(1) at1(2) L(1) by (simp add: sendnow_def mbox_def)
    then show ?thesis using w(2) T m1 mx full po by (intro exI[of _ s'] exI[of _ Q']) simp
  qed
qed

end
