(* ===== verification/Kernel_Properties.thy ===== *)
theory Kernel_Properties
  imports Kernel_Example Messages
begin

text \<open>
  What the scheduler, the process calls and the message calls promise, each stated for every
  state that satisfies the kernel's invariant and applied to the example of
  \<open>Kernel_Example\<close>. The proofs are those of \<open>Sched_Invariant\<close>, \<open>Process_Life\<close> and
  \<open>Messages\<close>.
\<close>

section \<open>The scheduler\<close>

lemma waits_bound:
  assumes inv: "kern_inv s Q F" and c: "c < 4" and p: "p \<in> rset Q c"
  shows "\<exists>n \<le> 653. waits (sched_view s Q c) p n"
proof -
  let ?v = "sched_view s Q c"
  note B = view_size[OF inv c] and K = view_counters[OF inv c]
  have u: "unat (vpm ?v) \<le> 3" "unat (vpl ?v) \<le> 3" using K by auto
  have lists: "vhigh ?v = Q ! rq c 2" "vmed ?v = Q ! rq c 1" "vlow ?v = Q ! rq c 0" by (simp_all add: sched_view_def core_of_def)
  from p consider "p \<in> set (vlow ?v)" | "p \<in> set (vmed ?v)" | "p \<in> set (vhigh ?v)" unfolding lists by (auto simp: rset_def)
  then show ?thesis
  proof cases
    case 1
    then obtain xs ys where x: "vlow ?v = xs @ p # ys" by (meson split_list)
    then have "length xs \<le> 48" using B by (simp add: vsize_def)
    with x u B show ?thesis
      by (intro exI[of _ "4 * vsize ?v + 3 + 9 * length xs + 3 * (unat (vpl ?v) - 1) + unat (vpm ?v)"]) (auto simp: waits_def)
  next
    case 2
    then obtain xs ys where x: "vmed ?v = xs @ p # ys" by (meson split_list)
    then have "length xs \<le> 48" using B by (simp add: vsize_def)
    with x u B show ?thesis
      by (intro exI[of _ "vsize ?v + 3 * length xs + unat (vpm ?v)"]) (auto simp: waits_def)
  next
    case 3
    then obtain xs ys where x: "vhigh ?v = xs @ p # ys" by (meson split_list)
    then have "length xs \<le> 48" using B by (simp add: vsize_def)
    with x show ?thesis by (intro exI[of _ "length xs"]) (auto simp: waits_def)
  qed
qed

text \<open>C1.
  \<^verbatim>\<open>resched\<close> implements the abstract scheduler \<open>v_resched\<close>. In a state that satisfies the
  kernel's invariant the call returns, keeps the invariant, and takes the ready lists, the running
  process and the aging counters of its core through aging, requeueing of the running process
  at the end of the list of its priority, and choice of the first process of the highest
  nonempty priority. Every other queue and every mailbox stays as it is, and no process comes
  or goes.
\<close>

theorem resched_refines:
  assumes "kern_inv s Q F" and "c < 4"
  shows "\<exists>s' Q'. resched (int c) s = Some s' \<and> kern_inv s' Q' F \<and>
    sched_view s' Q' c = v_resched True (priority (pcb_of s (currpid s ! c))) (sched_view s Q c) \<and>
    (\<forall>k. (\<forall>j < 3. k \<noteq> rq c j) \<longrightarrow> Q' ! k = Q ! k) \<and> (\<forall>x. pid_ok x \<longrightarrow> mbox s' x = mbox s x) \<and>
    (\<forall>x. live (proctab s') x \<longleftrightarrow> live (proctab s) x)"
proof -
  have "kern_mid c s Q F" "p_state (pcb_of s (currpid s ! c)) = PRCURR" using assms kern_inv_mid by blast+
  from resched_view[OF this(1) assms(2)] this(2) show ?thesis by simp
qed

theorem resched_refines_witness:
  "\<exists>s' Q'. resched 0 kern_ex = Some s' \<and> kern_inv s' Q' ex_free \<and> currpid s' ! 0 = 5 \<and> Q' ! 51 = [4]"
proof -
  have v: "sched_view kern_ex ex_queues 0 = \<lparr>vhigh = [], vmed = [5], vlow = [0], vrun = 4, vpm = 3, vpl = 3\<rparr>"
    by (simp add: sched_view_def core_of_def rq_def ex_queue ex_current) (simp add: kern_ex_def)
  have p: "priority (pcb_of kern_ex (currpid kern_ex ! 0)) = 1"
    unfolding ex_current[of 0, simplified] by (subst ex_fields_of) (simp_all add: pid_ok_def NPROC_def)
  from resched_refines[OF kern_ex_inv, of 0] obtain s' Q' where r: "resched (int 0) kern_ex = Some s'" "kern_inv s' Q' ex_free"
    "sched_view s' Q' 0 = v_resched True 1 \<lparr>vhigh = [], vmed = [5], vlow = [0], vrun = 4, vpm = 3, vpl = 3\<rparr>" unfolding v p by auto
  then have "sched_view s' Q' 0 = \<lparr>vhigh = [], vmed = [4], vlow = [0], vrun = 5, vpm = 2, vpl = 3\<rparr>"
    by (simp add: v_resched_def v_age_def v_put_def v_take_def prio_consts)
  with r(1,2) show ?thesis by (auto simp: sched_view_def core_of_def rq_def)
qed

text \<open>C3.
  No starvation. A process on a ready list of a core runs after at most 654 calls of
  \<^verbatim>\<open>resched\<close> on that core, whatever its priority and whatever the other processes are: 654 is
  13 times the size of the process table and 4 more.
\<close>

theorem resched_no_starvation:
  assumes "kern_inv s Q F" and "c < 4" and "pid \<in> rset Q c"
  shows "\<exists>k \<le> 654. \<exists>s'. resched_iter k (int c) s = Some s' \<and> currpid s' ! c = pid"
proof -
  from waits_bound[OF assms] obtain n where n: "n \<le> 653" "waits (sched_view s Q c) pid n" by blast
  from resched_iter_waits[OF assms(1,2) n(2)] obtain k s' where "k \<le> n + 1" "resched_iter k (int c) s = Some s'" "currpid s' ! c = pid" by blast
  with n(1) show ?thesis by (intro exI[of _ k]) auto
qed

theorem resched_no_starvation_witness:
  "\<exists>k \<le> 654. \<exists>s'. resched_iter k 0 kern_ex = Some s' \<and> currpid s' ! 0 = 0"
  using resched_no_starvation[OF kern_ex_inv, of 0 0] ex_rset[of 0] by simp

text \<open>C27.
  A process that is switched out by \<^verbatim>\<open>ctxsw\<close> and later switched back in finds its registers
  r0 to r11, its stack pointer and its link register as it left them, whatever the processes in
  between did with the processor, and continues at the address to which its call of
  \<^verbatim>\<open>ctxsw\<close> returns. (r12 is the scratch register \<^verbatim>\<open>ip\<close>.)
\<close>

theorem ctxsw_roundtrip:
  fixes s :: "'a procst_scheme"
  assumes "inb (proctab s) old" and "inb (proctab s) new" and "old \<noteq> new" and "c < length (cpu s)"
    and "length (cpu s ! c) = 16" and "\<forall>p \<in> set (proctab s). length (regs p) = 16" and "length r = 16"
  shows "\<exists>s1 s2. ctxsw (int c) old new s = Some s1 \<and>
    ctxsw (int c) new old (s1\<lparr>cpu := (cpu s1)[c := r]\<rparr>) = Some s2 \<and>
    (\<forall>i < 15. i \<noteq> 12 \<longrightarrow> cpu s2 ! c ! i = cpu s ! c ! i) \<and> cpu s2 ! c ! PREG_PC = cpu s ! c ! PREG_LR"
proof -
  have z: "0 \<le> old" "0 \<le> new" using assms(1,2) by (auto simp: inb_def)
  have l: "length (regs (pcb_of s old)) = 16" "length (regs (pcb_of s new)) = 16"
    using assms(6) at_in_set[OF assms(1)] at_in_set[OF assms(2)] by auto
  let ?sv = "save_regs (cpu s ! c) (regs (pcb_of s old))"
  let ?P = "(proctab s)[nat old := (pcb_of s old)\<lparr>regs := ?sv\<rparr>]"
  let ?s1 = "s\<lparr>proctab := ?P, cpu := (cpu s)[c := load_regs (regs (at ?P new)) (cpu s ! c)]\<rparr>"
  have run: "ctxsw (int c) old new s = Some ?s1" by (rule ctxsw_ok[OF assms(1,2,4,5) l])
  let ?t = "?s1\<lparr>cpu := (cpu ?s1)[c := r]\<rparr>"
  have pt: "pcb_of ?t old = (pcb_of s old)\<lparr>regs := ?sv\<rparr>" "pcb_of ?t new = pcb_of s new"
    using z assms(1-3) by (simp_all add: inb_def nat_eq_iff)
  let ?s2 = "?t\<lparr>proctab := (proctab ?t)[nat new := (pcb_of ?t new)\<lparr>regs := save_regs r (regs (pcb_of ?t new))\<rparr>],
    cpu := (cpu ?t)[c := load_regs ?sv r]\<rparr>"
  have bk: "ctxsw (int c) new old ?t = Some ?s2"
    using ctxsw_ok[of ?t new old c] assms pt l z by (simp add: at_update)
  have "load_regs ?sv r ! i = cpu s ! c ! i" if "i < 15" "i \<noteq> 12" for i
    using that by (simp add: load_regs_def save_regs_def PREG_PC_def PREG_LR_def)
  moreover have "load_regs ?sv r ! PREG_PC = cpu s ! c ! PREG_LR" by (simp add: load_regs_def save_regs_def PREG_PC_def PREG_LR_def)
  ultimately show ?thesis using assms(4) by (intro exI[of _ ?s1] exI[of _ ?s2] conjI run bk) simp_all
qed

theorem ctxsw_roundtrip_witness:
  "\<exists>s1 s2. ctxsw 0 4 5 kern_ex = Some s1 \<and> ctxsw 0 5 4 (s1\<lparr>cpu := (cpu s1)[0 := replicate 16 9]\<rparr>) = Some s2 \<and>
    cpu s2 ! 0 ! 13 = cpu kern_ex ! 0 ! 13 \<and> cpu s2 ! 0 ! PREG_PC = cpu kern_ex ! 0 ! PREG_LR"
proof -
  have "inb (proctab kern_ex) 4" "inb (proctab kern_ex) 5" "0 < length (cpu kern_ex)" "length (cpu kern_ex ! 0) = 16"
    "\<forall>p \<in> set (proctab kern_ex). length (regs p) = 16"
    by (auto simp: kern_ex_def inb_def ex_pcb_def)
  from ctxsw_roundtrip[OF this(1,2) _ this(3-5), of "replicate 16 9"] show ?thesis by auto
qed

section \<open>The life of a process\<close>

lemma ex_small: "0 \<le> x \<Longrightarrow> x \<le> 6 \<Longrightarrow> pid_ok x"
  by (simp add: pid_ok_def NPROC_def)

lemma ex_pcb_small:
  "pcb_of kern_ex 4 = ex_pcb 4" "pcb_of kern_ex 5 = ex_pcb 5" "pcb_of kern_ex 6 = ex_pcb 6"
  by (rule ex_pcb_of, simp add: pid_ok_def NPROC_def)+

lemma kern_shape_wf: "kern_inv s Q F \<Longrightarrow> proctab_wf s"
  using kern_midD(1)[of 4 s Q F] by (simp add: kern_inv_def kern_shape_def queues_rep_def)

text \<open>C4.
  \<^verbatim>\<open>create\<close> in a state that satisfies the kernel's invariant, for a priority the scheduler knows
  and no more arguments than fit: it returns \<open>SYSERR\<close> and leaves the process table alone when there is
  no memory for the stack or no free entry (in the second case the stack it has allocated is
  lost). Otherwise it returns the id of an entry that was free, which now holds a suspended
  process with a stack taken from the free memory: the accounting words on top, the
  start address, the return address and the stack pointer in place, the first four arguments
  in registers and the others on the stack. All other entries are as before, and the
  invariant holds in every case.
\<close>

theorem create_spec:
  fixes s :: "'a procst_scheme"
  assumes "kern_inv s Q F" and "c < 4" and "is_cstr name" and "nargs \<le> length ap" and "16 + 4 * nargs \<le> 4096"
    and "unat prio < 3" and "unat ssize \<le> 2 ^ 32 - 8"
  shows "(\<exists>s' G. create (int c) userret_addr funcaddr ssize prio name nargs ap s = Some (SYSERR, s') \<and>
      kern_inv s' Q G \<and> proctab s' = proctab s \<and> create_fails (int c) (round_ssize ssize) s F G) \<or>
    (\<exists>pid base s' G. create (int c) userret_addr funcaddr ssize prio name nargs ap s = Some (pid, s') \<and>
      kern_inv s' Q G \<and> \<not> live (proctab s) pid \<and> pid_ok pid \<and>
      fresh_process s' pid base (round_ssize ssize) funcaddr userret_addr (uint prio) nargs ap \<and>
      blk_bytes (base, round_ssize ssize) \<subseteq> avail F \<and> avail G = avail F - blk_bytes (base, round_ssize ssize) \<and>
      (\<forall>x. pid_ok x \<and> x \<noteq> pid \<longrightarrow> pcb_of s' x = pcb_of s x))"
  by (rule create_ok[OF assms])

lemma ex_getmem: "getmem 0 4096 kern_ex \<noteq> Some (SYSERRP, kern_ex)"
proof -
  have "alloc_list 4096 (at ex_free 0) = Some (0x103000, [(0x104000, 0xC000)])" by (simp add: ex_free_def)
  moreover have "roundmb 4096 = 4096" by (simp add: roundmb_def)
  ultimately obtain t where "getmem 0 4096 kern_ex = Some (0x103000, t)"
    using getmem_rep[OF ex_heap, of 0 4096 4096] by (auto simp: NCORES_def)
  then show ?thesis by (simp add: SYSERRP_eq)
qed

theorem create_spec_witness:
  "\<exists>pid s' Q. create 0 0x8000 0x9000 100 1 [109, 97, 105, 110, 0] 5 [1, 2, 3, 4, 5] kern_ex = Some (pid, s') \<and> pid_ok pid \<and>
    p_state (pcb_of s' pid) = PRSUSP \<and> regs (pcb_of s' pid) ! 0 = 1 \<and> regs (pcb_of s' pid) ! PREG_PC = 0x9000"
proof -
  have sz: "round_ssize 100 = 4096" by (simp add: round_ssize_def MINSTK_def)
  have "\<not> create_fails (int 0) (round_ssize 100) kern_ex ex_free G" for G
    using ex_getmem ex_live[of 7] unfolding create_fails_def sz by (auto simp: pid_ok_def NPROC_def)
  with create_spec[OF kern_ex_inv, where c = 0 and name = "[109, 97, 105, 110, 0]" and nargs = 5 and ap = "[1, 2, 3, 4, 5]" and prio = 1
      and ssize = 100 and userret_addr = "0x8000" and funcaddr = "0x9000"]
  obtain pid base s' where "create 0 0x8000 0x9000 100 1 [109, 97, 105, 110, 0] 5 [1, 2, 3, 4, 5] kern_ex = Some (pid, s')" "pid_ok pid"
    "fresh_process s' pid base (round_ssize 100) 0x9000 0x8000 (uint (1 :: u32)) 5 [1, 2, 3, 4, 5]"
    by (auto simp: is_cstr_def)
  then show ?thesis unfolding fresh_process_def Let_def by (intro exI[of _ pid] exI[of _ s']) simp
qed



text \<open>C29.
  A process that is killed while it is blocked in \<^verbatim>\<open>send\<close> stays on the message queue of
  the receiver: \<^verbatim>\<open>kill\<close> removes only ready processes from their queue. The entry is free for the
  next \<^verbatim>\<open>create\<close> while the queue still holds its id.
\<close>

theorem kill_leaves_sender_queued:
  fixes s :: "'a procst_scheme"
  assumes inv: "kern_inv s Q F" and u: "user (proctab s) pid" and q: "i < 50" "pid \<in> set (Q ! i)"
    and c: "c < 4" "core_affinity (pcb_of s pid) = int c"
  shows "\<exists>s'. kill (int c) pid s = Some (OK, s') \<and> p_state (pcb_of s' pid) = PRFREE \<and>
    queuetab s' = queuetab s \<and> queue_rep (queuetab s') (qhead i) (Q ! i)"
proof -
  note M = kern_midD[OF inv[unfolded kern_inv_def]] and wf = kern_shape_wf[OF inv]
  have po: "pid_ok pid" "4 \<le> pid" "p_state (pcb_of s pid) = PRSEND" using u procs_okD(3)[OF M(2) q] by (auto simp: user_def live_def)
  note L = kern_shape_proc[OF M(1) po(1)]
  let ?p = "pcb_of s pid" and ?s0 = "s\<lparr>numproc := numproc s - 1\<rparr>"
  have hp: "heap_rep ?s0 F" by (rule heap_rep_cong[of s]) (use M(3) in \<open>simp_all add: stacks_ok_def\<close>)
  have "in_layout (layout ?s0) (stack_of (proctab s) pid)" "blk_bytes (stack_of (proctab s) pid) \<inter> avail F = {}"
    using M(3) u by (auto simp: stacks_ok_def layout_def)
  from freemem_owned[OF hp this, of "int c"] obtain m fl where
    f: "freemem (int c) (stkbase ?p) (stklen ?p) ?s0 = Some (OK, ?s0\<lparr>mem := m, freelist := fl\<rparr>)" by auto
  let ?s1 = "s\<lparr>numproc := numproc s - 1, mem := m, freelist := fl, proctab := (proctab s)[nat pid := ?p\<lparr>p_state := PRFREE\<rparr>]\<rparr>"
  have "isbadpid pid s = Some False" using wf po by (simp add: isbadpid_wf pid_ok_def)
  then have "kill (int c) pid s = Some (OK, ?s1)" using L(1) po c f by (simp add: kill_def)
  moreover have "queue_rep (queuetab s) (qhead i) (Q ! i)" using kern_shapeD(1,2)[OF M(1)] q(1) by (simp add: queues_rep_def)
  ultimately show ?thesis using L(1) by (intro exI[of _ ?s1]) simp
qed

theorem kill_leaves_sender_queued_witness:
  "\<exists>s'. kill 0 6 kern_ex = Some (OK, s') \<and> p_state (pcb_of s' 6) = PRFREE \<and> queue_rep (queuetab s') (qhead 4) [6]"
proof -
  have "user (proctab kern_ex) 6" "6 \<in> set (ex_queues ! 4)" "core_affinity (pcb_of kern_ex 6) = int 0" "ex_queues ! 4 = [6]"
    unfolding ex_pcb_small by (auto simp: user_def ex_live ex_queue ex_pcb_def)
  with kill_leaves_sender_queued[OF kern_ex_inv this(1) _ this(2), of 0] show ?thesis by auto
qed

section \<open>Messages\<close>


lemma ex_mbox:
  "mbox kern_ex 4 = msg_var (ex_pcb 4)" "mbox kern_ex 5 = msg_var (ex_pcb 5)" "mbox kern_ex 6 = msg_var (ex_pcb 6)"
  unfolding mbox_def ex_pcb_small by simp_all

lemma ex_mail: "mail kern_ex ex_queues 4 = [66, 77]" "mail kern_ex ex_queues 5 = []"
  by (simp_all add: mail_def ex_mbox ex_queue ex_pcb_def)

lemma ex_full: "boxes_full kern_ex ex_queues"
proof -
  have "pid = 4" if "pid_ok pid" "ex_queues ! nat pid \<noteq> []" for pid
    using that nat_pid[OF that(1)] by (auto simp: ex_queue pid_ok_def split: if_splits)
  moreover have "hasMessage (mbox kern_ex 4) = 1" unfolding ex_mbox by (simp add: ex_pcb_def)
  ultimately show ?thesis unfolding boxes_full_def by blast
qed


text \<open>
  Runs of the kernel in which processes send, receive and are rescheduled, with the
  messages that were sent and received so far, each with the receiver. A receiver that had to wait
  collects its message with \<open>recv_resume\<close> when it runs again.
\<close>

inductive mail_run :: "'a procst_scheme \<Rightarrow> (int \<times> int) list \<Rightarrow> (int \<times> int) list \<Rightarrow> 'a procst_scheme \<Rightarrow> bool" where
  mail_refl: "mail_run s [] [] s"
| mail_send: "mail_run s0 ss rs s \<Longrightarrow> c < 4 \<Longrightarrow> 4 \<le> currpid s ! c \<Longrightarrow> live (proctab s) pid \<Longrightarrow>
    send (int c) pid msg s = Some (r, s') \<Longrightarrow> mail_run s0 (ss @ [(pid, msg)]) rs s'"
| mail_recv: "mail_run s0 ss rs s \<Longrightarrow> c < 4 \<Longrightarrow> 4 \<le> currpid s ! c \<Longrightarrow>
    recv (int c) s = Some (Some msg, s') \<Longrightarrow> mail_run s0 ss (rs @ [(currpid s ! c, msg)]) s'"
| mail_wait: "mail_run s0 ss rs s \<Longrightarrow> c < 4 \<Longrightarrow> 4 \<le> currpid s ! c \<Longrightarrow>
    recv (int c) s = Some (None, s') \<Longrightarrow> mail_run s0 ss rs s'"
| mail_resume: "mail_run s0 ss rs s \<Longrightarrow> c < 4 \<Longrightarrow> hasMessage (mbox s (currpid s ! c)) = 1 \<Longrightarrow>
    recv_resume (int c) s = Some (msg, s') \<Longrightarrow> mail_run s0 ss (rs @ [(currpid s ! c, msg)]) s'"
| mail_resched: "mail_run s0 ss rs s \<Longrightarrow> c < 4 \<Longrightarrow> resched (int c) s = Some s' \<Longrightarrow> mail_run s0 ss rs s'"

definition letters :: "int \<Rightarrow> (int \<times> int) list \<Rightarrow> int list" where
  "letters pid xs = map snd (filter (\<lambda>x. fst x = pid) xs)"

lemma letters_simps [simp]:
  "letters pid [] = []" "letters pid (xs @ [(p, m)]) = letters pid xs @ (if p = pid then [m] else [])"
  by (auto simp: letters_def)

lemma mail_runs:
  assumes "mail_run s ss rs s'" and "kern_inv s Q F" and "boxes_full s Q"
  shows "\<exists>Q'. kern_inv s' Q' F \<and> boxes_full s' Q' \<and>
    (\<forall>x. pid_ok x \<longrightarrow> mail s Q x @ letters x ss = letters x rs @ mail s' Q' x)"
  using assms
proof (induction rule: mail_run.induct)
  case mail_refl
  then show ?case by auto
next
  case (mail_send s0 ss rs s c pid msg r s')
  then obtain Q1 where I: "kern_inv s Q1 F" "boxes_full s Q1" "\<And>x. pid_ok x \<Longrightarrow> mail s0 Q x @ letters x ss = letters x rs @ mail s Q1 x" by blast
  from send_ok[OF I(1) mail_send.hyps(2-4), of msg] I(2) mail_send.hyps(5) obtain Q' where
    "kern_inv s' Q' F" "boxes_full s' Q'" "mail s' Q' pid = mail s Q1 pid @ [msg]" "\<And>x. pid_ok x \<Longrightarrow> x \<noteq> pid \<Longrightarrow> mail s' Q' x = mail s Q1 x" by auto
  then show ?case using I(3) by (intro exI[of _ Q']) (simp flip: append_assoc)
next
  case (mail_recv s0 ss rs s c msg s')
  then obtain Q1 where I: "kern_inv s Q1 F" "boxes_full s Q1" "\<And>x. pid_ok x \<Longrightarrow> mail s0 Q x @ letters x ss = letters x rs @ mail s Q1 x" by blast
  note M = kern_midD[OF I(1)[unfolded kern_inv_def]] and C = current_facts[OF I(1) mail_recv.hyps(2)]
  have h: "hasMessage (mbox s (currpid s ! c)) = 1"
    using recv_blocks[OF I(1) mail_recv.hyps(2) _ mail_recv.hyps(3)] M(4) C(1) mail_recv.hyps(4) by (auto simp: boxes_ok_def)
  then have ne: "mail s Q1 (currpid s ! c) \<noteq> []" by (simp add: mail_def)
  from recv_collect[OF I(1) mail_recv.hyps(2) h] I(2) mail_recv.hyps(4) obtain Q' where
    "kern_inv s' Q' F" "boxes_full s' Q'" "msg = hd (mail s Q1 (currpid s ! c))" "mail s' Q' (currpid s ! c) = tl (mail s Q1 (currpid s ! c))"
    "\<And>x. pid_ok x \<Longrightarrow> x \<noteq> currpid s ! c \<Longrightarrow> mail s' Q' x = mail s Q1 x" by auto
  then show ?case using I(3) ne by (intro exI[of _ Q']) simp
next
  case (mail_wait s0 ss rs s c s')
  then obtain Q1 where I: "kern_inv s Q1 F" "boxes_full s Q1" "\<And>x. pid_ok x \<Longrightarrow> mail s0 Q x @ letters x ss = letters x rs @ mail s Q1 x" by blast
  note M = kern_midD[OF I(1)[unfolded kern_inv_def]] and C = current_facts[OF I(1) mail_wait.hyps(2)]
  have "hasMessage (mbox s (currpid s ! c)) = 0"
    using recv_collect[OF I(1) mail_wait.hyps(2)] M(4) C(1) mail_wait.hyps(4) by (auto simp: boxes_ok_def)
  from recv_blocks[OF I(1) mail_wait.hyps(2) this mail_wait.hyps(3)] mail_wait.hyps(4) obtain Q' where
    r: "kern_inv s' Q' F" "\<And>i. i < 50 \<Longrightarrow> Q' ! i = Q1 ! i" "\<And>x. pid_ok x \<Longrightarrow> mbox s' x = mbox s x" by auto
  show ?case using mail_transfer[OF I(1) r(2,3)] r(1) I(2,3) by (intro exI[of _ Q']) simp
next
  case (mail_resume s0 ss rs s c msg s')
  then obtain Q1 where I: "kern_inv s Q1 F" "boxes_full s Q1" "\<And>x. pid_ok x \<Longrightarrow> mail s0 Q x @ letters x ss = letters x rs @ mail s Q1 x" by blast
  have ne: "mail s Q1 (currpid s ! c) \<noteq> []" using mail_resume.hyps(3) by (simp add: mail_def)
  from recv_collect[OF I(1) mail_resume.hyps(2,3)] I(2) mail_resume.hyps(4) obtain Q' where
    "kern_inv s' Q' F" "boxes_full s' Q'" "msg = hd (mail s Q1 (currpid s ! c))" "mail s' Q' (currpid s ! c) = tl (mail s Q1 (currpid s ! c))"
    "\<And>x. pid_ok x \<Longrightarrow> x \<noteq> currpid s ! c \<Longrightarrow> mail s' Q' x = mail s Q1 x" by auto
  then show ?case using I(3) ne by (intro exI[of _ Q']) simp
next
  case (mail_resched s0 ss rs s c s')
  then obtain Q1 where I: "kern_inv s Q1 F" "boxes_full s Q1" "\<And>x. pid_ok x \<Longrightarrow> mail s0 Q x @ letters x ss = letters x rs @ mail s Q1 x" by blast
  have "kern_mid c s Q1 F" using I(1) kern_inv_mid by blast
  from resched_view[OF this mail_resched.hyps(2)] mail_resched.hyps(3) obtain Q' where
    r: "kern_inv s' Q' F" "\<forall>k. (\<forall>j < 3. k \<noteq> rq c j) \<longrightarrow> Q' ! k = Q1 ! k" "\<And>x. pid_ok x \<Longrightarrow> mbox s' x = mbox s x" by auto
  have q: "Q' ! i = Q1 ! i" if "i < 50" for i using r(2) that rq_ge[of c] by (metis linorder_not_le)
  show ?case using mail_transfer[OF I(1) q r(3)] r(1) I(2,3) by (intro exI[of _ Q']) simp
qed

text \<open>C2.
  Messages are neither lost, duplicated nor reordered: in every run of sends, receives,
  waits and reschedulings on any of the cores, the messages that waited for a process, followed by
  those sent to it, are those it has received, followed by those that still wait.
\<close>

theorem messages_in_order:
  assumes "kern_inv s Q F" and "boxes_full s Q" and "mail_run s ss rs s'"
  shows "\<exists>Q'. kern_inv s' Q' F \<and> boxes_full s' Q' \<and>
    (\<forall>pid. pid_ok pid \<longrightarrow> mail s Q pid @ letters pid ss = letters pid rs @ mail s' Q' pid)"
  using mail_runs[OF assms(3,1,2)] .

theorem messages_in_order_witness:
  "\<exists>s' Q'. mail_run kern_ex [] [(4, 66)] s' \<and> [66, 77] = [66] @ mail s' Q' 4"
proof -
  have c: "(0 :: nat) < 4" "4 \<le> currpid kern_ex ! 0" "currpid kern_ex ! 0 = 4" by (simp_all add: ex_current)
  have h: "hasMessage (mbox kern_ex (currpid kern_ex ! 0)) = 1" unfolding c(3) ex_mbox by (simp add: ex_pcb_def)
  from recv_collect[OF kern_ex_inv c(1) h] obtain s' where "recv (int 0) kern_ex = Some (Some 66, s')" by (auto simp: c(3) ex_mail)
  from mail_run.mail_recv[OF mail_run.mail_refl c(1,2) this] have run: "mail_run kern_ex [] [(4, 66)] s'" by (simp add: c(3))
  have "pid_ok 4" by (simp add: pid_ok_def NPROC_def)
  with messages_in_order[OF kern_ex_inv ex_full run] obtain Q' where "mail kern_ex ex_queues 4 @ letters 4 [] = letters 4 [(4, 66)] @ mail s' Q' 4" by blast
  with run show ?thesis by (auto simp: ex_mail letters_def)
qed

lemma sendnow_full:
  fixes s :: "'a procst_scheme"
  assumes inv: "kern_inv s Q F" and pid: "pid_ok pid" and h: "\<not> live (proctab s) pid \<or> hasMessage (mbox s pid) = 1"
  shows "sendnow (int c) pid msg s = Some (SYSERR, s)"
proof -
  note M = kern_midD[OF inv[unfolded kern_inv_def]] and wf = kern_shape_wf[OF inv]
  note L = kern_shape_proc[OF M(1) pid]
  have "isbadpid pid (s\<lparr>locktab := t\<rparr>) = Some (p_state (pcb_of s pid) = PRFREE)" for t
    using isbadpid_wf[of "s\<lparr>locktab := t\<rparr>" pid] wf pid by (simp add: proctab_wf_def pid_ok_def)
  then have "locked (int c) (core_com_lock (mbox s pid)) (sendnow_section pid msg) s =
    Some (Send_error, s\<lparr>proctab := proctab s, queuetab := queuetab s\<rparr>)"
    using h L(1) pid by (intro box_section_simple[OF inv pid]) (auto simp: sendnow_section_def mbox_def live_def)
  then show ?thesis using L(1) by (simp add: sendnow_def mbox_def)
qed

text \<open>C28.
  \<^verbatim>\<open>sendnow\<close> never blocks: it refuses a process that is not live and a process that has a
  message, changing nothing, and otherwise deposits the message. It does not check the id
  before it uses it: an id outside of the process table is an access out of bounds, where
  \<^verbatim>\<open>send\<close> returns \<open>SYSERR\<close>.
\<close>

theorem sendnow_spec:
  fixes s :: "'a procst_scheme"
  assumes inv: "kern_inv s Q F" and c: "c < 4"
  shows "(pid_ok pid \<and> (\<not> live (proctab s) pid \<or> hasMessage (mbox s pid) = 1) \<longrightarrow> sendnow (int c) pid msg s = Some (SYSERR, s)) \<and>
    (live (proctab s) pid \<and> hasMessage (mbox s pid) = 0 \<longrightarrow> (\<exists>s' Q'. sendnow (int c) pid msg s = Some (OK, s') \<and> kern_inv s' Q' F \<and>
      mail s' Q' pid = msg # mail s Q pid \<and> (\<forall>x. pid_ok x \<and> x \<noteq> pid \<longrightarrow> mail s' Q' x = mail s Q x))) \<and>
    (\<not> pid_ok pid \<longrightarrow> sendnow (int c) pid msg s = None \<and> send (int c) pid msg s = Some (SYSERR, s))"
proof (intro conjI impI)
  assume "pid_ok pid \<and> (\<not> live (proctab s) pid \<or> hasMessage (mbox s pid) = 1)"
  then show "sendnow (int c) pid msg s = Some (SYSERR, s)" using sendnow_full[OF inv] by blast
next
  assume "live (proctab s) pid \<and> hasMessage (mbox s pid) = 0"
  then show "\<exists>s' Q'. sendnow (int c) pid msg s = Some (OK, s') \<and> kern_inv s' Q' F \<and>
      mail s' Q' pid = msg # mail s Q pid \<and> (\<forall>x. pid_ok x \<and> x \<noteq> pid \<longrightarrow> mail s' Q' x = mail s Q x)"
    using sendnow_ok[OF inv c] by blast
next
  assume bad: "\<not> pid_ok pid"
  have "int (length (proctab s)) = NPROC" using kern_shape_wf[OF inv] by (simp add: proctab_wf_def NPROC_def)
  then show "sendnow (int c) pid msg s = None" using bad by (auto simp: sendnow_def aget_def pid_ok_def)
  show "send (int c) pid msg s = Some (SYSERR, s)" using bad isbadpid_wf[OF kern_shape_wf[OF inv], of pid] by (auto simp: send_def pid_ok_def)
qed

theorem sendnow_spec_witness:
  "sendnow 0 4 99 kern_ex = Some (SYSERR, kern_ex) \<and> (\<exists>s'. sendnow 0 5 99 kern_ex = Some (OK, s')) \<and> sendnow 0 77 99 kern_ex = None"
proof -
  have "hasMessage (mbox kern_ex 4) = 1" "hasMessage (mbox kern_ex 5) = 0" unfolding ex_mbox by (simp_all add: ex_pcb_def)
  moreover have "live (proctab kern_ex) 5" "pid_ok 4" "\<not> pid_ok 77" by (simp_all add: ex_live pid_ok_def NPROC_def)
  moreover have "(0 :: nat) < 4" by simp
  ultimately show ?thesis
    using sendnow_spec[OF kern_ex_inv, of 0 4 99] sendnow_spec[OF kern_ex_inv, of 0 5 99] sendnow_spec[OF kern_ex_inv, of 0 77 99] by auto
qed

text \<open>C30.
  \<^verbatim>\<open>recvnow\<close> clears the message flag without looking at the blocked senders. When
  there are any, their messages still wait, but a second \<^verbatim>\<open>recvnow\<close> reports that there is no
  message, and \<^verbatim>\<open>recv\<close> puts the process to sleep.
\<close>

theorem recvnow_strands_senders:
  fixes s :: "'a procst_scheme"
  assumes inv: "kern_inv s Q F" and full: "boxes_full s Q" and c: "c < 4" and cur: "4 \<le> currpid s ! c"
    and q: "Q ! nat (currpid s ! c) \<noteq> []"
  shows "\<exists>s' s''. recvnow (int c) s = Some (hd (mail s Q (currpid s ! c)), s') \<and> mail s' Q (currpid s ! c) \<noteq> [] \<and>
    recvnow (int c) s' = Some (SYSERR, s') \<and> recv (int c) s' = Some (None, s'') \<and> p_state (pcb_of s'' (currpid s ! c)) = PRRECV"
proof -
  note C = current_facts[OF inv c]
  let ?me = "currpid s ! c"
  have h: "hasMessage (mbox s ?me) = 1" using full q C(1) by (auto simp: boxes_full_def)
  from recvnow_ok(2)[OF inv c h] obtain s' where
    r: "recvnow (int c) s = Some (msgin (mbox s ?me), s')" "kern_inv s' Q F" "hasMessage (mbox s' ?me) = 0" "currpid s' = currpid s"
      "mail s' Q ?me = tl (mail s Q ?me)" by blast
  have "recvnow (int c) s' = Some (SYSERR, s')" using recvnow_ok(1)[OF r(2) c] r(3,4) by simp
  moreover from recv_blocks[OF r(2) c] r(3,4) cur obtain s'' where "recv (int c) s' = Some (None, s'')" "p_state (pcb_of s'' ?me) = PRRECV" by auto
  moreover have "mail s Q ?me = msgin (mbox s ?me) # map (\<lambda>x. msgout (mbox s x)) (Q ! nat ?me)" using h by (simp add: mail_def)
  ultimately show ?thesis using r(1,5) q by auto
qed

theorem recvnow_strands_senders_witness:
  "\<exists>s' s''. recvnow 0 kern_ex = Some (66, s') \<and> recvnow 0 s' = Some (SYSERR, s') \<and> recv 0 s' = Some (None, s'')"
proof -
  have c: "(0 :: nat) < 4" "4 \<le> currpid kern_ex ! 0" "currpid kern_ex ! 0 = 4" by (simp_all add: ex_current)
  have "ex_queues ! nat (currpid kern_ex ! 0) \<noteq> []" by (simp add: c(3) ex_queue)
  from recvnow_strands_senders[OF kern_ex_inv ex_full c(1,2) this] show ?thesis by (auto simp: c(3) ex_mail)
qed

end
