(* ===== verification/Console.thy ===== *)
theory Console
  imports Process_Table Doprnt
begin

text \<open>
  Memory-mapped devices, and the synchronous console on the PL011 serial port:
  \<^verbatim>\<open>kputc\<close>, \<^verbatim>\<open>kgetc\<close>, \<^verbatim>\<open>kcheckc\<close>, \<^verbatim>\<open>kungetc\<close> and \<^verbatim>\<open>kprintf\<close> (\<^verbatim>\<open>system/kprintf.c\<close>).

  The hardware is an argument: reading and writing the 32-bit register at a physical address,
  and the timer registers of the coprocessor, on a state \<open>'h\<close> of its own that the kernel's
  state record carries in the field \<open>hw\<close>. A loop that polls a register may run forever, which is \<open>None\<close>.
\<close>

unbundle bit_operations_syntax

section \<open>Hardware\<close>

record 'h io_ops =
  io_read :: "u32 \<Rightarrow> 'h \<Rightarrow> u32 \<times> 'h"
  io_write :: "u32 \<Rightarrow> u32 \<Rightarrow> 'h \<Rightarrow> 'h"
  cntpct :: "'h \<Rightarrow> 64 word \<times> 'h"
  put_cntp_cval :: "64 word \<Rightarrow> 'h \<Rightarrow> 'h"
  cntp_ctl :: "'h \<Rightarrow> u32 \<times> 'h"
  put_cntp_ctl :: "u32 \<Rightarrow> 'h \<Rightarrow> 'h"

record 'h consst = procst +
  serial_lock :: u32
  ungetArray :: "u8 list"
  bufp :: u32
  hw :: 'h

section \<open>The serial port\<close>

definition UART_DR :: u32 where "UART_DR = 0x3F201000"
definition UART_FR :: u32 where "UART_FR = 0x3F201018"
definition PL011_FR_TXFF :: u32 where "PL011_FR_TXFF = push_bit 5 1"
definition PL011_FR_RXFE :: u32 where "PL011_FR_RXFE = push_bit 4 1"
definition UNGETMAX :: u32 where "UNGETMAX = 10"

text \<open>Reads the flag register until the flag is clear.\<close>

partial_function (option) uart_wait :: "'h io_ops \<Rightarrow> u32 \<Rightarrow> 'h \<Rightarrow> 'h option" where
  "uart_wait io flag h =
     (let (fr, h) = io_read io UART_FR h in if fr AND flag \<noteq> 0 then uart_wait io flag h else Some h)"

definition kputc :: "'h io_ops \<Rightarrow> u8 \<Rightarrow> 'h \<Rightarrow> (int \<times> 'h) option" where
  "kputc io c h =
     do {
       h \<leftarrow> uart_wait io PL011_FR_TXFF h;
       Some (uint c, io_write io UART_DR (ucast c) h)
     }"

definition kgetc :: "'h io_ops \<Rightarrow> ('h, 'a) consst_scheme \<Rightarrow> (u32 \<times> ('h, 'a) consst_scheme) option" where
  "kgetc io s =
     (if bufp s > 0
      then do {
        c \<leftarrow> nget (ungetArray s) (unat (bufp s - 1));
        Some (ucast c, s\<lparr>bufp := bufp s - 1\<rparr>)
      }
      else do {
        h \<leftarrow> uart_wait io PL011_FR_RXFE (hw s);
        let (dr, h) = io_read io UART_DR h;
        Some (dr, s\<lparr>hw := h\<rparr>)
      })"

definition kcheckc :: "'h io_ops \<Rightarrow> ('h, 'a) consst_scheme \<Rightarrow> bool \<times> ('h, 'a) consst_scheme" where
  "kcheckc io s =
     (if bufp s \<le> 0
      then let (fr, h) = io_read io UART_FR (hw s) in (fr AND PL011_FR_RXFE = 0, s\<lparr>hw := h\<rparr>)
      else (True, s))"

definition kungetc :: "u8 \<Rightarrow> ('h, 'a) consst_scheme \<Rightarrow> (int \<times> ('h, 'a) consst_scheme) option" where
  "kungetc c s =
     (if bufp s < UNGETMAX
      then do {
        t \<leftarrow> nset (ungetArray s) (unat (bufp s)) c;
        Some (uint c, s\<lparr>ungetArray := t, bufp := bufp s + 1\<rparr>)
      }
      else Some (SYSERR, s))"

text \<open>\<^verbatim>\<open>kputc\<close> as the output function of \<^verbatim>\<open>_doprnt\<close>; a wait that does not end is \<open>None\<close> from then on.\<close>

definition kputc_out :: "'h io_ops \<Rightarrow> u8 \<Rightarrow> 'h option \<Rightarrow> int \<times> 'h option" where
  "kputc_out io c st = (uint c, do { h \<leftarrow> st; (_, h) \<leftarrow> kputc io c h; Some h })"

definition kprintf_section :: "'h io_ops \<Rightarrow> buf \<Rightarrow> va list \<Rightarrow> ('h, 'a) consst_scheme \<Rightarrow> (u32 \<times> ('h, 'a) consst_scheme) option" where
  "kprintf_section io fmt ap s =
     do {
       (retval, st) \<leftarrow> doprnt (kputc_out io) fmt ap 0 (Some (hw s));
       h \<leftarrow> st;
       Some (retval, s\<lparr>hw := h\<rparr>)
     }"

definition kprintf :: "'h io_ops \<Rightarrow> int \<Rightarrow> buf \<Rightarrow> va list \<Rightarrow> ('h, 'a) consst_scheme \<Rightarrow> (u32 \<times> ('h, 'a) consst_scheme) option" where
  "kprintf io cpuid fmt ap s = locked cpuid (serial_lock s) (kprintf_section io fmt ap) s"

text \<open>The bytes of a string constant.\<close>

definition cstring :: "string \<Rightarrow> buf" where
  "cstring s = map of_char s @ [0]"

section \<open>What is written\<close>

text \<open>The transmitter drains: the flag for a full transmitter does not stay set forever.\<close>

definition uart_drains :: "'h io_ops \<Rightarrow> bool" where
  "uart_drains io \<longleftrightarrow> (\<forall>h. \<exists>h'. uart_wait io PL011_FR_TXFF h = Some h')"

primrec uart_text :: "'h io_ops \<Rightarrow> buf \<Rightarrow> 'h \<Rightarrow> 'h option" where
  "uart_text io [] h = Some h"
| "uart_text io (c # t) h = do { (_, h) \<leftarrow> kputc io c h; uart_text io t h }"

lemma uart_text_drains: "uart_drains io \<Longrightarrow> \<exists>h'. uart_text io t h = Some h'"
proof (induction t arbitrary: h)
  case (Cons c t)
  then obtain h1 where "uart_wait io PL011_FR_TXFF h = Some h1" by (auto simp: uart_drains_def)
  then show ?case using Cons by (simp add: kputc_def)
qed simp

lemma uint_u8_not_EOF: "uint (c :: u8) \<noteq> EOF"
  by (rule notI, drule arg_cong[of _ _ "\<lambda>x. 0 \<le> x"]) (simp add: EOF_def)

lemma emit_kputc: "emit (kputc_out io) t w st = (Some (w + of_nat (length t)), Option.bind st (uart_text io t))"
proof (induction t arbitrary: w st)
  case Nil
  then show ?case by (cases st) simp_all
next
  case (Cons c t)
  have "put1 (kputc_out io) c w st = (Some (w + 1), do { h \<leftarrow> st; (_, h) \<leftarrow> kputc io c h; Some h })"
    by (simp add: put1_def kputc_out_def uint_u8_not_EOF)
  then show ?case using Cons.IH by (cases st) (auto simp: algebra_simps split: Option.bind_split)
qed

lemma kprintf_text:
  assumes "fmt_text fmt ap = Some t" and "lock_idle (serial_lock s) s" and "uart_text io t (hw s) = Some h"
  shows "kprintf io cpuid fmt ap s = Some (of_nat (length t), s\<lparr>hw := h\<rparr>)"
proof -
  have "doprnt (kputc_out io) fmt ap 0 (Some (hw s)) = Some (of_nat (length t), Some h)"
    using doprnt_text[OF assms(1), of "kputc_out io" 0 "Some (hw s)"] assms(3) by (simp add: emit_kputc finish_def)
  then have "kprintf_section io fmt ap (s\<lparr>locktab := lt_hold cpuid (serial_lock s) (locktab s)\<rparr>) =
      Some (of_nat (length t), s\<lparr>locktab := lt_hold cpuid (serial_lock s) (locktab s), hw := h\<rparr>)"
    by (simp add: kprintf_section_def)
  from locked_runs[where body = "kprintf_section io fmt ap", OF assms(2) this] show ?thesis by (simp add: kprintf_def)
qed

end
