(* ===== verification/Interrupts.thy ===== *)
theory Interrupts
  imports Console Kernel_Example
begin

text \<open>
  The interrupt controller and the clock: \<^verbatim>\<open>enable_irq\<close>, \<^verbatim>\<open>disable_irq\<close> and \<^verbatim>\<open>dispatch\<close>
  (\<^verbatim>\<open>system/dispatch.c\<close>), \<^verbatim>\<open>clkcount\<close>, \<^verbatim>\<open>clkupdate\<close> and \<^verbatim>\<open>udelay\<close> (\<^verbatim>\<open>system/timer.c\<close>),
  \<^verbatim>\<open>CLKUPDATE\<close> and \<^verbatim>\<open>CLEAR_ISTATUS\<close> (\<^verbatim>\<open>system/timer_util.S\<close>), \<^verbatim>\<open>clkhandler\<close> and
  \<^verbatim>\<open>clkinit\<close>.

  An entry of \<^verbatim>\<open>interruptVector\<close> is the clock handler or the handler of a device driver; the
  drivers' handlers are an argument. Device registers are read and written through the
  hardware operations, at the addresses that the register structures give them.
\<close>

unbundle bit_operations_syntax

section \<open>State\<close>

datatype handler = H_clkhandler | H_driver nat

record 'h intst = "'h consst" +
  arm_enabled_irqs :: "u32 list"
  interruptVector :: "handler option list"
  clkfreq :: u32

definition IRQ_basic_pending :: u32 where "IRQ_basic_pending = 0x3F00B200"
definition IRQ_pending_1 :: u32 where "IRQ_pending_1 = 0x3F00B204"
definition IRQ_pending_2 :: u32 where "IRQ_pending_2 = 0x3F00B208"
definition Enable_IRQs_1 :: u32 where "Enable_IRQs_1 = 0x3F00B210"
definition Enable_IRQs_2 :: u32 where "Enable_IRQs_2 = 0x3F00B214"
definition Enable_Basic_IRQs :: u32 where "Enable_Basic_IRQs = 0x3F00B218"
definition Disable_IRQs_1 :: u32 where "Disable_IRQs_1 = 0x3F00B21C"
definition Disable_IRQs_2 :: u32 where "Disable_IRQs_2 = 0x3F00B220"
definition Disable_Basic_IRQs :: u32 where "Disable_Basic_IRQs = 0x3F00B224"

definition TIMER_CS :: u32 where "TIMER_CS = 0x3F003000"
definition TIMER_CLO :: u32 where "TIMER_CLO = 0x3F003004"
definition TIMER_C3 :: u32 where "TIMER_C3 = 0x3F003018"
definition BCM2835_SYSTEM_TIMER_MATCH_3 :: u32 where "BCM2835_SYSTEM_TIMER_MATCH_3 = push_bit 3 1"

definition IRQ_TIMER :: u32 where "IRQ_TIMER = 3"
definition IRQ_USB :: u32 where "IRQ_USB = 9"
definition IRQ_PCM :: u32 where "IRQ_PCM = 55"
definition IRQ_PL011 :: u32 where "IRQ_PL011 = 57"
definition IRQ_SD :: u32 where "IRQ_SD = 62"

section \<open>The timer\<close>

definition clkcount :: "'h io_ops \<Rightarrow> 'h \<Rightarrow> u32 \<times> 'h" where
  "clkcount io h = io_read io TIMER_CLO h"

text \<open>
  The registers r1 and r2 hold the low and the high half of the counter; the count is added
  to the low half, and the carry is dropped.
\<close>

definition CLKUPDATE :: "'h io_ops \<Rightarrow> u32 \<Rightarrow> 'h \<Rightarrow> 'h" where
  "CLKUPDATE io r0 h =
     (let (pct, h) = cntpct io h;
          r1 = ucast pct :: u32;
          r2 = ucast (drop_bit 32 pct) :: u32;
          r1 = r1 + r0
      in put_cntp_cval io (push_bit 32 (ucast r2) OR ucast r1) h)"

text \<open>The bit is cleared in r2, and r0 is written back as it was read.\<close>

definition CLEAR_ISTATUS :: "'h io_ops \<Rightarrow> 'h \<Rightarrow> 'h" where
  "CLEAR_ISTATUS io h = (let (r0, h) = cntp_ctl io h in put_cntp_ctl io r0 h)"

definition clkupdate :: "'h io_ops \<Rightarrow> int \<Rightarrow> u32 \<Rightarrow> 'h \<Rightarrow> 'h" where
  "clkupdate io cpuid cycles h =
     (if 0 = cpuid
      then let h = io_write io TIMER_CS BCM2835_SYSTEM_TIMER_MATCH_3 h;
               (clo, h) = io_read io TIMER_CLO h
           in io_write io TIMER_C3 (clo + cycles) h
      else CLKUPDATE io cycles h)"

partial_function (option) udelay_ahead :: "'h io_ops \<Rightarrow> u32 \<Rightarrow> u32 \<Rightarrow> 'h \<Rightarrow> 'h option" where
  "udelay_ahead io start target h =
     (let (count, h) = clkcount io h in
      if count < target \<and> count \<ge> start then udelay_ahead io start target h else Some h)"

partial_function (option) udelay_wrap :: "'h io_ops \<Rightarrow> u32 \<Rightarrow> 'h \<Rightarrow> 'h option" where
  "udelay_wrap io start h =
     (let (count, h) = clkcount io h in if count > start then udelay_wrap io start h else Some h)"

partial_function (option) udelay_below :: "'h io_ops \<Rightarrow> u32 \<Rightarrow> 'h \<Rightarrow> 'h option" where
  "udelay_below io target h =
     (let (count, h) = clkcount io h in if count < target then udelay_below io target h else Some h)"

definition udelay :: "'h io_ops \<Rightarrow> u32 \<Rightarrow> u32 \<Rightarrow> 'h \<Rightarrow> 'h option" where
  "udelay io freq us h =
     (let delay = freq div 1000 * us;
          (start, h) = clkcount io h;
          target = start + delay
      in if target \<ge> start then udelay_ahead io start target h
         else do { h \<leftarrow> udelay_wrap io start h; udelay_below io target h })"

section \<open>The clock interrupt\<close>

definition clk_tick :: "int \<Rightarrow> 'a procst_scheme \<Rightarrow> 'a procst_scheme option" where
  "clk_tick cpuid s =
     do {
       n \<leftarrow> aget (clkticks s) cpuid;
       t \<leftarrow> aset (clkticks s) cpuid (n + 1);
       let s = s\<lparr>clkticks := t\<rparr>;
       n \<leftarrow> aget (clkticks s) cpuid;
       if CLKTICKS_PER_SEC = n
       then do {
         u \<leftarrow> aget (clktime s) cpuid;
         t \<leftarrow> aset (clktime s) cpuid (u + 1);
         let s = s\<lparr>clktime := t\<rparr>;
         t \<leftarrow> aset (clkticks s) cpuid 0;
         Some (s\<lparr>clkticks := t\<rparr>)
       }
       else Some s
     }"

definition clk_preempt :: "int \<Rightarrow> 'a procst_scheme \<Rightarrow> 'a procst_scheme option" where
  "clk_preempt cpuid s =
     do {
       n \<leftarrow> aget (preempt s) cpuid;
       t \<leftarrow> aset (preempt s) cpuid (n - 1);
       let s = s\<lparr>preempt := t\<rparr>;
       if n - 1 \<le> 0 then resched cpuid s else Some s
     }"

definition clkhandler :: "'h io_ops \<Rightarrow> int \<Rightarrow> ('h, 'a) intst_scheme \<Rightarrow> ('h, 'a) intst_scheme option" where
  "clkhandler io cpuid s =
     do {
       let s = s\<lparr>hw := clkupdate io cpuid (clkfreq s div CLKTICKS_PER_SEC) (hw s)\<rparr>;
       s \<leftarrow> clk_tick cpuid s;
       clk_preempt cpuid s
     }"

section \<open>Interrupt lines\<close>

text \<open>The register, the index in the table and the bit of a line.\<close>

definition irq_slot :: "u32 \<Rightarrow> u32 \<Rightarrow> u32 \<Rightarrow> u32 \<Rightarrow> u32 \<times> int \<times> u32" where
  "irq_slot r1 r2 r3 irq_num =
     (if irq_num < 32 then (r1, 0, irq_num)
      else if irq_num < 64 then (r2, 1, irq_num - 32)
      else (r3, 2, irq_num - 64))"

definition enable_irq :: "'h io_ops \<Rightarrow> u32 \<Rightarrow> ('h, 'a) intst_scheme \<Rightarrow> ('h, 'a) intst_scheme option" where
  "enable_irq io irq_num s =
     (let (reg, i, b) = irq_slot Enable_IRQs_1 Enable_IRQs_2 Enable_Basic_IRQs irq_num
      in do {
        let s = s\<lparr>hw := io_write io reg (push_bit (unat b) 1) (hw s)\<rparr>;
        m \<leftarrow> aget (arm_enabled_irqs s) i;
        t \<leftarrow> aset (arm_enabled_irqs s) i (m OR push_bit (unat b) 1);
        Some (s\<lparr>arm_enabled_irqs := t\<rparr>)
      })"

definition disable_irq :: "'h io_ops \<Rightarrow> u32 \<Rightarrow> ('h, 'a) intst_scheme \<Rightarrow> ('h, 'a) intst_scheme option" where
  "disable_irq io irq_num s =
     (let (reg, i, b) = irq_slot Disable_IRQs_1 Disable_IRQs_2 Disable_Basic_IRQs irq_num
      in do {
        let s = s\<lparr>hw := io_write io reg (push_bit (unat b) 1) (hw s)\<rparr>;
        m \<leftarrow> aget (arm_enabled_irqs s) i;
        t \<leftarrow> aset (arm_enabled_irqs s) i (m AND NOT (push_bit (unat b) 1));
        Some (s\<lparr>arm_enabled_irqs := t\<rparr>)
      })"

section \<open>Dispatching\<close>

type_synonym ('h, 'a) driver = "nat \<Rightarrow> int \<Rightarrow> ('h, 'a) intst_scheme \<Rightarrow> ('h, 'a) intst_scheme option"

definition no_handler_msg :: buf where
  "no_handler_msg = cstring (''ERROR: No handler registered for interrupt %u'' @ [CHR 0x0D, CHR 0x0A])"

text \<open>\<^verbatim>\<open>halt\<close> does not return.\<close>

definition handle_irq :: "'h io_ops \<Rightarrow> ('h, 'a) driver \<Rightarrow> int \<Rightarrow> u8 \<Rightarrow> ('h, 'a) intst_scheme \<Rightarrow> ('h, 'a) intst_scheme option" where
  "handle_irq io drv cpuid irq_num s =
     do {
       h \<leftarrow> nget (interruptVector s) (unat irq_num);
       case h of
         Some H_clkhandler \<Rightarrow> clkhandler io cpuid s
       | Some (H_driver n) \<Rightarrow> drv n cpuid s
       | None \<Rightarrow> do { _ \<leftarrow> kprintf io cpuid no_handler_msg [Va_word (ucast irq_num)] s; None }
     }"

definition pending_reg :: "u8 \<Rightarrow> u32 \<times> nat" where
  "pending_reg irq_num =
     (if irq_num \<ge> 64 then (IRQ_basic_pending, unat (irq_num - 64))
      else if irq_num \<ge> 32 then (IRQ_pending_2, unat (irq_num - 32))
      else (IRQ_pending_1, unat irq_num))"

definition check_irq_pending :: "'h io_ops \<Rightarrow> ('h, 'a) driver \<Rightarrow> int \<Rightarrow> u8 \<Rightarrow> ('h, 'a) intst_scheme \<Rightarrow> ('h, 'a) intst_scheme option" where
  "check_irq_pending io drv cpuid irq_num s =
     (let (reg, b) = pending_reg irq_num;
          (w, h) = io_read io reg (hw s);
          s = s\<lparr>hw := h\<rparr>
      in if w AND push_bit b 1 \<noteq> 0 then handle_irq io drv cpuid irq_num s else Some s)"

definition builtin_clz :: "u32 \<Rightarrow> nat" where
  "builtin_clz w = length (takeWhile (\<lambda>i. \<not> bit w i) (rev [0..<32]))"

definition first_set_bit :: "u32 \<Rightarrow> nat" where
  "first_set_bit w = 31 - builtin_clz w"

lemma first_set_bit_props:
  assumes "w \<noteq> 0"
  shows "bit w (first_set_bit w)" "first_set_bit w < 32" "\<And>i. bit w i \<Longrightarrow> i \<le> first_set_bit w"
proof -
  let ?xs = "rev [0..<32]" and ?n = "builtin_clz w"
  obtain i where i: "bit w i" using assms by (auto simp: bit_eq_iff)
  then have "i < 32" by (rule bit_imp_le_length[where 'a = 32, simplified])
  then have "\<exists>x \<in> set ?xs. bit w x" using i by auto
  then have n: "?n < length ?xs" unfolding builtin_clz_def
    by (metis (no_types, lifting) le_neq_implies_less length_takeWhile_le take_all_iff takeWhile_eq_all_conv takeWhile_eq_take order_refl)
  then have "bit w (?xs ! ?n)" unfolding builtin_clz_def using nth_length_takeWhile[of "\<lambda>i. \<not> bit w i" ?xs] by simp
  moreover have nth: "?xs ! k = 31 - k" if "k < 32" for k using that by (simp add: rev_nth)
  ultimately show "bit w (first_set_bit w)" using n by (simp add: first_set_bit_def)
  show "first_set_bit w < 32" by (simp add: first_set_bit_def)
  show "i \<le> first_set_bit w" if "bit w i" for i
  proof (rule ccontr)
    assume "\<not> i \<le> first_set_bit w"
    moreover have "i < 32" using that by (rule bit_imp_le_length[where 'a = 32, simplified])
    ultimately have k: "31 - i < ?n" by (simp add: first_set_bit_def)
    then have "\<not> bit w (takeWhile (\<lambda>i. \<not> bit w i) ?xs ! (31 - i))" 
      unfolding builtin_clz_def by (auto dest!: nth_mem set_takeWhileD)
    moreover have "takeWhile (\<lambda>i. \<not> bit w i) ?xs ! (31 - i) = ?xs ! (31 - i)" using k unfolding builtin_clz_def by (rule takeWhile_nth)
    ultimately show False using that nth[of "31 - i"] \<open>i < 32\<close> by simp
  qed
qed

text \<open>The bit that was found is cleared, so the mask gets smaller.\<close>

lemma clear_bit_less:
  assumes "bit (w :: u32) b"
  shows "unat (w XOR push_bit b 1) < unat w"
proof -
  have "w XOR push_bit b 1 = w AND NOT (push_bit b 1)" using assms by (intro bit_eqI) (auto simp: bit_simps)
  moreover have "w AND NOT (push_bit b 1) \<noteq> w"
  proof
    assume "w AND NOT (push_bit b 1) = w"
    then have "bit (w AND NOT (push_bit b 1)) b" using assms by simp
    then show False using assms by (simp add: bit_simps)
  qed
  ultimately show ?thesis using word_and_le2[of w "NOT (push_bit b 1)"] by (simp add: word_le_nat_alt order_less_le word_unat_eq_iff)
qed

function irq_loop :: "'h io_ops \<Rightarrow> ('h, 'a) driver \<Rightarrow> int \<Rightarrow> nat \<Rightarrow> u32 \<Rightarrow> ('h, 'a) intst_scheme \<Rightarrow> ('h, 'a) intst_scheme option" where
  "irq_loop io drv cpuid i msk s =
     (if msk \<noteq> 0
      then do {
        let b = first_set_bit msk;
        let msk = msk XOR push_bit b 1;
        s \<leftarrow> check_irq_pending io drv cpuid (of_nat (b + 32 * i)) s;
        irq_loop io drv cpuid i msk s
      }
      else Some s)"
  by pat_completeness auto
termination
  by (relation "measure (\<lambda>(io, drv, cpuid, i, msk, s). unat msk)")
    (auto intro: clear_bit_less[simplified] first_set_bit_props)

declare irq_loop.simps [simp del]

fun dispatch_loop :: "'h io_ops \<Rightarrow> ('h, 'a) driver \<Rightarrow> int \<Rightarrow> nat list \<Rightarrow> ('h, 'a) intst_scheme \<Rightarrow> ('h, 'a) intst_scheme option" where
  "dispatch_loop io drv cpuid [] s = Some s"
| "dispatch_loop io drv cpuid (i # is) s =
     do {
       msk \<leftarrow> nget (arm_enabled_irqs s) i;
       s \<leftarrow> irq_loop io drv cpuid i msk s;
       dispatch_loop io drv cpuid is s
     }"

definition dispatch :: "'h io_ops \<Rightarrow> ('h, 'a) driver \<Rightarrow> int \<Rightarrow> ('h, 'a) intst_scheme \<Rightarrow> ('h, 'a) intst_scheme option" where
  "dispatch io drv cpuid s =
     (let reg = 0x40000060 + 4 * u32_of cpuid;
          (status, h) = (if 0 \<noteq> cpuid then io_read io reg (hw s) else (0, hw s))
      in if status AND 3 \<noteq> 0
         then let h = CLEAR_ISTATUS io h; h = io_write io reg (status AND NOT 3) h
              in clkhandler io cpuid (s\<lparr>hw := h\<rparr>)
         else dispatch_loop io drv cpuid [0, 1, 2] (s\<lparr>hw := h\<rparr>))"

section \<open>Starting the clock\<close>

definition clkinit_msg :: buf where
  "clkinit_msg = cstring (''Time base %dHz, Clock ticks at %dHz'' @ [CHR 0x0D, CHR 0x0A])"

definition clkinit :: "'h io_ops \<Rightarrow> int \<Rightarrow> ('h, 'a) intst_scheme \<Rightarrow> ('h, 'a) intst_scheme option" where
  "clkinit io cpuid s =
     do {
       let s = s\<lparr>preempt := replicate (nat NCORES) QUANTUM\<rparr>;
       let s = s\<lparr>promote_medium := replicate (nat NCORES) QUANTUM, promote_low := replicate (nat NCORES) QUANTUM\<rparr>;
       let s = s\<lparr>clkticks := replicate (nat NCORES) 0, clktime := replicate (nat NCORES) 0\<rparr>;
       (_, s) \<leftarrow> kprintf io cpuid clkinit_msg [Va_word (clkfreq s), Va_word CLKTICKS_PER_SEC] s;
       t \<leftarrow> nset (interruptVector s) (unat IRQ_TIMER) (Some H_clkhandler);
       let s = s\<lparr>interruptVector := t\<rparr>;
       s \<leftarrow> enable_irq io IRQ_TIMER s;
       Some (s\<lparr>hw := clkupdate io cpuid (clkfreq s div CLKTICKS_PER_SEC) (hw s)\<rparr>)
     }"

section \<open>Which lines are handled\<close>

primrec steps :: "('x \<Rightarrow> 's \<Rightarrow> 's option) \<Rightarrow> 'x list \<Rightarrow> 's \<Rightarrow> 's option" where
  "steps f [] s = Some s"
| "steps f (x # xs) s = do { s \<leftarrow> f x s; steps f xs s }"

lemma steps_append: "steps f (xs @ ys) s = do { s \<leftarrow> steps f xs s; steps f ys s }"
  by (induction xs arbitrary: s) (auto split: Option.bind_split)

definition bits_desc :: "u32 \<Rightarrow> nat list" where
  "bits_desc w = filter (bit w) (rev [0..<32])"

lemma bits_desc_step:
  assumes "w \<noteq> 0"
  shows "bits_desc w = first_set_bit w # bits_desc (w XOR push_bit (first_set_bit w) 1)"
proof -
  let ?k = "first_set_bit w" let ?v = "w XOR push_bit ?k 1"
  note k = first_set_bit_props[OF assms]
  have "[0..<32] = [0..<?k] @ ?k # [Suc ?k..<32]" using k(2) upt_add_eq_append[of 0 ?k "32 - ?k"] by (simp add: upt_conv_Cons)
  then have r: "rev [0..<32] = rev [Suc ?k..<32] @ ?k # rev [0..<?k]" by simp
  have v: "bit ?v i \<longleftrightarrow> bit w i \<and> i \<noteq> ?k" for i using k(1,2) by (auto simp: bit_simps)
  have "filter (bit w) (rev [Suc ?k..<32]) = []" "filter (bit ?v) (rev [Suc ?k..<32]) = []"
    using k(3) v by (fastforce simp: filter_empty_conv)+
  moreover have "filter (bit ?v) (rev [0..<?k]) = filter (bit w) (rev [0..<?k])" using v by (intro filter_cong) auto
  ultimately show ?thesis unfolding bits_desc_def r using k(1) v[of ?k] by simp
qed

lemma irq_loop_steps:
  "irq_loop io drv cpuid i w s = steps (\<lambda>b. check_irq_pending io drv cpuid (of_nat (b + 32 * i))) (bits_desc w) s"
proof (induction io drv cpuid i w s rule: irq_loop.induct)
  case (1 io drv cpuid i w s)
  show ?case
  proof (cases "w = 0")
    case True
    then show ?thesis by (subst irq_loop.simps) (simp add: bits_desc_def)
  next
    case False
    then show ?thesis using "1.IH"[OF False refl refl]
      by (subst irq_loop.simps) (auto simp: Let_def bits_desc_step[OF False] simp del: push_bit_of_1 intro!: Option.bind_cong)
  qed
qed

text \<open>The enabled lines, in the order in which they are checked.\<close>

definition irq_lines :: "u32 list \<Rightarrow> nat list" where
  "irq_lines t = concat (map (\<lambda>i. map (\<lambda>b. b + 32 * i) (bits_desc (t ! i))) [0..<3])"

lemma steps_map: "steps f (map g xs) s = steps (\<lambda>x. f (g x)) xs s"
  by (induction xs arbitrary: s) (auto split: Option.bind_split)

lemma steps_inv:
  assumes "\<And>x s s'. f x s = Some s' \<Longrightarrow> P s' = P s"
  shows "steps f xs s = Some s' \<Longrightarrow> P s' = P s"
  by (induction xs arbitrary: s) (auto split: Option.bind_splits dest: assms)

lemma dispatch_loop_steps:
  assumes keep: "\<And>irq s s'. check_irq_pending io drv cpuid irq s = Some s' \<Longrightarrow> arm_enabled_irqs s' = arm_enabled_irqs s"
    and len: "length (arm_enabled_irqs s) = 3"
  shows "dispatch_loop io drv cpuid [0, 1, 2] s = steps (\<lambda>irq. check_irq_pending io drv cpuid (of_nat irq)) (irq_lines (arm_enabled_irqs s)) s"
proof -
  let ?c = "\<lambda>irq. check_irq_pending io drv cpuid (of_nat irq)"
  have loop: "irq_loop io drv cpuid i w u = steps ?c (map (\<lambda>b. b + 32 * i) (bits_desc w)) u" for i w u
    by (simp add: irq_loop_steps steps_map)
  have inv: "steps ?c xs u = Some u' \<Longrightarrow> arm_enabled_irqs u' = arm_enabled_irqs u" for xs u u'
    by (rule steps_inv[where P = arm_enabled_irqs, OF keep])
  have l: "irq_lines t = map (\<lambda>b. b + 32 * 0) (bits_desc (t ! 0)) @ map (\<lambda>b. b + 32 * 1) (bits_desc (t ! 1)) @ map (\<lambda>b. b + 32 * 2) (bits_desc (t ! 2))" for t
    by (simp add: irq_lines_def numeral_3_eq_3 numeral_2_eq_2)
  show ?thesis
    unfolding l steps_append dispatch_loop.simps loop using len
    by (auto simp: nget_def inv intro!: Option.bind_cong simp del: add_0_right mult_0_right dest!: inv split: Option.bind_split)
qed

lemma bits_desc_set: "set (bits_desc w) = {b. bit w b}"
  using bit_imp_le_length[where 'a = 32] by (auto simp: bits_desc_def)

lemma irq_lines_set: "irq \<in> set (irq_lines t) \<longleftrightarrow> irq < 96 \<and> bit (t ! (irq div 32)) (irq mod 32)"
proof
  assume "irq \<in> set (irq_lines t)"
  then obtain i b where i: "i < 3" "irq = b + 32 * i" "bit (t ! i) b" by (auto simp: irq_lines_def bits_desc_set)
  then have "b < 32" using bit_imp_le_length[of "t ! i" b] by simp
  with i show "irq < 96 \<and> bit (t ! (irq div 32)) (irq mod 32)" by simp
next
  assume "irq < 96 \<and> bit (t ! (irq div 32)) (irq mod 32)"
  then have "irq div 32 < 3 \<and> irq mod 32 \<in> set (bits_desc (t ! (irq div 32))) \<and> irq = irq mod 32 + 32 * (irq div 32)"
    by (auto simp: bits_desc_set)
  then obtain i b where "i < 3" "b \<in> set (bits_desc (t ! i))" "irq = b + 32 * i" by blast
  then show "irq \<in> set (irq_lines t)" by (auto simp: irq_lines_def)
qed

lemma bits_desc_distinct: "distinct (map (\<lambda>b. b + 32 * i) (bits_desc w))"
  by (simp add: bits_desc_def distinct_map inj_on_def)

lemma irq_lines_distinct: "distinct (irq_lines t)"
proof -
  have "\<not> (a + 32 * i = b + 32 * j)" if "bit (t ! i) a" "bit (t ! j) b" "i \<noteq> j" for a b i j
    using that bit_imp_le_length[of "t ! i" a] bit_imp_le_length[of "t ! j" b] by auto
  then have d: "set (map (\<lambda>b. b + 32 * i) (bits_desc (t ! i))) \<inter> set (map (\<lambda>b. b + 32 * j) (bits_desc (t ! j))) = {}" if "i \<noteq> j" for i j
    using that by (auto simp: bits_desc_set)
  show ?thesis using d[of 0 1] d[of 0 2] d[of 1 2] bits_desc_distinct[of 0 "t ! 0"] bits_desc_distinct[of 1 "t ! 1"] bits_desc_distinct[of 2 "t ! 2"]
    by (simp add: irq_lines_def numeral_3_eq_3 numeral_2_eq_2 Int_Un_distrib del: set_map)
qed

lemma and_bit: "w AND push_bit b 1 \<noteq> (0 :: u32) \<longleftrightarrow> bit w b"
proof -
  have "bit (w AND push_bit b 1) i \<longleftrightarrow> i = b \<and> bit w b" for i
    using bit_imp_le_length[of w b] by (auto simp: bit_simps)
  then show ?thesis by (metis bit_0_eq bot_apply bot_bool_def bit_eqI)
qed

definition pending_of :: "nat \<Rightarrow> u32" where
  "pending_of i = (if i = 0 then IRQ_pending_1 else if i = 1 then IRQ_pending_2 else IRQ_basic_pending)"

lemma pending_reg_of: "irq < 96 \<Longrightarrow> pending_reg (of_nat irq) = (pending_of (irq div 32), irq mod 32)"
proof -
  assume i: "irq < 96"
  then have u: "unat (of_nat irq :: u8) = irq" by (simp add: unat_of_nat)
  consider "irq < 32" | "32 \<le> irq" "irq < 64" | "64 \<le> irq" by linarith
  then show ?thesis
  proof cases
    case 1
    then show ?thesis using u by (simp add: pending_reg_def pending_of_def word_le_nat_alt)
  next
    case 2
    then have "irq div 32 = 1" "irq mod 32 = irq - 32" by (auto simp: mod_if)
    then show ?thesis using u 2 by (simp add: pending_reg_def pending_of_def word_le_nat_alt unat_sub)
  next
    case 3
    then have "irq div 32 = 2" "irq mod 32 = irq - 64" using i by (auto simp: mod_if)
    then show ?thesis using u 3 by (simp add: pending_reg_def pending_of_def word_le_nat_alt unat_sub)
  qed
qed

text \<open>The table entry and the bit of a line.\<close>

lemma irq_slot_of:
  "irq < 96 \<Longrightarrow> irq_slot r1 r2 r3 (of_nat irq) = ([r1, r2, r3] ! (irq div 32), int (irq div 32), of_nat (irq mod 32))"
proof -
  assume i: "irq < 96"
  then have u: "unat (of_nat irq :: u32) = irq" by (simp add: unat_of_nat)
  consider "irq < 32" | "32 \<le> irq" "irq < 64" | "64 \<le> irq" by linarith
  then show ?thesis
  proof cases
    case 1
    then show ?thesis using u by (simp add: irq_slot_def word_less_nat_alt)
  next
    case 2
    then have "irq div 32 = 1" "irq mod 32 = irq - 32" by (auto simp: mod_if)
    then show ?thesis using u 2 by (simp add: irq_slot_def word_less_nat_alt of_nat_diff)
  next
    case 3
    then have "irq div 32 = 2" "irq mod 32 = irq - 64" using i by (auto simp: mod_if)
    then show ?thesis using u 3 by (simp add: irq_slot_def word_less_nat_alt of_nat_diff)
  qed
qed

lemma irq_lines_update:
  assumes "length t = 3" and irq: "irq < 96" and w: "\<And>k. bit w k \<longleftrightarrow> (if k = irq mod 32 then v else bit (t ! (irq div 32)) k)"
  shows "x \<in> set (irq_lines (t[irq div 32 := w])) \<longleftrightarrow> (if x = irq then v else x \<in> set (irq_lines t))"
proof -
  have i: "irq div 32 < length t" using assms(1) irq by simp
  consider "x = irq" | "x \<noteq> irq" "x div 32 = irq div 32" "x mod 32 \<noteq> irq mod 32" | "x div 32 \<noteq> irq div 32"
    by (metis div_mult_mod_eq)
  then show ?thesis
  proof cases
    case 1
    then show ?thesis using i irq w[of "irq mod 32"] by (simp add: irq_lines_set)
  next
    case 2
    then show ?thesis using i w[of "x mod 32"] by (simp add: irq_lines_set)
  next
    case 3
    then show ?thesis by (auto simp: irq_lines_set)
  qed
qed

lemma enable_irq_lines:
  assumes "length (arm_enabled_irqs s) = 3" and irq: "irq < 96"
  shows "\<exists>s'. enable_irq io (of_nat irq) s = Some s' \<and> set (irq_lines (arm_enabled_irqs s')) = insert irq (set (irq_lines (arm_enabled_irqs s))) \<and>
    length (arm_enabled_irqs s') = 3"
proof -
  let ?t = "arm_enabled_irqs s" and ?i = "irq div 32"
  have i: "?i < 3" using irq by simp
  have in': "inb ?t (int ?i)" using assms(1) i by (simp add: inb_def)
  have b: "unat (of_nat (irq mod 32) :: u32) = irq mod 32" by (simp add: unat_of_nat)
  obtain s' where s': "enable_irq io (of_nat irq) s = Some s'" "arm_enabled_irqs s' = ?t[?i := ?t ! ?i OR push_bit (irq mod 32) 1]"
    using in' by (simp add: enable_irq_def irq_slot_of[OF irq] b Let_def del: push_bit_of_1 of_nat_mod)
  have "bit (?t ! ?i OR push_bit (irq mod 32) 1) k \<longleftrightarrow> (if k = irq mod 32 then True else bit (?t ! ?i) k)" for k
    by (auto simp: bit_simps)
  from irq_lines_update[OF assms this] have "set (irq_lines (arm_enabled_irqs s')) = insert irq (set (irq_lines ?t))"
    unfolding s'(2) set_eq_iff by (simp only: if_split insert_iff) blast
  with s' assms(1) show ?thesis by auto
qed

lemma disable_irq_lines:
  assumes "length (arm_enabled_irqs s) = 3" and irq: "irq < 96"
  shows "\<exists>s'. disable_irq io (of_nat irq) s = Some s' \<and> set (irq_lines (arm_enabled_irqs s')) = set (irq_lines (arm_enabled_irqs s)) - {irq} \<and>
    length (arm_enabled_irqs s') = 3"
proof -
  let ?t = "arm_enabled_irqs s" and ?i = "irq div 32"
  have i: "?i < 3" using irq by simp
  have in': "inb ?t (int ?i)" using assms(1) i by (simp add: inb_def)
  have b: "unat (of_nat (irq mod 32) :: u32) = irq mod 32" by (simp add: unat_of_nat)
  obtain s' where s': "disable_irq io (of_nat irq) s = Some s'" "arm_enabled_irqs s' = ?t[?i := ?t ! ?i AND NOT (push_bit (irq mod 32) 1)]"
    using in' by (simp add: disable_irq_def irq_slot_of[OF irq] b Let_def del: push_bit_of_1 of_nat_mod)
  have "bit (?t ! ?i AND NOT (push_bit (irq mod 32) 1)) k \<longleftrightarrow> (if k = irq mod 32 then False else bit (?t ! ?i) k)" for k
    using bit_imp_le_length[of "?t ! ?i" k] by (auto simp: bit_simps)
  from irq_lines_update[OF assms this] have "set (irq_lines (arm_enabled_irqs s')) = set (irq_lines ?t) - {irq}"
    unfolding s'(2) set_eq_iff by (simp only: if_split Diff_iff singleton_iff) blast
  with s' assms(1) show ?thesis by auto
qed

section \<open>What the scheduler leaves alone\<close>

lemma locked_more:
  assumes "locked c l b s = Some (r, s')" and "\<And>t r t'. b t = Some (r, t') \<Longrightarrow> procst.more t' = procst.more t"
  shows "procst.more s' = procst.more s"
proof -
  obtain r1 s1 s2 r3 where *: "lock_acquire c l s = Some (r1, s1)" "b s1 = Some (r, s2)" "lock_release l s2 = Some (r3, s')"
    using assms(1) by (auto simp: locked_def split: Option.bind_splits)
  have "procst.more s1 = procst.more s" using *(1) by (auto simp: lock_acquire_def split: Option.bind_splits if_splits)
  moreover have "procst.more s' = procst.more s2" using *(3) by (auto simp: lock_release_def split: Option.bind_splits if_splits)
  ultimately show ?thesis using assms(2)[OF *(2)] by simp
qed

lemma set_q_more: "set_qnext i v s = Some s' \<Longrightarrow> procst.more s' = procst.more s" "set_qprev i v s = Some s' \<Longrightarrow> procst.more s' = procst.more s"
  by (auto simp: set_qnext_def set_qprev_def split: Option.bind_splits)

lemma link_more: "link_tail p t s = Some s' \<Longrightarrow> procst.more s' = procst.more s" "unlink p s = Some s' \<Longrightarrow> procst.more s' = procst.more s"
  by (auto simp: link_tail_def unlink_def Let_def split: Option.bind_splits dest!: set_q_more)

lemma enqueue_more: "enqueue c p q s = Some (r, s') \<Longrightarrow> procst.more s' = procst.more s"
  by (auto simp: enqueue_def Let_def split: Option.bind_splits if_splits elim!: locked_more dest: link_more)

lemma dequeue_more: "dequeue c q s = Some (r, s') \<Longrightarrow> procst.more s' = procst.more s"
  by (auto simp: dequeue_def Let_def split: Option.bind_splits if_splits elim!: locked_more dest!: link_more set_q_more)

lemma upd_pcb_more: "upd_pcb p f s = Some s' \<Longrightarrow> procst.more s' = procst.more s"
  by (auto simp: upd_pcb_def split: Option.bind_splits)

lemma promote_more: "promote c a b s = Some s' \<Longrightarrow> procst.more s' = procst.more s"
  by (auto simp: promote_def split: Option.bind_splits if_splits prod.splits dest!: enqueue_more dequeue_more)

lemma age_more: "age c s = Some s' \<Longrightarrow> procst.more s' = procst.more s"
  by (auto simp: age_def age_low_def Let_def split: Option.bind_splits if_splits prod.splits dest!: promote_more)

lemma requeue_more: "requeue_current c old s = Some s' \<Longrightarrow> procst.more s' = procst.more s"
  by (auto simp: requeue_current_def split: Option.bind_splits if_splits prod.splits dest!: enqueue_more upd_pcb_more)

lemma ctxsw_more: "ctxsw c old new s = Some s' \<Longrightarrow> procst.more s' = procst.more s"
  by (auto simp: ctxsw_def split: Option.bind_splits dest!: upd_pcb_more)

lemma pick_more: "pick_next c old s = Some s' \<Longrightarrow> procst.more s' = procst.more s"
  by (auto simp: pick_next_def Let_def split: Option.bind_splits prod.splits dest!: dequeue_more upd_pcb_more ctxsw_more)

lemma resched_more: "resched c s = Some s' \<Longrightarrow> procst.more s' = procst.more s"
  by (auto simp: resched_def split: Option.bind_splits dest!: age_more requeue_more pick_more)

lemma lines_more:
  fixes s s' :: "('h, 'a) intst_scheme"
  shows "procst.more s' = procst.more s \<Longrightarrow> arm_enabled_irqs s' = arm_enabled_irqs s"
  by (cases s; cases s') simp

lemma clkhandler_lines:
  assumes "clkhandler io c s = Some s'"
  shows "arm_enabled_irqs s' = arm_enabled_irqs s"
proof -
  obtain s1 where t: "clk_tick c (s\<lparr>hw := clkupdate io c (clkfreq s div CLKTICKS_PER_SEC) (hw s)\<rparr>) = Some s1" and p: "clk_preempt c s1 = Some s'"
    using assms by (auto simp: clkhandler_def split: Option.bind_splits)
  have "arm_enabled_irqs s1 = arm_enabled_irqs s" using t by (auto simp: clk_tick_def Let_def split: Option.bind_splits if_splits)
  moreover have "arm_enabled_irqs s' = arm_enabled_irqs s1"
    using p by (auto simp: clk_preempt_def Let_def split: Option.bind_splits if_splits dest!: resched_more lines_more)
  ultimately show ?thesis by simp
qed

lemma check_irq_lines:
  assumes "\<And>n s s'. drv n c s = Some s' \<Longrightarrow> arm_enabled_irqs s' = arm_enabled_irqs s" and "check_irq_pending io drv c irq s = Some s'"
  shows "arm_enabled_irqs s' = arm_enabled_irqs s"
proof -
  have h: "arm_enabled_irqs s' = arm_enabled_irqs s" if "handle_irq io drv c irq s = Some s'" for s
    using that by (auto simp: handle_irq_def split: Option.bind_splits option.splits handler.splits dest: clkhandler_lines assms(1))
  show ?thesis using assms(2) by (auto simp: check_irq_pending_def Let_def split: prod.splits if_splits dest!: h)
qed

section \<open>Properties\<close>


text \<open>A board on which nothing is pending, and a state of it with the timer's line enabled.\<close>

definition quiet_io :: "nat io_ops" where
  "quiet_io = \<lparr>io_read = (\<lambda>a h. (0, h)), io_write = (\<lambda>a v h. h), cntpct = (\<lambda>h. (0, h)),
     put_cntp_cval = (\<lambda>v h. h), cntp_ctl = (\<lambda>h. (0, h)), put_cntp_ctl = (\<lambda>v h. h)\<rparr>"

definition quiet_state :: "procst \<Rightarrow> nat intst" where
  "quiet_state k = \<lparr>locktab = locktab k, nextlock = nextlock k, mem = mem k, freelist = freelist k, memheap = memheap k, maxaddr = maxaddr k, proctab = proctab k, queuetab = queuetab k, nextqueue = nextqueue k,
     readylist = readylist k, currpid = currpid k, numproc = numproc k, nextpid = nextpid k, preempt = preempt k, promote_medium = promote_medium k, promote_low = promote_low k, clkticks = clkticks k, clktime = clktime k, cpu = cpu k,
     serial_lock = 0, ungetArray = replicate 10 0, bufp = 0, hw = 0, arm_enabled_irqs = [8, 0, 0],
     interruptVector = (replicate 72 None)[3 := Some H_clkhandler], clkfreq = 1000000\<rparr>"


section \<open>The delay loop\<close>

text \<open>A counter that counts the reads, standing for the free-running timer.\<close>

definition counting_io :: "u32 io_ops" where
  "counting_io = \<lparr>io_read = (\<lambda>a h. (h, h + 1)), io_write = (\<lambda>a v h. h), cntpct = (\<lambda>h. (ucast h, h + 1)),
     put_cntp_cval = (\<lambda>v h. h), cntp_ctl = (\<lambda>h. (0, h)), put_cntp_ctl = (\<lambda>v h. h)\<rparr>"

lemma udelay_ahead_counts:
  "unat h \<le> unat target \<Longrightarrow> start \<le> h \<Longrightarrow> unat target < 2 ^ 32 - 1 \<Longrightarrow> udelay_ahead counting_io start target h = Some (target + 1)"
proof (induction "unat target - unat h" arbitrary: h)
  case 0
  then have "h = target" by (simp add: word_unat_eq_iff)
  then show ?case by (subst udelay_ahead.simps) (simp add: clkcount_def counting_io_def)
next
  case (Suc n)
  then have lt: "h < target" by (simp add: word_less_nat_alt)
  have h1: "unat (h + 1) = unat h + 1" using lt unsigned_less[of target, where 'a = nat] by (simp add: word_less_nat_alt unat_word_ariths)
  have "udelay_ahead counting_io start target (h + 1) = Some (target + 1)"
    using Suc.hyps(2) Suc.prems lt h1 by (intro Suc.hyps(1)) (auto simp: word_le_nat_alt word_less_nat_alt)
  then show ?case using lt Suc.prems(2) by (subst udelay_ahead.simps) (simp add: clkcount_def counting_io_def)
qed

lemma ucast_add:
  "(ucast (a + b :: u32) :: 64 word) = (if unat a + unat b < 2 ^ 32 then ucast a + ucast b else ucast a + ucast b - 2 ^ 32)"
proof -
  have n: "(ucast x :: 64 word) = of_nat (unat x)" for x :: u32 by simp
  have "unat a + unat b < 2 ^ 33" using unsigned_less[of a, where 'a = nat] unsigned_less[of b, where 'a = nat] by simp
  then have u: "unat (a + b) = (if unat a + unat b < 2 ^ 32 then unat a + unat b else unat a + unat b - 2 ^ 32)"
    by (auto simp: unat_word_ariths mod_if)
  show ?thesis
  proof (cases "unat a + unat b < 2 ^ 32")
    case True
    then show ?thesis using u by (simp add: n del: unsigned_of_nat of_nat_unat)
  next
    case False
    then have "(of_nat (unat a + unat b - 2 ^ 32) :: 64 word) = of_nat (unat a + unat b) - of_nat (2 ^ 32)" by (intro of_nat_diff) simp
    then show ?thesis using u False by (simp add: n del: of_nat_unat)
  qed
qed

lemma join_halves: "push_bit 32 (ucast (ucast (drop_bit 32 pct) :: u32)) OR ucast (x :: u32) = push_bit 32 (drop_bit 32 pct) + (ucast x :: 64 word)"
proof -
  have "ucast (ucast (drop_bit 32 pct) :: u32) = drop_bit 32 (pct :: 64 word)"
    using bit_imp_le_length[of pct] by (intro bit_word_eqI) (fastforce simp: bit_simps)
  moreover have "push_bit 32 (drop_bit 32 pct) + (ucast x :: 64 word) = push_bit 32 (drop_bit 32 pct) OR ucast x"
    by (rule disjunctive_add) (auto simp: bit_simps dest: bit_imp_le_length)
  ultimately show ?thesis by simp
qed

lemma add_low_half:
  "push_bit 32 (ucast (ucast (drop_bit 32 pct) :: u32)) OR ucast (ucast pct + r :: u32) =
     (if unat (ucast pct :: u32) + unat r < 2 ^ 32 then pct + ucast r else pct + ucast r - 2 ^ 32 :: 64 word)"
proof -
  have "push_bit 32 (drop_bit 32 pct) + ucast (ucast pct :: u32) = push_bit 32 (drop_bit 32 pct) OR ucast (ucast pct :: u32)"
    by (rule disjunctive_add) (auto simp: bit_simps dest: bit_imp_le_length)
  also have "\<dots> = pct" by (intro bit_word_eqI) (auto simp: bit_simps)
  finally have "push_bit 32 (drop_bit 32 pct) + ucast (ucast pct :: u32) = pct" .
  then show ?thesis unfolding join_halves
    unfolding ucast_add by (auto simp: algebra_simps)
qed


text \<open>A timer just before its overflow, whose compare register is the state.\<close>

definition late_io :: "64 word io_ops" where
  "late_io = \<lparr>io_read = (\<lambda>a h. (0xFFFFFFF0, h)), io_write = (\<lambda>a v h. h), cntpct = (\<lambda>h. (0x1FFFFFFFF, h)),
     put_cntp_cval = (\<lambda>v h. v), cntp_ctl = (\<lambda>h. (0, h)), put_cntp_ctl = (\<lambda>v h. h)\<rparr>"



section \<open>The clock interrupt keeps the kernel's invariant\<close>

lemma kern_inv_cong:
  assumes "kern_inv s Q F" and "locktab s' = locktab s" "mem s' = mem s" "freelist s' = freelist s" "memheap s' = memheap s" "maxaddr s' = maxaddr s"
    "proctab s' = proctab s" "queuetab s' = queuetab s" "nextqueue s' = nextqueue s" "readylist s' = readylist s" "currpid s' = currpid s"
    "numproc s' = numproc s" "nextpid s' = nextpid s" "promote_medium s' = promote_medium s" "promote_low s' = promote_low s" "cpu s' = cpu s"
    "length (preempt s') = 4" "length (clkticks s') = 4" "length (clktime s') = 4"
  shows "kern_inv s' Q F"
proof -
  note M = kern_midD[OF assms(1)[unfolded kern_inv_def]]
  have "queues_rep s' Q" by (rule queues_rep_cong[OF kern_shapeD(1)[OF M(1)]]) (simp_all add: assms)
  then have "kern_shape s' Q" using M(1) assms(2-) by (simp add: kern_shape_def)
  moreover have "stacks_ok s' F" by (rule stacks_ok_cong[OF M(3)]) (simp_all add: assms)
  moreover have "boxes_ok s'" by (rule boxes_ok_cong[OF M(4)]) (simp_all add: assms mbox_def)
  moreover have "counters_ok s'" using M(5) assms(2-) by (simp add: counters_ok_def)
  ultimately show ?thesis using M(2,6) assms(2-) by (simp add: kern_inv_def kern_mid_def)
qed

lemma kern_inv_lengths:
  assumes "kern_inv s Q F"
  shows "length (preempt s) = 4" "length (clkticks s) = 4" "length (clktime s) = 4" "length (currpid s) = 4"
    "length (promote_medium s) = 4" "length (promote_low s) = 4"
  using kern_midD(1)[OF assms[unfolded kern_inv_def]] by (simp_all add: kern_shape_def)

text \<open>The counters after a tick.\<close>

definition ticked :: "nat \<Rightarrow> 'a procst_scheme \<Rightarrow> 'a procst_scheme" where
  "ticked c s =
     (let n = clkticks s ! c + 1 in
      if n = 1000 then s\<lparr>clkticks := (clkticks s)[c := 0], clktime := (clktime s)[c := clktime s ! c + 1]\<rparr>
      else s\<lparr>clkticks := (clkticks s)[c := n]\<rparr>)"

lemma clk_tick_ticked:
  assumes "length (clkticks s) = 4" "length (clktime s) = 4" "c < 4"
  shows "clk_tick (int c) s = Some (ticked c s)"
  using assms by (simp add: clk_tick_def ticked_def aget_in aset_in inb_def CLKTICKS_PER_SEC_def Let_def)

lemma clkhandler_steps:
  fixes s :: "('h, 'a) intst_scheme" and io :: "'h io_ops"
  assumes inv: "kern_inv s Q F" and c: "c < 4"
  defines "s1 \<equiv> (ticked c (s\<lparr>hw := clkupdate io (int c) (clkfreq s div 1000) (hw s)\<rparr>))\<lparr>preempt := (preempt s)[c := preempt s ! c - 1]\<rparr>"
  shows "clkhandler io (int c) s = (if preempt s ! c = 1 then resched (int c) s1 else Some s1)" and "kern_inv s1 Q F"
proof -
  note l = kern_inv_lengths[OF inv]
  let ?s0 = "s\<lparr>hw := clkupdate io (int c) (clkfreq s div 1000) (hw s)\<rparr>"
  have p: "preempt (ticked c ?s0) = preempt s" by (simp add: ticked_def Let_def)
  have "clk_tick (int c) ?s0 = Some (ticked c ?s0)" using l c by (intro clk_tick_ticked) simp_all
  then show "clkhandler io (int c) s = (if preempt s ! c = 1 then resched (int c) s1 else Some s1)"
    using l c p by (simp add: clkhandler_def clk_preempt_def CLKTICKS_PER_SEC_def aget_in aset_in inb_def s1_def)
  show "kern_inv s1 Q F" by (rule kern_inv_cong[OF inv]) (simp_all add: s1_def ticked_def Let_def l)
qed

text \<open>C1.
  The clock interrupt on a core, in every state of the invariant: the handler returns and keeps the invariant, the heap
  and the enabled lines; it reprograms the timer, counts the tick, and at the thousandth tick counts a second
  and starts over; the other cores' counters stay. While the running process has quantum left, it goes on and its
  quantum gets one shorter; with the last tick of the quantum the core makes one step of the abstract scheduler and the
  next process gets a full quantum.
\<close>

theorem clkhandler_spec:
  fixes s :: "('h, 'a) intst_scheme" and io :: "'h io_ops"
  assumes inv: "kern_inv s Q F" and c: "c < 4"
  defines "old \<equiv> currpid s ! c"
  shows "\<exists>s' Q'. clkhandler io (int c) s = Some s' \<and> kern_inv s' Q' F \<and> arm_enabled_irqs s' = arm_enabled_irqs s \<and>
    hw s' = clkupdate io (int c) (clkfreq s div 1000) (hw s) \<and>
    clkticks s' = (clkticks s)[c := if clkticks s ! c = 999 then 0 else clkticks s ! c + 1] \<and>
    clktime s' = (clktime s)[c := if clkticks s ! c = 999 then clktime s ! c + 1 else clktime s ! c] \<and>
    (if preempt s ! c = 1
     then preempt s' = (preempt s)[c := QUANTUM] \<and>
       core_of Q' (currpid s' ! c) (promote_medium s' ! c) (promote_low s' ! c) c =
         v_resched True (priority (pcb_of s old)) (core_of Q old (promote_medium s ! c) (promote_low s ! c) c)
     else Q' = Q \<and> currpid s' = currpid s \<and> preempt s' = (preempt s)[c := preempt s ! c - 1])"
proof -
  let ?s1 = "(ticked c (s\<lparr>hw := clkupdate io (int c) (clkfreq s div 1000) (hw s)\<rparr>))\<lparr>preempt := (preempt s)[c := preempt s ! c - 1]\<rparr>"
  note K = clkhandler_steps[OF inv c, of io]
  note S = kern_inv_lengths[OF inv]
  have n: "x + 1 = 1000 \<longleftrightarrow> x = 999" for x :: u32 by simp
  have t: "hw ?s1 = clkupdate io (int c) (clkfreq s div 1000) (hw s)" "arm_enabled_irqs ?s1 = arm_enabled_irqs s"
    "clkticks ?s1 = (clkticks s)[c := if clkticks s ! c = 999 then 0 else clkticks s ! c + 1]"
    "clktime ?s1 = (clktime s)[c := if clkticks s ! c = 999 then clktime s ! c + 1 else clktime s ! c]"
    "currpid ?s1 = currpid s" "proctab ?s1 = proctab s" "promote_medium ?s1 = promote_medium s" "promote_low ?s1 = promote_low s"
    by (simp_all add: ticked_def Let_def n)
  show ?thesis
  proof (cases "preempt s ! c = 1")
    case False
    then show ?thesis using K t by (intro exI[of _ ?s1] exI[of _ Q]) simp
  next
    case True
    have cur: "p_state (pcb_of s old) = PRCURR" using kern_midD(6)[OF inv[unfolded kern_inv_def] c] c by (simp add: old_def)
    have mid: "kern_mid c ?s1 Q F" using K(2) kern_inv_mid by blast
    let ?P = "\<lambda>new. switch_tab (proctab s) old new (cpu ?s1 ! c)"
    let ?S = "\<lambda>q new m l. ?s1\<lparr>promote_medium := (promote_medium s)[c := m], promote_low := (promote_low s)[c := l], queuetab := q,
             proctab := ?P new, currpid := (currpid s)[c := new], preempt := (preempt ?s1)[c := QUANTUM],
             cpu := (cpu ?s1)[c := load_regs (regs (at (?P new) new)) (cpu ?s1 ! c)]\<rparr>"
    obtain q Q' new m l where R: "resched (int c) ?s1 = Some (?S q new m l)" and R2: "kern_inv (?S q new m l) Q' F"
        "core_of Q' new m l c = v_resched (p_state (pcb_of s old) = PRCURR) (priority (pcb_of s old)) (core_of Q old (promote_medium s ! c) (promote_low s ! c) c)"
      using resched_mid[OF mid c] unfolding Let_def t old_def[symmetric] by (elim exE conjE) (rule that)
    let ?s2 = "?S q new m l"
    have "preempt ?s2 = (preempt s)[c := QUANTUM]" "currpid ?s2 ! c = new" "promote_medium ?s2 ! c = m" "promote_low ?s2 ! c = l" using S c by simp_all
    moreover have "hw ?s2 = hw ?s1" "arm_enabled_irqs ?s2 = arm_enabled_irqs ?s1" "clkticks ?s2 = clkticks ?s1" "clktime ?s2 = clktime ?s1" by simp_all
    ultimately show ?thesis using True K(1) R R2 t(1-4) cur
      by (intro exI[of _ ?s2] exI[of _ Q']) (simp only: if_True simp_thms refl)
  qed
qed

lemma quiet_inv: "kern_inv (quiet_state kern_ex) ex_queues ex_free"
  by (rule kern_inv_cong[OF kern_ex_inv]) (simp_all add: quiet_state_def kern_inv_lengths[OF kern_ex_inv])

theorem clkhandler_spec_witness:
  "kern_inv (quiet_state kern_ex) ex_queues ex_free \<and>
   (\<exists>s'. clkhandler quiet_io 0 (quiet_state kern_ex) = Some s' \<and> clkticks s' = [1, 0, 0, 0] \<and> currpid s' = [4, 1, 2, 3] \<and> preempt s' = [2, 3, 3, 3])"
proof -
  have k: "clkticks (quiet_state kern_ex) = [0, 0, 0, 0]" "currpid (quiet_state kern_ex) = [4, 1, 2, 3]" "preempt (quiet_state kern_ex) = [3, 3, 3, 3]"
    by (simp_all add: quiet_state_def kern_ex_def)
  show ?thesis using clkhandler_spec[OF quiet_inv, of 0 quiet_io] quiet_inv unfolding k by auto
qed

end
