(* ===== verification/Spec2Isabelle.thy ===== *)
theory Spec2Isabelle
  imports Heap_Contract Process_Queue C_Strings Quicksort Ctype Stdio Kernel_Properties Interrupts
begin

text \<open>
  Embedded Xinu, verified: spinlocks and heap.
\<close>

end
